(* ===== verification/Xhc_Prelude.thy ===== *)
theory Xhc_Prelude
  imports
    Main
    "HOL-Library.Word"
    "HOL-Library.Char_ord"
    "HOL-Library.List_Lexorder"
    "HOL-Library.Monad_Syntax"
begin

unbundle bit_operations_syntax

text \<open>
  Shared vocabulary of the xhttpcache development.

  Byte strings (\<open>std::string\<close>, \<open>char *\<close> with a length, \<open>sds\<close>) are lists of
  \<^typ>\<open>char\<close>: an Isabelle character is one byte, and with \<open>Char_ord\<close> and
  \<open>List_Lexorder\<close> the order on strings is the unsigned lexicographic order of
  \<open>std::string::operator<\<close>, of \<open>memcmp\<close> and of the key order of the store.
  Unsigned machine integers are words; signed ones are \<^typ>\<open>int\<close> with the
  wrap-around written out (\<open>wrap32\<close>, \<open>wrap64\<close>).

  Undefined behaviour of the C++ code (a read outside a buffer, a null pointer that is
  dereferenced, a division by zero) is the value \<^const>\<open>None\<close> of \<open>'a ub\<close>, so that
  "this operation is safe" is a provable statement: its result is some \<open>Some r\<close>.

  The two locales at the end are the interfaces several components share: a codec with
  a left inverse, and a consumer of a byte stream that may be fed in pieces.
\<close>

section \<open>Types and characters\<close>

type_synonym u8 = "8 word"
type_synonym u32 = "32 word"
type_synonym u64 = "64 word"
type_synonym int64 = int
type_synonym 'a ub = "'a option"

named_theorems wire_simps \<open>equations of the byte-level encodings\<close>
named_theorems inv_intros \<open>preservation of the representation invariants\<close>

abbreviation NUL :: char where "NUL \<equiv> CHR 0x00"
abbreviation TAB :: char where "TAB \<equiv> CHR 0x09"
abbreviation LF :: char where "LF \<equiv> CHR 0x0A"
abbreviation CR :: char where "CR \<equiv> CHR 0x0D"
abbreviation CRLF :: string where "CRLF \<equiv> [CR, LF]"

definition byte_val :: "char \<Rightarrow> nat" where
  "byte_val c = of_char c"

definition mk_byte :: "nat \<Rightarrow> char" where
  "mk_byte n = char_of n"

definition isdigit :: "char \<Rightarrow> bool" where
  "isdigit c \<longleftrightarrow> 48 \<le> byte_val c \<and> byte_val c \<le> 57"

definition isupper :: "char \<Rightarrow> bool" where
  "isupper c \<longleftrightarrow> 65 \<le> byte_val c \<and> byte_val c \<le> 90"

definition islower :: "char \<Rightarrow> bool" where
  "islower c \<longleftrightarrow> 97 \<le> byte_val c \<and> byte_val c \<le> 122"

definition isspace :: "char \<Rightarrow> bool" where
  "isspace c \<longleftrightarrow> byte_val c = 32 \<or> (9 \<le> byte_val c \<and> byte_val c \<le> 13)"

definition isprint :: "char \<Rightarrow> bool" where
  "isprint c \<longleftrightarrow> 32 \<le> byte_val c \<and> byte_val c \<le> 126"

definition tolower :: "char \<Rightarrow> char" where
  "tolower c = (if isupper c then mk_byte (byte_val c + 32) else c)"

definition toupper :: "char \<Rightarrow> char" where
  "toupper c = (if islower c then mk_byte (byte_val c - 32) else c)"

text \<open>What a \<open>const char *\<close> reader sees of a buffer: the bytes before the first NUL.\<close>

definition c_str :: "string \<Rightarrow> string" where
  "c_str s = takeWhile (\<lambda>c. c \<noteq> NUL) s"

text \<open>\<open>strcasecmp(a, b) == 0\<close> and \<open>strncasecmp(a, b, n) == 0\<close>.\<close>

definition strcasecmp_eq :: "string \<Rightarrow> string \<Rightarrow> bool" where
  "strcasecmp_eq a b \<longleftrightarrow> map tolower (c_str a) = map tolower (c_str b)"

definition strncasecmp_eq :: "string \<Rightarrow> string \<Rightarrow> nat \<Rightarrow> bool" where
  "strncasecmp_eq a b n \<longleftrightarrow> map tolower (take n (c_str a)) = map tolower (take n (c_str b))"

section \<open>Signed machine integers\<close>

definition INT_MIN :: int where "INT_MIN = - (2 ^ 31)"
definition INT_MAX :: int where "INT_MAX = 2 ^ 31 - 1"
definition INT64_MIN :: int where "INT64_MIN = - (2 ^ 63)"
definition INT64_MAX :: int where "INT64_MAX = 2 ^ 63 - 1"

definition wrap32 :: "int \<Rightarrow> int" where
  "wrap32 x = (x + 2 ^ 31) mod 2 ^ 32 - 2 ^ 31"

definition wrap64 :: "int \<Rightarrow> int" where
  "wrap64 x = (x + 2 ^ 63) mod 2 ^ 64 - 2 ^ 63"

definition is_int64 :: "int \<Rightarrow> bool" where
  "is_int64 x \<longleftrightarrow> INT64_MIN \<le> x \<and> x \<le> INT64_MAX"

definition clamp64 :: "int \<Rightarrow> int" where
  "clamp64 x = (if x < INT64_MIN then INT64_MIN else if x > INT64_MAX then INT64_MAX else x)"

text \<open>C's integer division truncates towards zero.\<close>

definition c_div :: "int \<Rightarrow> int \<Rightarrow> int" where
  "c_div a b = sgn a * sgn b * (\<bar>a\<bar> div \<bar>b\<bar>)"

section \<open>Decimal text\<close>

text \<open>\<open>printf("%d")\<close> and its wider variants.\<close>

fun dec_nat :: "nat \<Rightarrow> string" where
  "dec_nat n = (if n < 10 then [mk_byte (48 + n)] else dec_nat (n div 10) @ [mk_byte (48 + n mod 10)])"

declare dec_nat.simps [simp del]

definition dec_int :: "int \<Rightarrow> string" where
  "dec_int x = (if x < 0 then CHR ''-'' # dec_nat (nat (- x)) else dec_nat (nat x))"

text \<open>\<open>snprintf\<close> into a buffer of \<open>n\<close> bytes keeps \<open>n - 1\<close> of them and a NUL.\<close>

definition snprintf :: "nat \<Rightarrow> string \<Rightarrow> string" where
  "snprintf n s = take (n - 1) s"

definition num_val :: "string \<Rightarrow> nat" where
  "num_val ds = foldl (\<lambda>n c. 10 * n + (byte_val c - 48)) 0 ds"

text \<open>
  \<open>strtol(s, &end, 10)\<close> with a 64-bit \<open>long\<close>: white space, an optional sign, digits;
  the value saturates. The second component is \<open>end - s\<close>.
\<close>

definition strtol :: "string \<Rightarrow> int \<times> nat" where
  "strtol s =
     (let s1 = dropWhile isspace s;
          neg = (s1 \<noteq> [] \<and> hd s1 = CHR ''-'');
          s2 = (if s1 \<noteq> [] \<and> (hd s1 = CHR ''-'' \<or> hd s1 = CHR ''+'') then tl s1 else s1);
          ds = takeWhile isdigit s2;
          v = int (num_val ds)
      in if ds = [] then (0, 0)
         else (clamp64 (if neg then - v else v), length s - length s2 + length ds))"

text \<open>\<open>atoi\<close> truncates the \<open>long\<close> to an \<open>int\<close>.\<close>

definition atoi :: "string \<Rightarrow> int" where
  "atoi s = wrap32 (fst (strtol (c_str s)))"

section \<open>Words as bytes\<close>

text \<open>The bytes of an integer object in memory on the little-endian target.\<close>

definition le_bytes :: "nat \<Rightarrow> 'a::len word \<Rightarrow> string" where
  "le_bytes n w = map (\<lambda>i. mk_byte (unat (drop_bit (8 * i) w))) [0..<n]"

primrec of_le_bytes :: "string \<Rightarrow> 'a::len word" where
  "of_le_bytes [] = 0"
| "of_le_bytes (c # cs) = of_nat (byte_val c) OR push_bit 8 (of_le_bytes cs)"

text \<open>The big-endian digits of a number, the order-preserving form.\<close>

primrec be_bytes :: "nat \<Rightarrow> nat \<Rightarrow> string" where
  "be_bytes 0 x = []"
| "be_bytes (Suc n) x = mk_byte (x div 256 ^ n) # be_bytes n x"

section \<open>Ordered maps\<close>

text \<open>Assignment through \<open>operator[]\<close> of a \<open>std::map\<close>, whose entries are kept in the order of the keys.\<close>

primrec map_put :: "string \<Rightarrow> 'v \<Rightarrow> (string \<times> 'v) list \<Rightarrow> (string \<times> 'v) list" where
  "map_put k v [] = [(k, v)]"
| "map_put k v (p # m) =
     (if k < fst p then (k, v) # p # m else if k = fst p then (k, v) # m else p # map_put k v m)"

section \<open>Lemmas\<close>

subsection \<open>Bytes\<close>

lemma byte_val_less [simp]: "byte_val c < 256"
  by (simp add: byte_val_def)

lemma byte_val_mk [simp]: "byte_val (mk_byte n) = n mod 256"
  by (simp add: byte_val_def mk_byte_def)

lemma mk_byte_val [simp]: "mk_byte (byte_val c) = c"
  by (simp add: byte_val_def mk_byte_def)

lemma mk_byte_eq_iff: "mk_byte m = mk_byte n \<longleftrightarrow> m mod 256 = n mod 256"
  by (metis byte_val_mk char_of_mod_256 mk_byte_def)

lemma byte_val_eq_iff: "byte_val c = byte_val d \<longleftrightarrow> c = d"
  by (metis mk_byte_val)

lemma less_char_iff: "c < d \<longleftrightarrow> byte_val c < byte_val d" for c d :: char
  by (simp add: less_char_def byte_val_def)

subsection \<open>Signed integers\<close>

lemma wrap64_range [simp]: "is_int64 (wrap64 x)"
  by (simp add: is_int64_def wrap64_def INT64_MIN_def INT64_MAX_def)

lemma wrap64_id: "is_int64 x \<Longrightarrow> wrap64 x = x"
  by (simp add: is_int64_def wrap64_def INT64_MIN_def INT64_MAX_def)

lemma clamp64_id: "is_int64 x \<Longrightarrow> clamp64 x = x"
  by (simp add: is_int64_def clamp64_def)

lemma clamp64_range [simp]: "is_int64 (clamp64 x)"
  by (simp add: is_int64_def clamp64_def INT64_MIN_def INT64_MAX_def)

lemma wrap32_id: "INT_MIN \<le> x \<Longrightarrow> x \<le> INT_MAX \<Longrightarrow> wrap32 x = x"
  by (simp add: wrap32_def INT_MIN_def INT_MAX_def)

lemma c_div_nonneg: "0 \<le> a \<Longrightarrow> 0 < b \<Longrightarrow> c_div a b = a div b"
  by (cases "a = 0") (simp_all add: c_div_def sgn_if)

subsection \<open>Decimal text\<close>

lemma num_val_append: "num_val (xs @ [c]) = 10 * num_val xs + (byte_val c - 48)"
  by (simp add: num_val_def)

lemma mk_byte_digits [simp]:
  "mk_byte 48 = CHR ''0''" "mk_byte 49 = CHR ''1''" "mk_byte 50 = CHR ''2''" "mk_byte 51 = CHR ''3''"
  "mk_byte 52 = CHR ''4''" "mk_byte 53 = CHR ''5''" "mk_byte 54 = CHR ''6''" "mk_byte 55 = CHR ''7''"
  "mk_byte 56 = CHR ''8''" "mk_byte 57 = CHR ''9''"
  by code_simp+

lemma dec_nat_nonempty [simp]: "dec_nat n \<noteq> []"
  by (subst dec_nat.simps) simp

lemma dec_nat_digits: "\<forall>c \<in> set (dec_nat n). isdigit c"
proof (induction n rule: dec_nat.induct)
  case (1 n)
  show ?case
    by (subst dec_nat.simps) (use "1.IH" in \<open>auto simp: isdigit_def\<close>)
qed

lemma num_val_dec_nat [simp]: "num_val (dec_nat n) = n"
proof (induction n rule: dec_nat.induct)
  case (1 n)
  show ?case
  proof (cases "n < 10")
    case True
    then show ?thesis by (subst dec_nat.simps) (simp add: num_val_def)
  next
    case False
    with "1.IH" show ?thesis
      by (subst dec_nat.simps) (simp add: num_val_append)
  qed
qed

lemma takeWhile_dec_nat [simp]:
  "takeWhile isdigit (dec_nat n) = dec_nat n"
  using dec_nat_digits by (simp add: takeWhile_eq_all_conv)

lemma isdigit_not_space: "isdigit c \<Longrightarrow> \<not> isspace c"
  by (auto simp: isdigit_def isspace_def)

lemma isdigit_not_NUL: "isdigit c \<Longrightarrow> c \<noteq> NUL"
  by (auto simp: isdigit_def byte_val_def)

lemma isdigit_not_sign: "isdigit c \<Longrightarrow> c \<noteq> CHR ''-'' \<and> c \<noteq> CHR ''+''"
  by (auto simp: isdigit_def byte_val_def)

lemma hd_dec_nat: "isdigit (hd (dec_nat n))"
  using dec_nat_digits [of n] by (simp add: hd_in_set)

lemma length_dec_nat: "n < 10 ^ k \<Longrightarrow> 0 < k \<Longrightarrow> length (dec_nat n) \<le> k"
proof (induction n arbitrary: k rule: dec_nat.induct)
  case (1 n)
  show ?case
  proof (cases "n < 10")
    case True
    with "1.prems" show ?thesis by (subst dec_nat.simps) simp
  next
    case False
    with "1.prems" obtain k' where k: "k = Suc k'" "0 < k'"
      by (cases k; cases "k - 1") auto
    with "1.prems" have "n div 10 < 10 ^ k'" by (simp add: less_mult_imp_div_less mult.commute)
    with False k "1.IH" show ?thesis by (subst dec_nat.simps) simp
  qed
qed

lemma strtol_dec_nat: "strtol (dec_nat n) = (clamp64 (int n), length (dec_nat n))"
proof -
  have "dropWhile isspace (dec_nat n) = dec_nat n"
    using hd_dec_nat isdigit_not_space by (metis dropWhile_eq_self_iff)
  moreover have "hd (dec_nat n) \<noteq> CHR ''-''" "hd (dec_nat n) \<noteq> CHR ''+''"
    using hd_dec_nat isdigit_not_sign by blast+
  ultimately show ?thesis by (simp add: strtol_def Let_def)
qed

lemma strtol_dec_int: "strtol (dec_int x) = (clamp64 x, length (dec_int x))"
proof (cases "x < 0")
  case True
  have "\<not> isspace (CHR ''-'')" by (simp add: isspace_def byte_val_def)
  with True show ?thesis by (simp add: dec_int_def strtol_def Let_def)
next
  case False
  then show ?thesis by (simp add: dec_int_def strtol_dec_nat)
qed

lemma c_str_id: "NUL \<notin> set s \<Longrightarrow> c_str s = s"
  by (auto simp: c_str_def takeWhile_eq_all_conv)

lemma dec_nat_no_NUL: "NUL \<notin> set (dec_nat n)"
  using dec_nat_digits isdigit_not_NUL by blast

lemma c_str_dec_int [simp]: "c_str (dec_int x) = dec_int x"
  by (rule c_str_id) (simp add: dec_int_def dec_nat_no_NUL)

lemma atoi_dec_int: "INT_MIN \<le> x \<Longrightarrow> x \<le> INT_MAX \<Longrightarrow> atoi (dec_int x) = x"
  by (simp add: atoi_def strtol_dec_int clamp64_def wrap32_id INT_MIN_def INT_MAX_def
      INT64_MIN_def INT64_MAX_def)

subsection \<open>Byte images of words\<close>

lemma length_le_bytes [simp]: "length (le_bytes n w) = n"
  by (simp add: le_bytes_def)

lemma length_be_bytes [simp]: "length (be_bytes n x) = n"
  by (induction n) simp_all

lemma le_bytes_Suc: "le_bytes (Suc n) w = mk_byte (unat w) # le_bytes n (drop_bit 8 w)"
  by (simp add: le_bytes_def upt_conv_Cons map_Suc_upt [symmetric] algebra_simps
      del: upt_Suc)

lemma of_le_bytes_le_bytes: "of_le_bytes (le_bytes n w) = take_bit (8 * n) w"
  for w :: "'a::len word"
proof (induction n arbitrary: w)
  case 0
  then show ?case by (simp add: le_bytes_def)
next
  case (Suc n)
  have "of_nat (unat w mod 256) = take_bit 8 w"
  proof -
    have "unat w mod 256 = take_bit 8 (unat w)" by (simp add: take_bit_eq_mod)
    then show ?thesis by (simp add: take_bit_of_nat [symmetric])
  qed
  then show ?case
    by (simp add: le_bytes_Suc Suc) (rule bit_word_eqI, auto simp: bit_simps)
qed

lemma less_div_mod_iff:
  fixes x y p :: nat
  shows "(x div p < y div p \<or> (x div p = y div p \<and> x mod p < y mod p)) \<longleftrightarrow> x < y"
proof (cases "x div p" "y div p" rule: linorder_cases)
  case less
  then have "x < y" by (rule contrapos_pp) (simp add: div_le_mono not_less)
  with less show ?thesis by simp
next
  case equal
  have "x = x div p * p + x mod p" "y = y div p * p + y mod p" by simp_all
  then show ?thesis using equal by (metis nat_add_left_cancel_less less_irrefl)
next
  case greater
  then have "y < x" by (rule contrapos_pp) (simp add: div_le_mono not_less)
  with greater show ?thesis by simp
qed

lemma div_mod_digit: "n < m \<Longrightarrow> (x mod 256 ^ m) div 256 ^ n mod 256 = x div 256 ^ n mod (256::nat)"
proof -
  assume "n < m"
  then obtain k where m: "m = n + Suc k" using less_iff_Suc_add by auto
  have "x mod 256 ^ m = 256 ^ n * (x div 256 ^ n mod 256 ^ Suc k) + x mod 256 ^ n"
    unfolding m power_add by (rule mod_mult2_eq)
  then have "(x mod 256 ^ m) div 256 ^ n = x div 256 ^ n mod 256 ^ Suc k"
    by simp
  then show ?thesis by (simp add: mod_mod_cancel)
qed

lemma be_bytes_mod: "n \<le> m \<Longrightarrow> be_bytes n (x mod 256 ^ m) = be_bytes n x"
  by (induction n) (simp_all add: mk_byte_eq_iff div_mod_digit)

lemma be_bytes_less_iff:
  "x < 256 ^ n \<Longrightarrow> y < 256 ^ n \<Longrightarrow> be_bytes n x < be_bytes n y \<longleftrightarrow> x < y"
proof (induction n arbitrary: x y)
  case 0
  then show ?case by simp
next
  case (Suc n)
  let ?p = "256 ^ n :: nat"
  have lt: "x div ?p < 256" "y div ?p < 256"
    using Suc.prems by (simp_all add: less_mult_imp_div_less)
  have "be_bytes n x < be_bytes n y \<longleftrightarrow> x mod ?p < y mod ?p"
    using Suc.IH [of "x mod ?p" "y mod ?p"] by (simp add: be_bytes_mod)
  then have "be_bytes (Suc n) x < be_bytes (Suc n) y \<longleftrightarrow>
      x div ?p < y div ?p \<or> (x div ?p = y div ?p \<and> x mod ?p < y mod ?p)"
    using lt by (simp add: less_char_iff mk_byte_eq_iff)
  also have "\<dots> \<longleftrightarrow> x < y"
    by (rule less_div_mod_iff)
  finally show ?case .
qed

subsection \<open>Ordered maps\<close>

lemma map_of_map_put: "map_of (map_put k v m) = (map_of m)(k \<mapsto> v)"
  by (induction m) (auto simp: fun_eq_iff)

lemma map_put_twice: "map_put k w (map_put k v m) = map_put k w m"
  by (induction m) auto

lemma set_map_put: "fst ` set (map_put k v m) = insert k (fst ` set m)"
  by (induction m) auto

lemma sorted_map_put: "sorted_wrt (<) (map fst m) \<Longrightarrow> sorted_wrt (<) (map fst (map_put k v m))"
proof (induction m)
  case (Cons p m)
  have "\<forall>x \<in> fst ` set (map_put k v m). fst p < x" if "fst p < k"
    using Cons.prems that by (simp add: set_map_put)
  then show ?case using Cons by (auto simp: less_le_trans)
qed simp

lemma map_put_same: "sorted_wrt (<) (map fst m) \<Longrightarrow> map_of m k = Some v \<Longrightarrow> map_put k v m = m"
proof (induction m)
  case (Cons p m)
  have "\<not> k < fst p" using Cons.prems by (auto split: if_splits dest!: map_of_SomeD)
  then show ?case using Cons by (cases p) (auto split: if_splits)
qed simp

section \<open>Shared interfaces\<close>

text \<open>An encoding with a left inverse on the values that satisfy \<open>ok\<close>.\<close>

locale codec =
  fixes enc :: "'a \<Rightarrow> 'b" and dec :: "'b \<Rightarrow> 'a option" and ok :: "'a \<Rightarrow> bool"
  assumes dec_enc: "ok x \<Longrightarrow> dec (enc x) = Some x"
begin

lemma enc_eq_iff: "ok x \<Longrightarrow> ok y \<Longrightarrow> enc x = enc y \<longleftrightarrow> x = y"
  by (metis dec_enc option.inject)

lemma enc_inj_on: "inj_on enc {x. ok x}"
  by (rule inj_onI) (simp add: enc_eq_iff)

end

text \<open>A consumer of a stream that may be handed over in pieces.\<close>

primrec feed_all :: "('s \<Rightarrow> 'i list \<Rightarrow> 's ub) \<Rightarrow> 's \<Rightarrow> 'i list list \<Rightarrow> 's ub" where
  "feed_all feed s [] = Some s"
| "feed_all feed s (c # cs) = Option.bind (feed s c) (\<lambda>s'. feed_all feed s' cs)"

lemma feed_all_total: "feed_all (\<lambda>s d. Some (f s d)) s ds = Some (fold (\<lambda>d s. f s d) ds s)"
  by (induction ds arbitrary: s) simp_all

locale stream_consumer =
  fixes feed :: "'s \<Rightarrow> 'i list \<Rightarrow> 's ub" and ok :: "'s \<Rightarrow> bool"
  assumes feed_ok: "ok s \<Longrightarrow> feed s a = Some s' \<Longrightarrow> ok s'"
    and feed_append: "ok s \<Longrightarrow> Option.bind (feed s a) (\<lambda>s'. feed s' b) = feed s (a @ b)"
begin

lemma feed_all_concat: "ok s \<Longrightarrow> feed_all feed s (c # cs) = feed s (concat (c # cs))"
proof (induction cs arbitrary: c)
  case Nil
  then show ?case by (cases "feed s c") simp_all
next
  case (Cons d cs)
  have "feed_all feed s (c # d # cs) = feed_all feed s ((c @ d) # cs)"
    using Cons.prems by (simp add: feed_append [symmetric] Option.bind_assoc)
  with Cons.IH [of "c @ d"] Cons.prems show ?case by simp
qed

end

end
