(* ===== verification/Xhc_Util.thy ===== *)
theory Xhc_Util
  imports Xhc_Prelude
begin

text \<open>
  \<open>common/util.h\<close> and \<open>common/util.cpp\<close>: byte order of scores, decimal conversion,
  tokenising, hexadecimal dumps, base64 and the encoded backend password, and the
  calendar text of \<open>toGMT\<close>. The process-level helpers (\<open>daemonize\<close>, \<open>guard\<close>) are not here.
\<close>

section \<open>Definitions\<close>

subsection \<open>Byte order\<close>

definition big_endian16 :: "16 word \<Rightarrow> 16 word" where
  "big_endian16 v = drop_bit 8 v OR push_bit 8 v"

definition big_endian32 :: "u32 \<Rightarrow> u32" where
  "big_endian32 v =
     drop_bit 24 v OR (drop_bit 8 v AND 0xff00) OR (push_bit 8 v AND 0xff0000) OR push_bit 24 v"

definition big_endian64 :: "u64 \<Rightarrow> u64" where
  "big_endian64 v =
     (let h = ucast (drop_bit 32 v) :: u32;
          l = ucast (v AND 0xffffffff) :: u32
      in ucast (big_endian32 h) OR push_bit 32 (ucast (big_endian32 l)))"

text \<open>The macros \<open>encode_score\<close> and \<open>decode_score\<close>, on the \<open>int64_t\<close> they are given.\<close>

definition encode_score :: "int64 \<Rightarrow> u64" where
  "encode_score s = big_endian64 (word_of_int s)"

definition decode_score :: "u64 \<Rightarrow> int64" where
  "decode_score w = sint (big_endian64 w)"

subsection \<open>Time\<close>

text \<open>\<open>getCurrentTime\<close> from the two fields of the \<open>timeval\<close>.\<close>

definition getCurrentTime :: "int \<Rightarrow> int \<Rightarrow> u64" where
  "getCurrentTime tv_sec tv_usec = word_of_int tv_sec * 1000 + word_of_int (c_div tv_usec 1000)"

text \<open>
  \<open>gmtime\<close> and \<open>asctime\<close> of the C library for the proleptic Gregorian calendar:
  days since 1970-01-01 to (year, month, day), and \<open>"Www Mmm dd hh:mm:ss yyyy\n"\<close>.
\<close>

definition civil_from_days :: "int \<Rightarrow> int \<times> int \<times> int" where
  "civil_from_days days =
     (let z = days + 719468;
          era = z div 146097;
          doe = z - era * 146097;
          yoe = (doe - doe div 1460 + doe div 36524 - doe div 146096) div 365;
          doy = doe - (365 * yoe + yoe div 4 - yoe div 100);
          mp = (5 * doy + 2) div 153;
          d = doy - (153 * mp + 2) div 5 + 1;
          m = (if mp < 10 then mp + 3 else mp - 9);
          y = yoe + era * 400 + (if m \<le> 2 then 1 else 0)
      in (y, m, d))"

definition pad2 :: "char \<Rightarrow> int \<Rightarrow> string" where
  "pad2 fill n = (if n < 10 then fill # dec_int n else dec_int n)"

definition day_names :: "string list" where
  "day_names = [''Sun'', ''Mon'', ''Tue'', ''Wed'', ''Thu'', ''Fri'', ''Sat'']"

definition month_names :: "string list" where
  "month_names = [''Jan'', ''Feb'', ''Mar'', ''Apr'', ''May'', ''Jun'', ''Jul'', ''Aug'', ''Sep'',
     ''Oct'', ''Nov'', ''Dec'']"

definition asctime_gmtime :: "int \<Rightarrow> string" where
  "asctime_gmtime t =
     (let days = t div 86400; secs = t mod 86400; (y, m, d) = civil_from_days days
      in day_names ! nat ((days + 4) mod 7) @ '' '' @ month_names ! nat (m - 1) @ '' '' @
         pad2 (CHR '' '') d @ '' '' @ pad2 (CHR ''0'') (secs div 3600) @ '':'' @
         pad2 (CHR ''0'') (secs div 60 mod 60) @ '':'' @ pad2 (CHR ''0'') (secs mod 60) @ '' '' @
         dec_int y @ [LF])"

definition toGMT :: "int \<Rightarrow> string" where
  "toGMT t = butlast (asctime_gmtime t)"

subsection \<open>Numbers as text\<close>

definition str :: "int64 \<Rightarrow> string" where
  "str v = c_str (snprintf 21 (dec_int v))"

definition str_to_int64 :: "string \<Rightarrow> int64" where
  "str_to_int64 s = fst (strtol (c_str s))"

subsection \<open>Tokens\<close>

text \<open>\<open>strtok\<close> in a loop: the maximal runs of characters outside \<open>sep\<close>.\<close>

function strtok_all :: "string \<Rightarrow> string \<Rightarrow> string list" where
  "strtok_all sep s =
     (let s1 = dropWhile (\<lambda>c. c \<in> set sep) s
      in if s1 = [] then []
         else takeWhile (\<lambda>c. c \<notin> set sep) s1 # strtok_all sep (dropWhile (\<lambda>c. c \<notin> set sep) s1))"
  by pat_completeness auto
termination
proof (relation "measure (\<lambda>(sep, s). length s)", goal_cases)
  case (2 sep s s1)
  then have ne: "s1 \<noteq> []" "hd s1 \<notin> set sep"
    using hd_dropWhile [of "\<lambda>c. c \<in> set sep" s] by simp_all
  then obtain c cs where s1: "s1 = c # cs" by (cases s1) auto
  with ne have "length (dropWhile (\<lambda>c. c \<notin> set sep) s1) < length s1"
    by (simp add: less_Suc_eq_le length_dropWhile_le)
  moreover have "length s1 \<le> length s" by (simp add: 2(1) length_dropWhile_le)
  ultimately show ?case by simp
qed simp

declare strtok_all.simps [simp del]

text \<open>
  \<open>str2Vect\<close>: the return code and the vector after the call; a NULL source is \<open>None\<close>.
\<close>

definition str2Vect :: "string option \<Rightarrow> string list \<Rightarrow> string \<Rightarrow> int \<times> string list" where
  "str2Vect pSrc vDest pSep =
     (case pSrc of
        None \<Rightarrow> (-1, vDest)
      | Some src \<Rightarrow>
          let s = c_str src
          in if length s = 0 then (-1, vDest) else (0, vDest @ strtok_all (c_str pSep) s))"

subsection \<open>Hexadecimal dump\<close>

definition hex_digits :: string where
  "hex_digits = ''0123456789abcdef''"

definition hex_str :: "string \<Rightarrow> int \<Rightarrow> string" where
  "hex_str buf len =
     (let len' = (if len > 1024 then 1024 else len)
      in concat (map (\<lambda>c. [hex_digits ! (drop_bit 4 (byte_val c)), hex_digits ! (byte_val c AND 0xF), CHR '' ''])
           (take (nat len') buf)))"

text \<open>\<open>hash_dump\<close> hands \<open>hex_str\<close> a buffer of 1025 bytes; \<open>None\<close> when it is overrun.\<close>

definition hash_dump :: "string \<Rightarrow> int \<Rightarrow> string ub" where
  "hash_dump s len =
     (let out = hex_str s len in if length out + 1 \<le> 1024 + 1 then Some out else None)"

subsection \<open>Base64\<close>

definition codes :: string where
  "codes = ''ABCDEFGHIJKLMNOPQRSTUVWXYZabcdefghijklmnopqrstuvwxyz0123456789+/''"

definition code :: "nat \<Rightarrow> char" where
  "code n = codes ! (n AND 0x3F)"

text \<open>The loop over groups of three bytes and the padded tail.\<close>

fun base64_body :: "string \<Rightarrow> string" where
  "base64_body (x # y # z # rest) =
     (let a = byte_val x; b = byte_val y; c = byte_val z
      in code (drop_bit 2 a) # code (push_bit 4 (a AND 3) + drop_bit 4 b) #
         code (push_bit 2 (b AND 0xf) + drop_bit 6 c) # code c # base64_body rest)"
| "base64_body [] = []"
| "base64_body [x] =
     (let a = byte_val x
      in [code (drop_bit 2 a), code (push_bit 4 (a AND 3) + drop_bit 4 0), CHR ''='', CHR ''=''])"
| "base64_body [x, y] =
     (let a = byte_val x; b = byte_val y
      in [code (drop_bit 2 a), code (push_bit 4 (a AND 3) + drop_bit 4 b),
          code (push_bit 2 (b AND 0xf)), CHR ''=''])"

text \<open>
  The return code, the bytes written to \<open>out\<close> before the terminating NUL (\<open>None\<close> when
  nothing is written) and the new \<open>*outlen\<close>.
\<close>

definition base64_encode :: "string \<Rightarrow> nat \<Rightarrow> int \<times> string option \<times> nat" where
  "base64_encode inp outlen =
     (let len2 = 4 * ((length inp + 2) div 3)
      in if outlen < len2 + 1 then (-1, None, len2 + 1)
         else (let out = base64_body inp in (0, Some out, length out)))"

definition encode_pass :: "string \<Rightarrow> string \<Rightarrow> string" where
  "encode_pass user pass =
     (let strKey = user @ '':'' @ pass;
          user_key = (case base64_encode strKey 128 of
                        (_, Some out, _) \<Rightarrow> out @ replicate (128 - length out) NUL
                      | (_, None, _) \<Rightarrow> replicate 128 NUL)
      in c_str user_key)"

section \<open>Lemmas\<close>

lemma mask_consts:
  "(0xff00::u32) = push_bit 8 (mask 8)" "(0xff0000::u32) = push_bit 16 (mask 8)"
  "(0xffffffff::u64) = mask 32"
  by (simp_all add: mask_eq_exp_minus_1 push_bit_eq_mult)

lemma less_4_cases: "q < 4 \<Longrightarrow> q = 0 \<or> q = 1 \<or> q = 2 \<or> q = (3::nat)"
  by linarith

lemma bit_big_endian32:
  "q < 4 \<Longrightarrow> r < 8 \<Longrightarrow> bit (big_endian32 v) (8 * q + r) \<longleftrightarrow> bit v (8 * (3 - q) + r)"
  unfolding big_endian32_def mask_consts
  by (drule less_4_cases, elim disjE; auto simp: bit_simps dest: bit_imp_le_length)

lemma bit_big_endian64:
  assumes "q < 8" "r < 8"
  shows "bit (big_endian64 v) (8 * q + r) \<longleftrightarrow> bit v (8 * (7 - q) + r)"
proof (cases "q < 4")
  case True
  have lt: "8 * q + r < 32" "8 * (3 - q) + r < 32" using assms True by simp_all
  have e: "32 + (8 * (3 - q) + r) = 8 * (7 - q) + r" using True by simp
  have "bit (big_endian64 v) (8 * q + r) \<longleftrightarrow> bit (big_endian32 (ucast (drop_bit 32 v))) (8 * q + r)"
    using lt by (simp add: big_endian64_def Let_def bit_simps)
  also have "\<dots> \<longleftrightarrow> bit (drop_bit 32 v) (8 * (3 - q) + r)"
    using assms True lt by (simp only: bit_big_endian32) (simp add: bit_simps)
  finally show ?thesis by (simp only: bit_drop_bit_eq comp_def e)
next
  case False
  define p where "p = q - 4"
  have q: "q = p + 4" "p < 4" using False assms by (simp_all add: p_def)
  have e: "8 * q + r - 32 = 8 * p + r" "7 - q = 3 - p" using q by simp_all
  have lt: "8 * (3 - p) + r < 32" "8 * p + r < 32" using q assms by simp_all
  have "bit (big_endian64 v) (8 * q + r) \<longleftrightarrow> bit (big_endian32 (ucast (v AND mask 32))) (8 * p + r)"
    using lt q e assms by (auto simp: big_endian64_def Let_def bit_simps mask_consts dest: bit_imp_le_length)
  also have "\<dots> \<longleftrightarrow> bit v (8 * (3 - p) + r)"
    using assms q lt by (simp only: bit_big_endian32) (simp add: bit_simps)
  finally show ?thesis by (simp only: e)
qed
lemma big_endian64_invol: "big_endian64 (big_endian64 v) = v"
proof (rule bit_word_eqI)
  fix n assume "n < LENGTH(64)"
  then obtain q r where n: "n = 8 * q + r" "q < 8" "r < 8"
    using that [of "n div 8" "n mod 8"] by simp
  then show "bit (big_endian64 (big_endian64 v)) n = bit v n"
    by (simp add: bit_big_endian64)
qed

lemma be_bytes_map: "be_bytes n x = map (\<lambda>i. mk_byte (x div 256 ^ (n - Suc i))) [0..<n]"
proof (induction n)
  case (Suc n)
  have "[0..<Suc n] = 0 # map Suc [0..<n]" by (simp add: upt_conv_Cons map_Suc_upt del: upt_Suc)
  then show ?case by (simp add: Suc comp_def del: upt_Suc)
qed simp

lemma le_bytes_big_endian64: "le_bytes 8 (big_endian64 v) = be_bytes 8 (unat v)"
proof -
  have byte: "take_bit 8 (drop_bit (8 * q) (big_endian64 v)) = take_bit 8 (drop_bit (8 * (7 - q)) v)"
    if "q < 8" for q
    by (rule bit_word_eqI) (use that in \<open>auto simp: bit_simps bit_big_endian64\<close>)
  have *: "mk_byte (unat (drop_bit (8 * q) (big_endian64 v))) = mk_byte (unat v div 256 ^ (7 - q))"
    if "q < 8" for q
  proof -
    have "take_bit 8 (unat (drop_bit (8 * q) (big_endian64 v))) =
        take_bit 8 (unat (drop_bit (8 * (7 - q)) v))"
      using arg_cong [OF byte [OF that], of unat] by (simp only: unsigned_take_bit_eq)
    also have "unat (drop_bit (8 * (7 - q)) v) = unat v div 256 ^ (7 - q)"
      by (subst unat_drop_bit_eq) (simp add: drop_bit_eq_div power_mult)
    finally show ?thesis by (simp add: mk_byte_eq_iff take_bit_eq_mod)
  qed
  show ?thesis
    unfolding le_bytes_def be_bytes_map by (rule map_cong) (simp_all add: *)
qed

subsection \<open>Scores\<close>

lemma decode_encode_score: "is_int64 s \<Longrightarrow> decode_score (encode_score s) = s"
  by (simp add: decode_score_def encode_score_def big_endian64_invol sint_sbintrunc'
      is_int64_def INT64_MIN_def INT64_MAX_def signed_take_bit_int_eq_self)

lemma unat_word_of_int64: "0 \<le> s \<Longrightarrow> is_int64 s \<Longrightarrow> unat (word_of_int s :: u64) = nat s"
  by (simp add: is_int64_def INT64_MAX_def unat_eq_nat_uint uint_word_of_int)

lemma score_bytes: "0 \<le> s \<Longrightarrow> is_int64 s \<Longrightarrow> le_bytes 8 (encode_score s) = be_bytes 8 (nat s)"
  by (simp add: encode_score_def le_bytes_big_endian64 unat_word_of_int64)

lemma score_bytes_less_iff:
  assumes "0 \<le> a" "is_int64 a" "0 \<le> b" "is_int64 b"
  shows "le_bytes 8 (encode_score a) < le_bytes 8 (encode_score b) \<longleftrightarrow> a < b"
proof -
  have "nat a < 256 ^ 8" "nat b < 256 ^ 8"
    using assms by (simp_all add: is_int64_def INT64_MAX_def nat_less_iff)
  then show ?thesis using assms by (auto simp: score_bytes be_bytes_less_iff nat_less_eq_zless)
qed

lemma of_le_bytes_score: "is_int64 s \<Longrightarrow> decode_score (of_le_bytes (le_bytes 8 (encode_score s))) = s"
  by (simp add: of_le_bytes_le_bytes take_bit_word_eq_self decode_encode_score)

text \<open>A negative score is larger, as a byte string, than every non-negative one.\<close>

lemma score_bytes_negative:
  assumes "a < 0" "is_int64 a" "0 \<le> b" "is_int64 b"
  shows "le_bytes 8 (encode_score b) < le_bytes 8 (encode_score a)"
proof -
  have a: "unat (word_of_int a :: u64) = nat (a + 2 ^ 64)"
  proof -
    have "a mod 2 ^ 64 = (a + 2 ^ 64) mod 2 ^ 64" by (simp only: mod_add_self2)
    also have "\<dots> = a + 2 ^ 64"
      by (rule mod_pos_pos_trivial) (use assms in \<open>simp_all add: is_int64_def INT64_MIN_def\<close>)
    finally show ?thesis by (simp add: unat_eq_nat_uint uint_word_of_int take_bit_eq_mod)
  qed
  have b: "nat b < 256 ^ 8" "nat (a + 2 ^ 64) < 256 ^ 8" "nat b < nat (a + 2 ^ 64)"
    using assms by (simp_all add: is_int64_def INT64_MIN_def INT64_MAX_def nat_less_iff)
  have "le_bytes 8 (encode_score a) = be_bytes 8 (nat (a + 2 ^ 64))"
    by (simp only: encode_score_def le_bytes_big_endian64 a)
  then show ?thesis using assms(3,4) b by (simp only: score_bytes be_bytes_less_iff)
qed

subsection \<open>Decimal conversion\<close>

lemma length_dec_int: "is_int64 v \<Longrightarrow> length (dec_int v) \<le> 20"
  using length_dec_nat [of "nat v" 19] length_dec_nat [of "nat (- v)" 19]
  by (auto simp: dec_int_def is_int64_def INT64_MIN_def INT64_MAX_def nat_less_iff)

lemma str_eq: "is_int64 v \<Longrightarrow> str v = dec_int v"
  using length_dec_int [of v] by (simp add: str_def snprintf_def)

lemma str_to_int64_dec_int: "is_int64 v \<Longrightarrow> str_to_int64 (dec_int v) = v"
  by (simp add: str_to_int64_def strtol_dec_int clamp64_id)

lemma str_to_int64_str: "is_int64 v \<Longrightarrow> str_to_int64 (str v) = v"
  by (simp add: str_eq str_to_int64_dec_int)

lemma str_to_int64_range [simp]: "is_int64 (str_to_int64 s)"
  by (auto simp: str_to_int64_def strtol_def Let_def is_int64_def INT64_MIN_def INT64_MAX_def clamp64_def)

interpretation decimal: codec str "\<lambda>s. Some (str_to_int64 s)" is_int64
  by unfold_locales (simp add: str_to_int64_str)

subsection \<open>Base64\<close>

text \<open>A reference decoder, used to state that the encoder loses nothing.\<close>

definition code_val :: "char \<Rightarrow> nat" where
  "code_val c = (let v = byte_val c in
     if isupper c then v - 65 else if islower c then v - 71 else if isdigit c then v + 4
     else if c = CHR ''+'' then 62 else 63)"

fun base64_decode :: "string \<Rightarrow> string option" where
  "base64_decode [] = Some []"
| "base64_decode (p # q # r # s # rest) =
     (let a = code_val p; b = code_val q; c = code_val r; d = code_val s
      in if r = CHR ''='' then Some [mk_byte (a * 4 + b div 16)]
         else if s = CHR ''='' then Some [mk_byte (a * 4 + b div 16), mk_byte (b * 16 + c div 4)]
         else map_option (\<lambda>t. mk_byte (a * 4 + b div 16) # mk_byte (b * 16 + c div 4) #
                mk_byte (c * 64 + d) # t) (base64_decode rest))"
| "base64_decode _ = None"

lemma length_codes [simp]: "length codes = 64"
  by (simp add: codes_def)

lemma map_code_val: "map code_val codes = [0..<64]"
  by code_simp

lemma codes_plain: "CHR ''='' \<notin> set codes" "NUL \<notin> set codes"
  by (simp_all add: codes_def)

lemma code_props:
  "code_val (code n) = n mod 64" "code n \<noteq> CHR ''=''" "code n \<noteq> NUL"
proof -
  have e: "n AND 63 = n mod 64"
    using take_bit_eq_mask [of 6 n] by (simp add: mask_eq_exp_minus_1 take_bit_eq_mod)
  have lt: "n mod 64 < length codes" by simp
  have "code_val (codes ! (n mod 64)) = map code_val codes ! (n mod 64)"
    by (rule nth_map [OF lt, symmetric])
  then show "code_val (code n) = n mod 64" by (simp add: code_def e map_code_val)
  have "codes ! (n mod 64) \<in> set codes" using lt by (rule nth_mem)
  then show "code n \<noteq> CHR ''=''" "code n \<noteq> NUL"
    using codes_plain unfolding code_def e by metis+
qed

lemma base64_arith:
  fixes a b c :: nat
  assumes "a < 256" "b < 256" "c < 256"
  shows "(a div 4) * 4 + ((a mod 4) * 16 + b div 16) div 16 = a"
    "(((a mod 4) * 16 + b div 16) * 16 + ((b mod 16) * 4 + c div 64) div 4) mod 256 = b"
    "(((b mod 16) * 4 + c div 64) * 64 + c mod 64) mod 256 = c"
proof -
  have 1: "((a mod 4) * 16 + b div 16) div 16 = a mod 4" using assms by simp
  show "(a div 4) * 4 + ((a mod 4) * 16 + b div 16) div 16 = a" by (simp only: 1 div_mult_mod_eq)
  have 2: "((b mod 16) * 4 + c div 64) div 4 = b mod 16" using assms by simp
  have "(((a mod 4) * 16 + b div 16) * 16 + b mod 16) = a mod 4 * 256 + b" by simp
  then show "(((a mod 4) * 16 + b div 16) * 16 + ((b mod 16) * 4 + c div 64) div 4) mod 256 = b"
    unfolding 2 using assms by simp
  have "((b mod 16) * 4 + c div 64) * 64 + c mod 64 = b mod 16 * 256 + c" by simp
  then show "(((b mod 16) * 4 + c div 64) * 64 + c mod 64) mod 256 = c" using assms by simp
qed

lemma base64_bits:
  "drop_bit 2 (a::nat) = a div 4" "drop_bit 4 (a::nat) = a div 16" "drop_bit 6 (a::nat) = a div 64"
  "push_bit 4 (a::nat) = a * 16" "push_bit 2 (a::nat) = a * 4" "a AND 3 = a mod 4" "a AND 15 = a mod 16"
  using take_bit_eq_mask [of 2 a] take_bit_eq_mask [of 4 a]
  by (simp_all add: drop_bit_eq_div push_bit_eq_mult mask_eq_exp_minus_1 take_bit_eq_mod)

lemma base64_mod64:
  fixes a b :: nat
  assumes "a < 256" "b < 256"
  shows "a div 4 mod 64 = a div 4" "((a mod 4) * 16 + b div 16) mod 64 = (a mod 4) * 16 + b div 16"
    "((a mod 16) * 4 + b div 64) mod 64 = (a mod 16) * 4 + b div 64"
proof -
  have "a mod 4 < 4" "b div 16 < 16" "a mod 16 < 16" "b div 64 < 4" "a div 4 < 64"
    using assms by simp_all
  then show "a div 4 mod 64 = a div 4" "((a mod 4) * 16 + b div 16) mod 64 = (a mod 4) * 16 + b div 16"
    "((a mod 16) * 4 + b div 64) mod 64 = (a mod 16) * 4 + b div 64"
    by (simp_all add: mod_less)
qed

lemma mk_byte_add_256 [simp]: "mk_byte (n + 256 * m) = mk_byte n"
  by (simp add: mk_byte_eq_iff)

lemma base64_decode_body: "base64_decode (base64_body s) = Some s"
proof (induction s rule: base64_body.induct)
  case (1 x y z rest)
  note facts = base64_arith [of "byte_val x" "byte_val y" "byte_val z"]
    base64_mod64 [of "byte_val x" "byte_val y"] base64_mod64 [of "byte_val y" "byte_val z"]
  show ?case using 1 facts
    by (simp add: Let_def base64_bits code_props mk_byte_eq_iff [of _ "byte_val _", simplified])
next
  case 2
  show ?case by simp
next
  case (3 x)
  show ?case using base64_arith(1) [of "byte_val x" 0 0] base64_mod64 [of "byte_val x" 0]
    by (simp add: Let_def base64_bits code_props)
next
  case (4 x y)
  show ?case using base64_arith(1,2) [of "byte_val x" "byte_val y" 0]
      base64_mod64 [of "byte_val x" "byte_val y"] base64_mod64(3) [of "byte_val y" 0]
    by (simp add: Let_def base64_bits code_props)
qed

lemma length_base64_body: "length (base64_body s) = 4 * ((length s + 2) div 3)"
proof (induction s rule: base64_body.induct)
  case (1 x y z rest)
  have "(length rest + 5) div 3 = Suc ((length rest + 2) div 3)" by arith
  with 1 show ?case by (simp add: Let_def algebra_simps)
qed (simp_all add: Let_def)

lemma base64_body_no_NUL: "NUL \<notin> set (base64_body s)"
  by (induction s rule: base64_body.induct) (simp_all add: Let_def code_props code_props [symmetric])

lemma c_str_append_NUL: "NUL \<notin> set s \<Longrightarrow> c_str (s @ replicate n NUL) = s"
  by (cases n) (auto simp: c_str_def takeWhile_append)

lemma encode_pass_fits:
  assumes "length user + length pass \<le> 92"
  shows "encode_pass user pass = base64_body (user @ '':'' @ pass)"
proof -
  have "\<not> 127 < 4 * ((3 + (length user + length pass)) div 3)" using assms by arith
  then show ?thesis
    by (simp add: encode_pass_def base64_encode_def Let_def c_str_append_NUL base64_body_no_NUL)
qed

lemma encode_pass_too_long:
  assumes "92 < length user + length pass"
  shows "encode_pass user pass = ''''"
proof -
  have "127 < 4 * ((3 + (length user + length pass)) div 3)" using assms by arith
  then show ?thesis
    by (simp add: encode_pass_def base64_encode_def Let_def c_str_append_NUL [of "[]", simplified])
qed

subsection \<open>Tokens\<close>

lemma strtok_all_unfold:
  assumes "s1 = dropWhile (\<lambda>c. c \<in> set sep) s"
  shows "strtok_all sep s =
    (if s1 = [] then []
     else takeWhile (\<lambda>c. c \<notin> set sep) s1 # strtok_all sep (dropWhile (\<lambda>c. c \<notin> set sep) s1))"
  unfolding assms by (subst strtok_all.simps) (simp only: Let_def)

lemma strtok_all_tokens:
  "t \<in> set (strtok_all sep s) \<Longrightarrow> t \<noteq> [] \<and> set t \<inter> set sep = {}"
proof (induction sep s rule: strtok_all.induct)
  case (1 sep s)
  define s1 where "s1 = dropWhile (\<lambda>c. c \<in> set sep) s"
  note unf = strtok_all_unfold [OF s1_def]
  have ne: "s1 \<noteq> []" using "1.prems" by (auto simp: unf)
  then have "hd s1 \<notin> set sep"
    using hd_dropWhile [of "\<lambda>c. c \<in> set sep" s] by (simp add: s1_def)
  with ne have head: "takeWhile (\<lambda>c. c \<notin> set sep) s1 \<noteq> []" by (cases s1) simp_all
  from "1.prems" ne consider "t = takeWhile (\<lambda>c. c \<notin> set sep) s1" |
      "t \<in> set (strtok_all sep (dropWhile (\<lambda>c. c \<notin> set sep) s1))"
    by (auto simp: unf)
  then show ?case
    using "1.IH" [OF s1_def ne] head by cases (auto dest: set_takeWhileD)
qed

lemma concat_strtok_all: "concat (strtok_all sep s) = filter (\<lambda>c. c \<notin> set sep) s"
proof (induction sep s rule: strtok_all.induct)
  case (1 sep s)
  define s1 where "s1 = dropWhile (\<lambda>c. c \<in> set sep) s"
  note unf = strtok_all_unfold [OF s1_def]
  have s: "filter (\<lambda>c. c \<notin> set sep) s = filter (\<lambda>c. c \<notin> set sep) s1"
    unfolding s1_def by (induction s) simp_all
  have split: "filter (\<lambda>c. c \<notin> set sep) s1 =
      takeWhile (\<lambda>c. c \<notin> set sep) s1 @ filter (\<lambda>c. c \<notin> set sep) (dropWhile (\<lambda>c. c \<notin> set sep) s1)"
    by (induction s1) simp_all
  show ?case
  proof (cases "s1 = []")
    case True
    then show ?thesis using s by (simp add: unf)
  next
    case False
    then have "concat (strtok_all sep s) =
        takeWhile (\<lambda>c. c \<notin> set sep) s1 @ concat (strtok_all sep (dropWhile (\<lambda>c. c \<notin> set sep) s1))"
      by (simp add: unf)
    then show ?thesis using s split "1.IH" [OF s1_def False] by metis
  qed
qed

end
