(* ===== verification/Xhc_Http.thy ===== *)
theory Xhc_Http
  imports Xhc_Util "HOL-Library.Sublist"
begin

text \<open>
  \<open>common/xevHtpdBase.cpp\<close> and \<open>gzcompress\<close> of \<open>common/util.cpp\<close>: what the HTTP front end and
  the back end share.

  Requests are read and answered by libevhtp, which is not part of the repository. A request holds
  what the library hands over (method, path, query, body, and the answers of \<open>evhtp_header_find\<close>
  as a function) and collects what the code hands back: headers, body and the replies sent, each
  with the headers and the body of that moment.

  zlib is not part of the repository either: its calls are the fields of a record, and what the
  code relies on is the locale \<open>zlib\<close>. \<^const>\<open>None\<close> is undefined behaviour or a loop that
  does not end.
\<close>

section \<open>Definitions\<close>

subsection \<open>Requests\<close>

datatype htp_method = htp_method_GET | htp_method_HEAD | htp_method_POST | htp_method_PUT | htp_method_DELETE
  | htp_method_MKCOL | htp_method_COPY | htp_method_MOVE | htp_method_OPTIONS | htp_method_PROPFIND
  | htp_method_PROPPATCH | htp_method_LOCK | htp_method_UNLOCK | htp_method_TRACE | htp_method_CONNECT
  | htp_method_PATCH | htp_method_UNKNOWN

definition EVHTP_RES_OK :: nat where "EVHTP_RES_OK = 200"
definition EVHTP_RES_ACCEPTED :: nat where "EVHTP_RES_ACCEPTED = 202"
definition EVHTP_RES_NOTMOD :: nat where "EVHTP_RES_NOTMOD = 304"
definition EVHTP_RES_BADREQ :: nat where "EVHTP_RES_BADREQ = 400"
definition EVHTP_RES_UNAUTH :: nat where "EVHTP_RES_UNAUTH = 401"
definition EVHTP_RES_NOTFOUND :: nat where "EVHTP_RES_NOTFOUND = 404"
definition EVHTP_RES_SERVERR :: nat where "EVHTP_RES_SERVERR = 500"

type_synonym http_headers = "(string \<times> string) list"

text \<open>A query argument is its key and, when there is one, its value.\<close>

type_synonym evhtp_query = "(string \<times> string option) list"

record evhtp_request =
  req_method :: htp_method
  path_full :: string
  query :: "evhtp_query option"
  headers_in :: "string \<Rightarrow> string option"
  buffer_in :: string
  server_name :: string
  headers_out :: http_headers
  buffer_out :: string
  replies :: "(nat \<times> http_headers \<times> string) list"

definition evbuffer_add :: "string \<Rightarrow> evhtp_request \<Rightarrow> evhtp_request" where
  "evbuffer_add data req = req\<lparr>buffer_out := buffer_out req @ data\<rparr>"

definition evhtp_send_reply :: "nat \<Rightarrow> evhtp_request \<Rightarrow> evhtp_request" where
  "evhtp_send_reply status req = req\<lparr>replies := replies req @ [(status, headers_out req, buffer_out req)]\<rparr>"

text \<open>\<open>req->uri->path->full + 1\<close>; a path is never empty, and the byte after its end is not read.\<close>

definition path_key :: "evhtp_request \<Rightarrow> string ub" where
  "path_key req = (case c_str (path_full req) of [] \<Rightarrow> None | _ # uri \<Rightarrow> Some uri)"

definition AddHeader :: "string \<Rightarrow> string \<Rightarrow> evhtp_request \<Rightarrow> evhtp_request" where
  "AddHeader headkey headval req = req\<lparr>headers_out := headers_out req @ [(headkey, headval)]\<rparr>"

text \<open>The text is what the format and its arguments make, cut to the buffer of 1024 bytes.\<close>

definition SendStatusResphone :: "nat \<Rightarrow> string \<Rightarrow> evhtp_request \<Rightarrow> evhtp_request" where
  "SendStatusResphone errcode txt req =
     evhtp_send_reply errcode (evbuffer_add (c_str (snprintf 1024 txt)) req)"

definition SendHttpResphone :: "string \<Rightarrow> evhtp_request \<Rightarrow> evhtp_request" where
  "SendHttpResphone strData req =
     evhtp_send_reply EVHTP_RES_OK (evbuffer_add strData (AddHeader ''Server'' (server_name req) req))"

text \<open>The size is an \<open>int\<close> that becomes a \<open>size_t\<close>; more than the buffer holds cannot be copied.\<close>

definition SendHttpResphone_buf :: "string \<Rightarrow> int \<Rightarrow> evhtp_request \<Rightarrow> evhtp_request ub" where
  "SendHttpResphone_buf data n req =
     (if n < 0 \<or> int (length data) < n then None
      else Some (evhtp_send_reply EVHTP_RES_OK
                   (evbuffer_add (take (nat n) data) (AddHeader ''Server'' (server_name req) req))))"

definition content_type_table :: "(string \<times> string) list" where
  "content_type_table =
     [(''htm'', ''text/html''), (''js'', ''application/x-javascript''), (''html'', ''text/html''), (''css'', ''text/css''),
      (''txt'', ''text/plain''), (''c'', ''text/plain''), (''cpp'', ''text/plain''), (''h'', ''text/plain''),
      (''gif'', ''image/gif''), (''jpg'', ''image/jpeg''), (''ico'', ''image/gif''), (''jpeg'', ''image/jpeg''),
      (''png'', ''image/png''), (''pdf'', ''application/pdf''), (''ps'', ''application/postsript'')]"

text \<open>\<open>strrchr\<close>: what follows the last period, when there is one.\<close>

definition after_last_period :: "string \<Rightarrow> string option" where
  "after_last_period s = (if CHR ''.'' \<in> set s then Some (rev (takeWhile (\<lambda>c. c \<noteq> CHR ''.'') (rev s))) else None)"

definition GuessContentType :: "string \<Rightarrow> string" where
  "GuessContentType path =
     (case after_last_period (c_str path) of
        None \<Rightarrow> ''text/plain''
      | Some extension \<Rightarrow>
          if CHR ''/'' \<in> set extension then ''text/plain''
          else foldl (\<lambda>type ent. if strcasecmp_eq (fst ent) extension then snd ent else type)
                 ''text/plain'' content_type_table)"

text \<open>An argument is found by a prefix of its name.\<close>

primrec uri_arg_scan :: "evhtp_query \<Rightarrow> string \<Rightarrow> string option" where
  "uri_arg_scan [] arg = None"
| "uri_arg_scan (kv # kvs) arg =
     (if prefix arg (c_str (fst kv)) \<and> snd kv \<noteq> None \<and> snd kv \<noteq> Some [] then snd kv else uri_arg_scan kvs arg)"

definition uri_arg_find :: "evhtp_request \<Rightarrow> string \<Rightarrow> string option" where
  "uri_arg_find req arg = (case query req of None \<Rightarrow> None | Some kvs \<Rightarrow> uri_arg_scan kvs (c_str arg))"

text \<open>\<open>evhtp_parse_query\<close> is a call of the library.\<close>

definition GetHttpPostText :: "(string \<Rightarrow> evhtp_query option) \<Rightarrow> evhtp_request \<Rightarrow> evhtp_query option" where
  "GetHttpPostText evhtp_parse_query req = evhtp_parse_query (buffer_in req)"

definition GetHttpPostData :: "evhtp_request \<Rightarrow> string" where
  "GetHttpPostData req = buffer_in req"

subsection \<open>The server object\<close>

record ssl_cfg =
  ssl_pemfile :: string
  ssl_privfile :: string
  scache_timeout :: int

text \<open>
  The fields of the object and what it has asked the library for: the options and the sockets of
  \<open>evhtp_t\<close>, and the configurations given to \<open>evhtp_ssl_init\<close>, in order.
\<close>

record xevHtpdBase =
  usessl :: bool
  sslcfg :: "ssl_cfg option"
  ssl_inits :: "ssl_cfg list"
  enable_nodelay :: bool
  enable_defer_accept :: bool
  enable_reuseport :: bool
  http_server_name :: string
  bound :: "(string \<times> int \<times> int) list"

definition xevHtpdBase_new :: xevHtpdBase where
  "xevHtpdBase_new = \<lparr>usessl = False, sslcfg = None, ssl_inits = [], enable_nodelay = False,
     enable_defer_accept = False, enable_reuseport = False, http_server_name = [], bound = []\<rparr>"

definition InitSSL :: "string \<Rightarrow> string \<Rightarrow> int \<Rightarrow> xevHtpdBase \<Rightarrow> bool \<times> xevHtpdBase" where
  "InitSSL pemfile privfile timeout h =
     (if c_str pemfile = [] \<or> c_str privfile = [] then (False, h)
      else let cfg = \<lparr>ssl_pemfile = c_str pemfile, ssl_privfile = c_str privfile, scache_timeout = timeout\<rparr>
           in (True, h\<lparr>usessl := True, sslcfg := Some cfg, ssl_inits := ssl_inits h @ [cfg]\<rparr>))"

definition SERVER_SIGNATURE :: string where "SERVER_SIGNATURE = ''xhttpcache''"

definition BindSocket :: "string \<Rightarrow> int \<Rightarrow> xevHtpdBase \<Rightarrow> bool \<times> xevHtpdBase" where
  "BindSocket ip port h =
     (True, h\<lparr>enable_nodelay := True, enable_defer_accept := True, enable_reuseport := True,
              http_server_name := SERVER_SIGNATURE, bound := bound h @ [(ip, port, 1024)]\<rparr>)"

subsection \<open>Compression\<close>

text \<open>
  The calls of zlib on a stream: \<open>deflate\<close> gets the flush flag, the input that is left and the
  room that is left and returns its code, the stream, how many bytes it took and what it wrote.
\<close>

record 'z zlib_ops =
  z_deflateInit2 :: "'z option"
  z_deflate :: "'z \<Rightarrow> bool \<Rightarrow> string \<Rightarrow> nat \<Rightarrow> int \<times> 'z \<times> nat \<times> string"
  z_deflateEnd :: "'z \<Rightarrow> int"

definition Z_OK :: int where "Z_OK = 0"
definition Z_STREAM_END :: int where "Z_STREAM_END = 1"
definition Z_BUF_ERROR :: int where "Z_BUF_ERROR = - 5"

text \<open>The two loops: the stream, the input left, the bytes written and the room left; left is an error.\<close>

type_synonym 'z z_state = "'z \<times> string \<times> string \<times> nat"

partial_function (option) gz_feed :: "'z zlib_ops \<Rightarrow> nat \<Rightarrow> 'z z_state \<Rightarrow> (int + 'z z_state) option" where
  "gz_feed zo nzdata st =
     (case st of (z, rest, out, room) \<Rightarrow>
        if rest \<noteq> [] \<and> length out < nzdata then
          (case z_deflate zo z False rest room of
             (r, z, n, w) \<Rightarrow>
               if r \<noteq> Z_OK then Some (Inl (- 1))
               else gz_feed zo nzdata (z, drop n rest, out @ w, room - length w))
        else Some (Inr st))"

partial_function (option) gz_finish :: "'z zlib_ops \<Rightarrow> 'z z_state \<Rightarrow> (int + 'z z_state) option" where
  "gz_finish zo st =
     (case st of (z, rest, out, room) \<Rightarrow>
        (case z_deflate zo z True rest room of
           (r, z, n, w) \<Rightarrow>
             let st = (z, drop n rest, out @ w, room - length w)
             in if r = Z_STREAM_END then Some (Inr st)
                else if r \<noteq> Z_OK then Some (Inl (- 1))
                else gz_finish zo st))"

text \<open>
  \<open>gzcompress\<close> into a buffer of \<open>nzdata\<close> bytes: the return value and, when it is 0, the bytes
  written. The counters of the stream are 32 bits wide.
\<close>

definition gzcompress :: "'z zlib_ops \<Rightarrow> string \<Rightarrow> nat \<Rightarrow> (int \<times> string) ub" where
  "gzcompress zo data nzdata =
     (if data = [] then Some (- 1, [])
      else case z_deflateInit2 zo of
        None \<Rightarrow> Some (- 1, [])
      | Some z \<Rightarrow> do {
          r \<leftarrow> gz_feed zo nzdata (z, take (length data mod 2 ^ 32) data, [], nzdata mod 2 ^ 32);
          case r of
            Inl e \<Rightarrow> Some (e, [])
          | Inr (z, rest, out, room) \<Rightarrow>
              if rest \<noteq> [] then Some (wrap32 (int (length rest)), [])
              else do {
                r \<leftarrow> gz_finish zo (z, rest, out, room);
                case r of
                  Inl e \<Rightarrow> Some (e, [])
                | Inr (z, rest, out, room) \<Rightarrow>
                    if z_deflateEnd zo z \<noteq> Z_OK then Some (- 1, []) else Some (0, out)
              }
        })"

section \<open>Lemmas\<close>

subsection \<open>Compression\<close>

lemma wrap32_nonzero: "0 < x \<Longrightarrow> x < 2 ^ 32 \<Longrightarrow> wrap32 x \<noteq> 0"
proof (cases "x < 2 ^ 31")
  case False
  assume x: "x < 2 ^ 32"
  have "(x + 2 ^ 31) mod 2 ^ 32 = (x - 2 ^ 31 + 2 ^ 32) mod 2 ^ 32" by (simp add: add.commute)
  also have "\<dots> = x - 2 ^ 31" unfolding mod_add_self2 using False x by (intro mod_pos_pos_trivial) simp_all
  finally show ?thesis using x by (simp add: wrap32_def)
qed (simp add: wrap32_id INT_MIN_def INT_MAX_def)

text \<open>
  What the manual of zlib promises. \<open>zs z c p\<close>: the stream \<open>z\<close> has taken the bytes \<open>c\<close>
  and written \<open>p\<close>. A call that returns \<open>Z_OK\<close> has made progress, and one that ends the stream
  has taken all input and completed the output, which \<open>gunzip\<close> maps back to the input.
\<close>

locale zlib =
  fixes zo :: "'z zlib_ops" and gunzip :: "string \<Rightarrow> string option" and zs :: "'z \<Rightarrow> string \<Rightarrow> string \<Rightarrow> bool"
  assumes deflateInit: "z_deflateInit2 zo = Some z \<Longrightarrow> zs z [] []"
    and deflate_OK: "zs z c p \<Longrightarrow> z_deflate zo z f rest room = (Z_OK, z', n, w) \<Longrightarrow>
      zs z' (c @ take n rest) (p @ w) \<and> n \<le> length rest \<and> length w \<le> room \<and> (0 < n \<or> w \<noteq> [])"
    and deflate_end: "zs z c p \<Longrightarrow> z_deflate zo z f rest room = (Z_STREAM_END, z', n, w) \<Longrightarrow>
      n = length rest \<and> length w \<le> room \<and> gunzip (p @ w) = Some (c @ rest)"
begin

lemma gz_feed_ok:
  assumes "zs z c p" "c @ rest = input" "length p + room = m"
  shows "\<exists>r. gz_feed zo nz (z, rest, p, room) = Some r \<and>
    (case r of Inl e \<Rightarrow> e \<noteq> 0 | Inr (z', rest', p', room') \<Rightarrow> \<exists>c'. zs z' c' p' \<and> c' @ rest' = input \<and> length p' + room' = m)"
  using assms
proof (induction "length rest + room" arbitrary: z c p rest room rule: less_induct)
  case less
  obtain r z' n w where d: "z_deflate zo z False rest room = (r, z', n, w)" by (metis prod_cases4)
  note unf = gz_feed.simps [of zo nz "(z, rest, p, room)"]
  show ?case
  proof (cases "rest \<noteq> [] \<and> length p < nz \<and> r = Z_OK")
    case True
    with d have d: "z_deflate zo z False rest room = (Z_OK, z', n, w)" by simp
    from deflate_OK [OF less.prems(1) d]
    have ok: "zs z' (c @ take n rest) (p @ w)" "n \<le> length rest" "length w \<le> room" "0 < n \<or> w \<noteq> []" by auto
    have "0 < n + length w" using ok(4) by (cases w) auto
    then have "length (drop n rest) + (room - length w) < length rest + room" unfolding length_drop using ok(2,3) by linarith
    from less.hyps [OF this ok(1)] less.prems(2,3) ok(3) True d show ?thesis by (simp add: unf)
  next
    case False
    with d less.prems show ?thesis by (auto simp: unf)
  qed
qed

lemma gz_finish_ok:
  assumes "zs z c p" "c @ rest = input" "length p + room = m"
  shows "\<exists>r. gz_finish zo (z, rest, p, room) = Some r \<and>
    (case r of Inl e \<Rightarrow> e \<noteq> 0 | Inr (z', rest', p', room') \<Rightarrow> gunzip p' = Some input \<and> length p' \<le> m)"
  using assms
proof (induction "length rest + room" arbitrary: z c p rest room rule: less_induct)
  case less
  obtain r z' n w where d: "z_deflate zo z True rest room = (r, z', n, w)" by (metis prod_cases4)
  note unf = gz_finish.simps [of zo "(z, rest, p, room)"]
  consider (fin) "r = Z_STREAM_END" | (go) "r = Z_OK" | (err) "r \<noteq> Z_STREAM_END" "r \<noteq> Z_OK" by blast
  then show ?case
  proof cases
    case fin
    with deflate_end [OF less.prems(1), of True rest room z' n w] d less.prems show ?thesis by (simp add: unf)
  next
    case go
    with d have d: "z_deflate zo z True rest room = (Z_OK, z', n, w)" by simp
    from deflate_OK [OF less.prems(1) d]
    have ok: "zs z' (c @ take n rest) (p @ w)" "n \<le> length rest" "length w \<le> room" "0 < n \<or> w \<noteq> []" by auto
    have "0 < n + length w" using ok(4) by (cases w) auto
    then have "length (drop n rest) + (room - length w) < length rest + room" unfolding length_drop using ok(2,3) by linarith
    from less.hyps [OF this ok(1)] less.prems(2,3) ok(3) d show ?thesis by (simp add: unf Z_OK_def Z_STREAM_END_def)
  next
    case err
    with d show ?thesis by (simp add: unf)
  qed
qed

lemma gzcompress_ok:
  assumes "length data < 2 ^ 32" "nz < 2 ^ 32"
  shows "\<exists>r out. gzcompress zo data nz = Some (r, out) \<and> (r = 0 \<longrightarrow> gunzip out = Some data \<and> length out \<le> nz)"
proof (cases "data = [] \<or> z_deflateInit2 zo = None")
  case True
  then show ?thesis by (auto simp: gzcompress_def)
next
  case False
  then obtain z where z: "z_deflateInit2 zo = Some z" "data \<noteq> []" by auto
  obtain r where r: "gz_feed zo nz (z, data, [], nz) = Some r"
      "case r of Inl e \<Rightarrow> e \<noteq> 0 | Inr (z', rest', p', room') \<Rightarrow> \<exists>c'. zs z' c' p' \<and> c' @ rest' = data \<and> length p' + room' = nz"
    using gz_feed_ok [OF deflateInit [OF z(1)], of data data nz nz nz] by auto
  show ?thesis
  proof (cases r)
    case (Inl e)
    then show ?thesis using r z assms by (auto simp: gzcompress_def)
  next
    case (Inr st)
    obtain z' rest p room where st: "st = (z', rest, p, room)" by (metis prod_cases4)
    then obtain c where c: "zs z' c p" "c @ rest = data" "length p + room = nz" using r(2) Inr by auto
    show ?thesis
    proof (cases "rest = []")
      case True
      obtain r' where r': "gz_finish zo (z', [], p, room) = Some r'"
          "case r' of Inl e \<Rightarrow> e \<noteq> 0 | Inr (z', rest', p', room') \<Rightarrow> gunzip p' = Some data \<and> length p' \<le> nz"
        using gz_finish_ok [OF c] True by auto
      then show ?thesis using r(1) z assms Inr st True
        by (cases r') (auto simp: gzcompress_def split: prod.splits)
    next
      case False
      have "0 < int (length rest)" "int (length rest) < 2 ^ 32" using False c(2) assms(1) by auto
      then have "wrap32 (int (length rest)) \<noteq> 0" by (rule wrap32_nonzero)
      then show ?thesis using r(1) z assms Inr st False by (auto simp: gzcompress_def)
    qed
  qed
qed

end

text \<open>A stream that stores its input shows that the promises can hold.\<close>

definition stored_ops :: "unit zlib_ops" where
  "stored_ops = \<lparr>z_deflateInit2 = Some (),
     z_deflate = (\<lambda>z f rest room.
       if length rest \<le> room
       then (if f then Z_STREAM_END else if rest = [] then Z_BUF_ERROR else Z_OK, (), length rest, rest)
       else (if room = 0 then Z_BUF_ERROR else Z_OK, (), room, take room rest)),
     z_deflateEnd = (\<lambda>z. Z_OK)\<rparr>"

lemmas z_codes = Z_OK_def Z_STREAM_END_def Z_BUF_ERROR_def

interpretation stored: zlib stored_ops Some "\<lambda>z c p. c = p"
proof (unfold_locales, goal_cases)
  case (1 z)
  show ?case by simp
next
  case (2 z c p f rest room z' n w)
  then show ?case by (cases "length rest \<le> room"; cases f; cases "rest = []"; cases "room = 0") (auto simp: stored_ops_def z_codes)
next
  case (3 z c p f rest room z' n w)
  then show ?case by (cases "length rest \<le> room"; cases f; cases "rest = []"; cases "room = 0") (auto simp: stored_ops_def z_codes)
qed

section \<open>Properties\<close>

text \<open>
  C22: with a zlib that keeps its promises, \<open>gzcompress\<close> returns for every input and every buffer of
  less than 4 GiB, and when it returns 0 the bytes it wrote fit the buffer and decompress to exactly the
  input. Any other return value tells the caller to send the data as it is; an empty input always does.
\<close>

theorem gzcompress_correct:
  assumes "zlib zo gunzip zs" "length data < 2 ^ 32" "nzdata < 2 ^ 32"
  shows "\<exists>ret out. gzcompress zo data nzdata = Some (ret, out) \<and>
    (ret = 0 \<longrightarrow> data \<noteq> [] \<and> gunzip out = Some data \<and> length out \<le> nzdata)"
proof -
  have "gzcompress zo [] nzdata = Some (- 1, [])" by (simp add: gzcompress_def)
  then show ?thesis using zlib.gzcompress_ok [OF assms] by (cases "data = []") auto
qed

theorem gzcompress_correct_witness:
  "gzcompress stored_ops ''data'' 4 = Some (0, ''data'') \<and> gzcompress stored_ops ''data'' 3 = Some (1, []) \<and>
   (\<exists>ret out. gzcompress stored_ops ''data'' 4 = Some (ret, out) \<and> (ret = 0 \<longrightarrow> Some out = Some ''data''))"
proof (intro conjI)
  show "gzcompress stored_ops ''data'' 4 = Some (0, ''data'')" "gzcompress stored_ops ''data'' 3 = Some (1, [])"
    by (simp_all add: gzcompress_def stored_ops_def gz_feed.simps gz_finish.simps z_codes wrap32_def)
  show "\<exists>ret out. gzcompress stored_ops ''data'' 4 = Some (ret, out) \<and> (ret = 0 \<longrightarrow> Some out = Some ''data'')"
    using gzcompress_correct [OF stored.zlib_axioms, of "''data''" 4] by auto
qed

end
