(* ===== verification/Xhc_IniFile.thy ===== *)
theory Xhc_IniFile
  imports Xhc_Util
begin

text \<open>
  \<open>common/xIniFile.cpp\<close>: the reader and writer of the configuration file. A file is a list of
  keys (sections), each with a list of value names, a parallel list of values and comments.

  Indices are natural numbers; \<open>noID\<close> is \<^const>\<open>None\<close>. An index outside a vector is undefined.
  A file is given by its bytes, \<^const>\<open>None\<close> when it cannot be opened.

  The lemmas show that the parallel lists stay in step, so that no index is outside, that the
  object behaves as a map, and that a file that was written reads back.
\<close>

section \<open>Definitions\<close>

definition MAX_VALUEDATA :: nat where "MAX_VALUEDATA = 2048"

record ini_key =
  key_names :: "string list"
  key_values :: "string list"
  key_comments :: "string list"

record CIniFile =
  caseInsensitive :: bool
  path :: string
  keys :: "ini_key list"
  names :: "string list"
  comments :: "string list"

definition CIniFile_new :: "string \<Rightarrow> CIniFile" where
  "CIniFile_new iniPath = \<lparr>caseInsensitive = True, path = iniPath, keys = [], names = [], comments = []\<rparr>"

definition CaseSensitive :: "CIniFile \<Rightarrow> CIniFile" where
  "CaseSensitive c = c\<lparr>caseInsensitive := False\<rparr>"

definition CaseInsensitive :: "CIniFile \<Rightarrow> CIniFile" where
  "CaseInsensitive c = c\<lparr>caseInsensitive := True\<rparr>"

definition SetPath :: "string \<Rightarrow> CIniFile \<Rightarrow> CIniFile" where
  "SetPath newPath c = c\<lparr>path := newPath\<rparr>"

definition CheckCase :: "CIniFile \<Rightarrow> string \<Rightarrow> string" where
  "CheckCase c s = (if caseInsensitive c then map tolower s else s)"

subsection \<open>Vectors\<close>

text \<open>\<open>v[i]\<close> and \<open>v[i] = x\<close>; the first position with a property; \<open>v.erase(pos, pos + 1)\<close>.\<close>

definition at :: "'a list \<Rightarrow> nat \<Rightarrow> 'a ub" where
  "at xs i = (if i < length xs then Some (xs ! i) else None)"

definition put_at :: "'a list \<Rightarrow> nat \<Rightarrow> 'a \<Rightarrow> 'a list ub" where
  "put_at xs i x = (if i < length xs then Some (xs[i := x]) else None)"

definition erase_at :: "'a list \<Rightarrow> nat \<Rightarrow> 'a list ub" where
  "erase_at xs i = (if i < length xs then Some (take i xs @ drop (Suc i) xs) else None)"

primrec find_index :: "('a \<Rightarrow> bool) \<Rightarrow> 'a list \<Rightarrow> nat option" where
  "find_index P [] = None"
| "find_index P (x # xs) = (if P x then Some 0 else map_option Suc (find_index P xs))"

subsection \<open>Keys and values\<close>

definition FindKey :: "string \<Rightarrow> CIniFile \<Rightarrow> nat option" where
  "FindKey keyname c = find_index (\<lambda>n. CheckCase c n = CheckCase c keyname) (names c)"

definition FindValue :: "nat \<Rightarrow> string \<Rightarrow> CIniFile \<Rightarrow> nat option" where
  "FindValue keyID valuename c =
     (if length (keys c) \<le> keyID then None
      else find_index (\<lambda>n. CheckCase c n = CheckCase c valuename) (key_names (keys c ! keyID)))"

definition NumKeys :: "CIniFile \<Rightarrow> nat" where
  "NumKeys c = length (names c)"

definition AddKeyName :: "string \<Rightarrow> CIniFile \<Rightarrow> nat \<times> CIniFile" where
  "AddKeyName keyname c =
     (length (names c),
      c\<lparr>names := names c @ [keyname], keys := keys c @ [\<lparr>key_names = [], key_values = [], key_comments = []\<rparr>]\<rparr>)"

definition KeyName :: "nat \<Rightarrow> CIniFile \<Rightarrow> string" where
  "KeyName keyID c = (if keyID < length (names c) then names c ! keyID else [])"

definition NumValues_id :: "nat \<Rightarrow> CIniFile \<Rightarrow> nat" where
  "NumValues_id keyID c = (if keyID < length (keys c) then length (key_names (keys c ! keyID)) else 0)"

definition NumValues :: "string \<Rightarrow> CIniFile \<Rightarrow> nat ub" where
  "NumValues keyname c =
     (case FindKey keyname c of
        None \<Rightarrow> Some 0
      | Some keyID \<Rightarrow> do { k \<leftarrow> at (keys c) keyID; Some (length (key_names k)) })"

definition ValueName_id :: "nat \<Rightarrow> nat \<Rightarrow> CIniFile \<Rightarrow> string" where
  "ValueName_id keyID valueID c =
     (if keyID < length (keys c) \<and> valueID < length (key_names (keys c ! keyID))
      then key_names (keys c ! keyID) ! valueID else [])"

definition ValueName :: "string \<Rightarrow> nat \<Rightarrow> CIniFile \<Rightarrow> string" where
  "ValueName keyname valueID c =
     (case FindKey keyname c of None \<Rightarrow> [] | Some keyID \<Rightarrow> ValueName_id keyID valueID c)"

text \<open>It returns \<open>false\<close> also when it has set the value.\<close>

definition SetValue_id :: "nat \<Rightarrow> nat \<Rightarrow> string \<Rightarrow> CIniFile \<Rightarrow> (bool \<times> CIniFile) ub" where
  "SetValue_id keyID valueID val c =
     (if keyID < length (keys c) \<and> valueID < length (key_names (keys c ! keyID)) then do {
        let k = keys c ! keyID;
        vs \<leftarrow> put_at (key_values k) valueID val;
        Some (False, c\<lparr>keys := (keys c)[keyID := k\<lparr>key_values := vs\<rparr>]\<rparr>)
      } else Some (False, c))"

definition SetValue :: "string \<Rightarrow> string \<Rightarrow> string \<Rightarrow> bool \<Rightarrow> CIniFile \<Rightarrow> (bool \<times> CIniFile) ub" where
  "SetValue keyname valuename val create c =
     (let (found, c) = (case FindKey keyname c of
                          Some keyID \<Rightarrow> (Some keyID, c)
                        | None \<Rightarrow> if create then let (keyID, c) = AddKeyName keyname c in (Some keyID, c) else (None, c))
      in case found of
           None \<Rightarrow> Some (False, c)
         | Some keyID \<Rightarrow>
             (case FindValue keyID valuename c of
                None \<Rightarrow>
                  if \<not> create then Some (False, c)
                  else do {
                    k \<leftarrow> at (keys c) keyID;
                    ks \<leftarrow> put_at (keys c) keyID
                           (k\<lparr>key_names := key_names k @ [valuename], key_values := key_values k @ [val]\<rparr>);
                    Some (True, c\<lparr>keys := ks\<rparr>)
                  }
              | Some valueID \<Rightarrow> do {
                  k \<leftarrow> at (keys c) keyID;
                  vs \<leftarrow> put_at (key_values k) valueID val;
                  ks \<leftarrow> put_at (keys c) keyID (k\<lparr>key_values := vs\<rparr>);
                  Some (True, c\<lparr>keys := ks\<rparr>)
                }))"

text \<open>The argument \<open>create\<close> of the following is ignored: the default \<open>true\<close> is passed on.\<close>

definition SetValueI :: "string \<Rightarrow> string \<Rightarrow> int \<Rightarrow> bool \<Rightarrow> CIniFile \<Rightarrow> (bool \<times> CIniFile) ub" where
  "SetValueI keyname valuename val create c = SetValue keyname valuename (dec_int val) True c"

definition SetValueB :: "string \<Rightarrow> string \<Rightarrow> bool \<Rightarrow> bool \<Rightarrow> CIniFile \<Rightarrow> (bool \<times> CIniFile) ub" where
  "SetValueB keyname valuename val create c = SetValueI keyname valuename (if val then 1 else 0) create c"

text \<open>\<open>svalue\<close> is what \<open>vsprintf\<close> makes of the format and the arguments, into a buffer of 2048 bytes.\<close>

definition SetValueV :: "string \<Rightarrow> string \<Rightarrow> string \<Rightarrow> CIniFile \<Rightarrow> (bool \<times> CIniFile) ub" where
  "SetValueV keyname valuename svalue c =
     (if MAX_VALUEDATA \<le> length svalue then None else SetValue keyname valuename (c_str svalue) True c)"

text \<open>\<open>print_f\<close> is \<open>sprintf("%f")\<close>, which writes at most 317 bytes.\<close>

definition SetValueF :: "('d \<Rightarrow> string) \<Rightarrow> string \<Rightarrow> string \<Rightarrow> 'd \<Rightarrow> bool \<Rightarrow> CIniFile \<Rightarrow> (bool \<times> CIniFile) ub" where
  "SetValueF print_f keyname valuename val create c = SetValue keyname valuename (print_f val) True c"

definition GetValue_id :: "nat \<Rightarrow> nat \<Rightarrow> string \<Rightarrow> CIniFile \<Rightarrow> string ub" where
  "GetValue_id keyID valueID defValue c =
     (if keyID < length (keys c) \<and> valueID < length (key_names (keys c ! keyID))
      then at (key_values (keys c ! keyID)) valueID else Some defValue)"

definition GetValue :: "string \<Rightarrow> string \<Rightarrow> string \<Rightarrow> CIniFile \<Rightarrow> string ub" where
  "GetValue keyname valuename defValue c =
     (case FindKey keyname c of
        None \<Rightarrow> Some defValue
      | Some keyID \<Rightarrow>
          (case FindValue keyID valuename c of
             None \<Rightarrow> Some defValue
           | Some valueID \<Rightarrow> do { k \<leftarrow> at (keys c) keyID; at (key_values k) valueID }))"

definition GetValueI :: "string \<Rightarrow> string \<Rightarrow> int \<Rightarrow> CIniFile \<Rightarrow> int ub" where
  "GetValueI keyname valuename defValue c = map_option atoi (GetValue keyname valuename (dec_int defValue) c)"

definition GetValueB :: "string \<Rightarrow> string \<Rightarrow> bool \<Rightarrow> CIniFile \<Rightarrow> bool ub" where
  "GetValueB keyname valuename defValue c =
     map_option (\<lambda>n. n \<noteq> 0) (GetValueI keyname valuename (if defValue then 1 else 0) c)"

definition GetValueF :: "('d \<Rightarrow> string) \<Rightarrow> (string \<Rightarrow> 'd) \<Rightarrow> string \<Rightarrow> string \<Rightarrow> 'd \<Rightarrow> CIniFile \<Rightarrow> 'd ub" where
  "GetValueF print_f atof keyname valuename defValue c =
     map_option (\<lambda>s. atof (c_str s)) (GetValue keyname valuename (print_f defValue) c)"

definition DeleteValue :: "string \<Rightarrow> string \<Rightarrow> CIniFile \<Rightarrow> (bool \<times> CIniFile) ub" where
  "DeleteValue keyname valuename c =
     (case FindKey keyname c of
        None \<Rightarrow> Some (False, c)
      | Some keyID \<Rightarrow>
          (case FindValue keyID valuename c of
             None \<Rightarrow> Some (False, c)
           | Some valueID \<Rightarrow> do {
               k \<leftarrow> at (keys c) keyID;
               ns \<leftarrow> erase_at (key_names k) valueID;
               vs \<leftarrow> erase_at (key_values k) valueID;
               ks \<leftarrow> put_at (keys c) keyID (k\<lparr>key_names := ns, key_values := vs\<rparr>);
               Some (True, c\<lparr>keys := ks\<rparr>)
             }))"

definition DeleteKey :: "string \<Rightarrow> CIniFile \<Rightarrow> (bool \<times> CIniFile) ub" where
  "DeleteKey keyname c =
     (case FindKey keyname c of
        None \<Rightarrow> Some (False, c)
      | Some keyID \<Rightarrow> do {
          ns \<leftarrow> erase_at (names c) keyID;
          ks \<leftarrow> erase_at (keys c) keyID;
          Some (True, c\<lparr>names := ns, keys := ks\<rparr>)
        })"

definition Erase :: "CIniFile \<Rightarrow> CIniFile" where
  "Erase c = c\<lparr>names := [], keys := [], comments := []\<rparr>"

subsection \<open>Comments\<close>

definition HeaderComment_add :: "string \<Rightarrow> CIniFile \<Rightarrow> CIniFile" where
  "HeaderComment_add comment c = c\<lparr>comments := comments c @ [comment]\<rparr>"

definition HeaderComment :: "nat \<Rightarrow> CIniFile \<Rightarrow> string" where
  "HeaderComment commentID c = (if commentID < length (comments c) then comments c ! commentID else [])"

definition DeleteHeaderComment :: "nat \<Rightarrow> CIniFile \<Rightarrow> bool \<times> CIniFile" where
  "DeleteHeaderComment commentID c =
     (case erase_at (comments c) commentID of Some cs \<Rightarrow> (True, c\<lparr>comments := cs\<rparr>) | None \<Rightarrow> (False, c))"

definition DeleteHeaderComments :: "CIniFile \<Rightarrow> CIniFile" where
  "DeleteHeaderComments c = c\<lparr>comments := []\<rparr>"

definition NumKeyComments_id :: "nat \<Rightarrow> CIniFile \<Rightarrow> nat" where
  "NumKeyComments_id keyID c = (if keyID < length (keys c) then length (key_comments (keys c ! keyID)) else 0)"

definition NumKeyComments :: "string \<Rightarrow> CIniFile \<Rightarrow> nat ub" where
  "NumKeyComments keyname c =
     (case FindKey keyname c of
        None \<Rightarrow> Some 0
      | Some keyID \<Rightarrow> do { k \<leftarrow> at (keys c) keyID; Some (length (key_comments k)) })"

definition KeyComment_add_id :: "nat \<Rightarrow> string \<Rightarrow> CIniFile \<Rightarrow> bool \<times> CIniFile" where
  "KeyComment_add_id keyID comment c =
     (if keyID < length (keys c) then
        let k = keys c ! keyID
        in (True, c\<lparr>keys := (keys c)[keyID := k\<lparr>key_comments := key_comments k @ [comment]\<rparr>]\<rparr>)
      else (False, c))"

definition KeyComment_add :: "string \<Rightarrow> string \<Rightarrow> CIniFile \<Rightarrow> bool \<times> CIniFile" where
  "KeyComment_add keyname comment c =
     (case FindKey keyname c of None \<Rightarrow> (False, c) | Some keyID \<Rightarrow> KeyComment_add_id keyID comment c)"

definition KeyComment_id :: "nat \<Rightarrow> nat \<Rightarrow> CIniFile \<Rightarrow> string" where
  "KeyComment_id keyID commentID c =
     (if keyID < length (keys c) \<and> commentID < length (key_comments (keys c ! keyID))
      then key_comments (keys c ! keyID) ! commentID else [])"

definition KeyComment :: "string \<Rightarrow> nat \<Rightarrow> CIniFile \<Rightarrow> string" where
  "KeyComment keyname commentID c =
     (case FindKey keyname c of None \<Rightarrow> [] | Some keyID \<Rightarrow> KeyComment_id keyID commentID c)"

definition DeleteKeyComment_id :: "nat \<Rightarrow> nat \<Rightarrow> CIniFile \<Rightarrow> bool \<times> CIniFile" where
  "DeleteKeyComment_id keyID commentID c =
     (if keyID < length (keys c) then
        let k = keys c ! keyID
        in case erase_at (key_comments k) commentID of
             Some cs \<Rightarrow> (True, c\<lparr>keys := (keys c)[keyID := k\<lparr>key_comments := cs\<rparr>]\<rparr>)
           | None \<Rightarrow> (False, c)
      else (False, c))"

definition DeleteKeyComment :: "string \<Rightarrow> nat \<Rightarrow> CIniFile \<Rightarrow> bool \<times> CIniFile" where
  "DeleteKeyComment keyname commentID c =
     (case FindKey keyname c of None \<Rightarrow> (False, c) | Some keyID \<Rightarrow> DeleteKeyComment_id keyID commentID c)"

definition DeleteKeyComments_id :: "nat \<Rightarrow> CIniFile \<Rightarrow> bool \<times> CIniFile" where
  "DeleteKeyComments_id keyID c =
     (if keyID < length (keys c) then (True, c\<lparr>keys := (keys c)[keyID := (keys c ! keyID)\<lparr>key_comments := []\<rparr>]\<rparr>)
      else (False, c))"

definition DeleteKeyComments :: "string \<Rightarrow> CIniFile \<Rightarrow> bool \<times> CIniFile" where
  "DeleteKeyComments keyname c =
     (case FindKey keyname c of None \<Rightarrow> (False, c) | Some keyID \<Rightarrow> DeleteKeyComments_id keyID c)"

subsection \<open>Files\<close>

text \<open>The lines \<open>getline\<close> returns.\<close>

function getlines :: "string \<Rightarrow> string list" where
  "getlines [] = []"
| "getlines (c # s) =
     takeWhile (\<lambda>x. x \<noteq> LF) (c # s) # getlines (tl (dropWhile (\<lambda>x. x \<noteq> LF) (c # s)))"
  by pat_completeness auto
termination
proof (relation "measure length", goal_cases)
  case (2 c s)
  have "length (dropWhile (\<lambda>x. x \<noteq> LF) s) \<le> length s" by (rule length_dropWhile_le)
  then show ?case by (auto split: if_splits)
qed simp

text \<open>
  One line: the name of the current key is carried along. A line is a comment, the name of a
  key, or a value, by the first of the characters \<open>;#[=\<close> in it.
\<close>

definition ReadFile_entry :: "nat \<Rightarrow> string \<Rightarrow> string \<Rightarrow> CIniFile \<Rightarrow> (string \<times> CIniFile) ub" where
  "ReadFile_entry pLeft line keyname c =
     (if line ! pLeft = CHR ''['' then
        case find_index (\<lambda>x. x = CHR '']'') (rev line) of
          None \<Rightarrow> Some (keyname, c)
        | Some r \<Rightarrow>
            let pRight = length line - Suc r
            in if pLeft < pRight
               then let keyname = take (pRight - pLeft - 1) (drop (pLeft + 1) line)
                    in Some (keyname, snd (AddKeyName keyname c))
               else Some (keyname, c)
      else if line ! pLeft = CHR ''='' then
        map_option (\<lambda>r. (keyname, snd r)) (SetValue keyname (take pLeft line) (drop (pLeft + 1) line) True c)
      else if names c = [] then Some (keyname, HeaderComment_add (drop (pLeft + 1) line) c)
      else Some (keyname, snd (KeyComment_add keyname (drop (pLeft + 1) line) c)))"

definition strip_cr :: "string \<Rightarrow> string" where
  "strip_cr line = (if last line = CR then butlast line else line)"

text \<open>The flag is false when the line ends the reading with an error.\<close>

definition ReadFile_line :: "string \<Rightarrow> string \<Rightarrow> CIniFile \<Rightarrow> (bool \<times> string \<times> CIniFile) ub" where
  "ReadFile_line line keyname c =
     (if line = [] then Some (True, keyname, c)
      else
        let line = strip_cr line
        in if line = [] then Some (True, keyname, c)
           else if \<not> isprint (hd line) then Some (False, keyname, c)
           else
             (case find_index (\<lambda>x. x \<in> {CHR '';'', CHR ''#'', CHR ''['', CHR ''=''}) line of
                None \<Rightarrow> Some (True, keyname, c)
              | Some pLeft \<Rightarrow> map_option (Pair True) (ReadFile_entry pLeft line keyname c)))"

primrec ReadFile_loop :: "string list \<Rightarrow> string \<Rightarrow> CIniFile \<Rightarrow> (bool \<times> CIniFile) ub" where
  "ReadFile_loop [] keyname c = Some (names c \<noteq> [], c)"
| "ReadFile_loop (line # ls) keyname c = do {
     (ok, keyname, c) \<leftarrow> ReadFile_line line keyname c;
     if ok then ReadFile_loop ls keyname c else Some (False, c)
   }"

definition ReadFile :: "string option \<Rightarrow> CIniFile \<Rightarrow> (bool \<times> CIniFile) ub" where
  "ReadFile file c = (case file of None \<Rightarrow> Some (False, c) | Some s \<Rightarrow> ReadFile_loop (getlines s) [] c)"

text \<open>\<open>WriteFile\<close>: the bytes written, for a file that could be opened.\<close>

definition iniEOL :: string where "iniEOL = CRLF"

primrec write_values :: "string list \<Rightarrow> string list \<Rightarrow> string ub" where
  "write_values [] vs = Some []"
| "write_values (n # ns) vs =
     (case vs of [] \<Rightarrow> None | v # vs \<Rightarrow> map_option (\<lambda>r. n @ ''='' @ v @ iniEOL @ r) (write_values ns vs))"

definition write_comments :: "string list \<Rightarrow> string" where
  "write_comments cs = concat (map (\<lambda>s. '';'' @ s @ iniEOL) cs)"

primrec write_keys :: "ini_key list \<Rightarrow> string list \<Rightarrow> string ub" where
  "write_keys [] ns = Some []"
| "write_keys (k # ks) ns =
     (case ns of
        [] \<Rightarrow> None
      | n # ns \<Rightarrow> do {
          vs \<leftarrow> write_values (key_names k) (key_values k);
          r \<leftarrow> write_keys ks ns;
          Some (''['' @ n @ '']'' @ iniEOL @ write_comments (key_comments k) @ vs @ iniEOL @ r)
        })"

definition WriteFile :: "CIniFile \<Rightarrow> string ub" where
  "WriteFile c = do {
     ks \<leftarrow> write_keys (keys c) (names c);
     Some (write_comments (comments c) @ (if comments c = [] then [] else iniEOL) @ ks)
   }"


section \<open>Lemmas\<close>

subsection \<open>The lists stay in step\<close>

definition ini_inv :: "CIniFile \<Rightarrow> bool" where
  "ini_inv c \<longleftrightarrow> length (keys c) = length (names c) \<and> (\<forall>k \<in> set (keys c). length (key_names k) = length (key_values k))"

lemma find_index_Some: "find_index P xs = Some i \<Longrightarrow> i < length xs \<and> P (xs ! i) \<and> (\<forall>j<i. \<not> P (xs ! j))"
proof (induction xs arbitrary: i)
  case (Cons x xs)
  show ?case
  proof (cases "P x")
    case False
    with Cons.prems obtain j where j: "find_index P xs = Some j" "i = Suc j" by auto
    with Cons.IH [OF j(1)] False show ?thesis by (auto simp: nth_Cons split: nat.splits)
  qed (use Cons.prems in simp)
qed simp

lemma find_index_None: "find_index P xs = None \<longleftrightarrow> (\<forall>x \<in> set xs. \<not> P x)"
  by (induction xs) auto

lemma find_index_append:
  "find_index P (xs @ ys) = (case find_index P xs of Some i \<Rightarrow> Some i | None \<Rightarrow> map_option (\<lambda>i. length xs + i) (find_index P ys))"
proof (induction xs)
  case Nil
  show ?case by (cases "find_index P ys") auto
next
  case (Cons x xs)
  then show ?case by (cases "find_index P xs"; cases "find_index P ys") auto
qed

lemma find_index_upd: "i < length xs \<Longrightarrow> P x = P (xs ! i) \<Longrightarrow> find_index P (xs[i := x]) = find_index P xs"
  by (induction xs arbitrary: i) (auto split: nat.splits)

lemma CheckCase_upd [simp]:
  "CheckCase (c\<lparr>keys := ks\<rparr>) = CheckCase c" "CheckCase (c\<lparr>names := ns\<rparr>) = CheckCase c"
  "CheckCase (c\<lparr>comments := cs\<rparr>) = CheckCase c"
  by (simp_all add: fun_eq_iff CheckCase_def)

lemma FindKey_less: "ini_inv c \<Longrightarrow> FindKey n c = Some i \<Longrightarrow> i < length (keys c)"
  using find_index_Some by (fastforce simp: FindKey_def ini_inv_def)

lemma FindValue_less:
  assumes "ini_inv c" "FindValue i n c = Some j"
  shows "i < length (keys c)" "j < length (key_names (keys c ! i))" "j < length (key_values (keys c ! i))"
proof -
  show i: "i < length (keys c)" using assms(2) by (auto simp: FindValue_def split: if_splits)
  then show "j < length (key_names (keys c ! i))"
    using assms(2) find_index_Some by (fastforce simp: FindValue_def split: if_splits)
  then show "j < length (key_values (keys c ! i))" using assms(1) i by (simp add: ini_inv_def)
qed

lemma ini_inv_new: "ini_inv (CIniFile_new p)"
  by (simp add: ini_inv_def CIniFile_new_def)

lemma ini_inv_AddKeyName: "ini_inv c \<Longrightarrow> ini_inv (snd (AddKeyName n c))"
  by (auto simp: ini_inv_def AddKeyName_def)

lemma ini_inv_put:
  assumes "ini_inv c" "i < length (keys c)" "length (key_names k) = length (key_values k)"
  shows "ini_inv (c\<lparr>keys := (keys c)[i := k]\<rparr>)"
  using assms set_update_subset_insert [of "keys c" i k] by (auto simp: ini_inv_def)

lemma ini_inv_nth: "ini_inv c \<Longrightarrow> i < length (keys c) \<Longrightarrow> length (key_names (keys c ! i)) = length (key_values (keys c ! i))"
  by (simp add: ini_inv_def)

lemma at_Some: "i < length xs \<Longrightarrow> at xs i = Some (xs ! i)"
  by (simp add: at_def)

lemma put_at_Some: "i < length xs \<Longrightarrow> put_at xs i x = Some (xs[i := x])"
  by (simp add: put_at_def)

lemma erase_at_Some: "i < length xs \<Longrightarrow> erase_at xs i = Some (take i xs @ drop (Suc i) xs)"
  by (simp add: erase_at_def)

lemmas vec_simps = at_Some put_at_Some erase_at_Some

text \<open>\<open>SetValue\<close> on every branch.\<close>

definition with_value :: "nat \<Rightarrow> string \<Rightarrow> string \<Rightarrow> CIniFile \<Rightarrow> CIniFile" where
  "with_value i n v c =
     (let k = keys c ! i
      in c\<lparr>keys := (keys c)[i :=
        (case FindValue i n c of
           None \<Rightarrow> k\<lparr>key_names := key_names k @ [n], key_values := key_values k @ [v]\<rparr>
         | Some j \<Rightarrow> k\<lparr>key_values := (key_values k)[j := v]\<rparr>)]\<rparr>)"

lemma SetValue_eq:
  assumes "ini_inv c"
  shows "SetValue kn n v create c =
    (case FindKey kn c of
       Some i \<Rightarrow> if FindValue i n c = None \<and> \<not> create then Some (False, c) else Some (True, with_value i n v c)
     | None \<Rightarrow> if create then Some (True, with_value (length (names c)) n v (snd (AddKeyName kn c))) else Some (False, c))"
proof (cases "FindKey kn c")
  case (Some i)
  note i = FindKey_less [OF assms Some]
  show ?thesis
  proof (cases "FindValue i n c")
    case None
    then show ?thesis using Some i by (simp add: SetValue_def with_value_def vec_simps Let_def)
  next
    case (Some j)
    note j = FindValue_less [OF assms Some]
    show ?thesis using \<open>FindKey kn c = Some i\<close> Some i j by (simp add: SetValue_def with_value_def vec_simps Let_def)
  qed
next
  case None
  let ?c = "snd (AddKeyName kn c)"
  have i: "length (names c) < length (keys ?c)" "keys ?c ! length (names c) = \<lparr>key_names = [], key_values = [], key_comments = []\<rparr>"
    using assms by (simp_all add: AddKeyName_def ini_inv_def nth_append)
  then have f: "FindValue (length (names c)) n ?c = None" by (simp add: FindValue_def)
  then show ?thesis using None i
    by (simp add: SetValue_def with_value_def vec_simps Let_def split_beta)
      (simp add: AddKeyName_def at_def put_at_def)
qed

lemma with_value_inv:
  assumes "ini_inv c" "i < length (keys c)"
  shows "ini_inv (with_value i n v c)"
  unfolding with_value_def Let_def
  by (rule ini_inv_put [OF assms]) (use ini_inv_nth [OF assms] in \<open>simp split: option.split\<close>)

lemma SetValue_inv:
  assumes "ini_inv c"
  shows "\<exists>r c'. SetValue kn n v create c = Some (r, c') \<and> ini_inv c'"
proof (cases "FindKey kn c")
  case (Some i)
  then show ?thesis using with_value_inv [OF assms FindKey_less [OF assms Some]] assms
    by (cases "FindValue i n c"; cases create) (auto simp: SetValue_eq [OF assms])
next
  case None
  have "length (names c) < length (keys (snd (AddKeyName kn c)))" using assms by (simp add: AddKeyName_def ini_inv_def)
  from with_value_inv [OF ini_inv_AddKeyName [OF assms] this] None assms show ?thesis
    by (cases create) (auto simp: SetValue_eq [OF assms])
qed


lemma GetValue_eq:
  assumes "ini_inv c"
  shows "GetValue kn n d c = Some (case FindKey kn c of
     None \<Rightarrow> d
   | Some i \<Rightarrow> (case FindValue i n c of None \<Rightarrow> d | Some j \<Rightarrow> key_values (keys c ! i) ! j))"
proof (cases "FindKey kn c")
  case (Some i)
  then show ?thesis using FindKey_less [OF assms Some] FindValue_less [OF assms, of i n]
    by (auto simp: GetValue_def vec_simps split: option.splits)
qed (simp add: GetValue_def)

subsection \<open>The operations that write\<close>

datatype ini_op = OCase bool | OPath string | OAdd string | OSetId nat nat string | OSet string string string bool
  | OSetI string string int bool | OSetB string string bool bool | OSetV string string string
  | ODelValue string string | ODelKey string | OErase
  | OHeader string | ODelHeader nat | ODelHeaders | OComment string string | OCommentId nat string
  | ODelComment string nat | ODelCommentId nat nat | ODelComments string | ODelCommentsId nat | ORead "string option"

primrec ini_exec :: "ini_op \<Rightarrow> CIniFile \<Rightarrow> CIniFile ub" where
  "ini_exec (OCase b) c = Some (if b then CaseInsensitive c else CaseSensitive c)"
| "ini_exec (OPath p) c = Some (SetPath p c)"
| "ini_exec (OAdd n) c = Some (snd (AddKeyName n c))"
| "ini_exec (OSetId i j v) c = map_option snd (SetValue_id i j v c)"
| "ini_exec (OSet kn n v b) c = map_option snd (SetValue kn n v b c)"
| "ini_exec (OSetI kn n v b) c = map_option snd (SetValueI kn n v b c)"
| "ini_exec (OSetB kn n v b) c = map_option snd (SetValueB kn n v b c)"
| "ini_exec (OSetV kn n v) c = map_option snd (SetValueV kn n v c)"
| "ini_exec (ODelValue kn n) c = map_option snd (DeleteValue kn n c)"
| "ini_exec (ODelKey kn) c = map_option snd (DeleteKey kn c)"
| "ini_exec OErase c = Some (Erase c)"
| "ini_exec (OHeader s) c = Some (HeaderComment_add s c)"
| "ini_exec (ODelHeader i) c = Some (snd (DeleteHeaderComment i c))"
| "ini_exec ODelHeaders c = Some (DeleteHeaderComments c)"
| "ini_exec (OComment kn s) c = Some (snd (KeyComment_add kn s c))"
| "ini_exec (OCommentId i s) c = Some (snd (KeyComment_add_id i s c))"
| "ini_exec (ODelComment kn i) c = Some (snd (DeleteKeyComment kn i c))"
| "ini_exec (ODelCommentId i j) c = Some (snd (DeleteKeyComment_id i j c))"
| "ini_exec (ODelComments kn) c = Some (snd (DeleteKeyComments kn c))"
| "ini_exec (ODelCommentsId i) c = Some (snd (DeleteKeyComments_id i c))"
| "ini_exec (ORead f) c = map_option snd (ReadFile f c)"

primrec ini_run :: "ini_op list \<Rightarrow> CIniFile \<Rightarrow> CIniFile ub" where
  "ini_run [] c = Some c"
| "ini_run (op # ops) c = Option.bind (ini_exec op c) (ini_run ops)"

lemma ini_inv_upd:
  "ini_inv c \<Longrightarrow> ini_inv (c\<lparr>comments := cs\<rparr>)" "ini_inv c \<Longrightarrow> ini_inv (c\<lparr>path := p\<rparr>)"
  "ini_inv c \<Longrightarrow> ini_inv (c\<lparr>caseInsensitive := b\<rparr>)"
  by (simp_all add: ini_inv_def)

lemma KeyComment_inv:
  assumes "ini_inv c"
  shows "ini_inv (snd (KeyComment_add_id i s c))" "ini_inv (snd (KeyComment_add kn s c))"
    "ini_inv (snd (DeleteKeyComment_id i j c))" "ini_inv (snd (DeleteKeyComment kn j c))"
    "ini_inv (snd (DeleteKeyComments_id i c))" "ini_inv (snd (DeleteKeyComments kn c))"
proof -
  have *: "ini_inv (snd (KeyComment_add_id i s c))" "ini_inv (snd (DeleteKeyComment_id i j c))"
    "ini_inv (snd (DeleteKeyComments_id i c))" for i
    using assms ini_inv_nth [OF assms]
    by (auto simp: KeyComment_add_id_def DeleteKeyComment_id_def DeleteKeyComments_id_def Let_def
        intro!: ini_inv_put split: option.splits)
  then show "ini_inv (snd (KeyComment_add_id i s c))" "ini_inv (snd (KeyComment_add kn s c))"
    "ini_inv (snd (DeleteKeyComment_id i j c))" "ini_inv (snd (DeleteKeyComment kn j c))"
    "ini_inv (snd (DeleteKeyComments_id i c))" "ini_inv (snd (DeleteKeyComments kn c))"
    using assms by (auto simp: KeyComment_add_def DeleteKeyComment_def DeleteKeyComments_def split: option.splits)
qed

lemma Delete_inv:
  assumes "ini_inv c"
  shows "\<exists>r c'. DeleteValue kn n c = Some (r, c') \<and> ini_inv c'" "\<exists>r c'. DeleteKey kn c = Some (r, c') \<and> ini_inv c'"
proof -
  show "\<exists>r c'. DeleteValue kn n c = Some (r, c') \<and> ini_inv c'"
  proof (cases "FindKey kn c")
    case (Some i)
    note i = FindKey_less [OF assms Some]
    show ?thesis
    proof (cases "FindValue i n c")
      case (Some j)
      note j = FindValue_less [OF assms Some]
      have "ini_inv (c\<lparr>keys := (keys c)[i := (keys c ! i)\<lparr>key_names := take j (key_names (keys c ! i)) @ drop (Suc j) (key_names (keys c ! i)),
          key_values := take j (key_values (keys c ! i)) @ drop (Suc j) (key_values (keys c ! i))\<rparr>]\<rparr>)"
        by (rule ini_inv_put [OF assms i]) (use ini_inv_nth [OF assms i] in simp)
      then show ?thesis using \<open>FindKey kn c = Some i\<close> Some i j by (auto simp: DeleteValue_def vec_simps)
    qed (use assms Some in \<open>auto simp: DeleteValue_def\<close>)
  qed (use assms in \<open>auto simp: DeleteValue_def\<close>)
  show "\<exists>r c'. DeleteKey kn c = Some (r, c') \<and> ini_inv c'"
  proof (cases "FindKey kn c")
    case (Some i)
    note i = FindKey_less [OF assms Some]
    then have i': "i < length (names c)" using assms by (simp add: ini_inv_def)
    have "ini_inv (c\<lparr>names := take i (names c) @ drop (Suc i) (names c), keys := take i (keys c) @ drop (Suc i) (keys c)\<rparr>)"
      using assms by (auto simp: ini_inv_def dest: in_set_takeD in_set_dropD)
    then show ?thesis using Some i i' by (auto simp: DeleteKey_def vec_simps)
  qed (use assms in \<open>auto simp: DeleteKey_def\<close>)
qed

lemma ReadFile_entry_inv:
  assumes "ini_inv c"
  shows "\<exists>kn' c'. ReadFile_entry p line kn c = Some (kn', c') \<and> ini_inv c'"
proof -
  obtain r c' where "SetValue kn (take p line) (drop (p + 1) line) True c = Some (r, c')" "ini_inv c'"
    using SetValue_inv [OF assms] by blast
  then show ?thesis
    using assms ini_inv_AddKeyName [OF assms] ini_inv_upd(1) [OF assms] KeyComment_inv(2) [OF assms]
    by (simp add: ReadFile_entry_def Let_def HeaderComment_add_def split: option.split)
qed

lemma ReadFile_line_inv:
  assumes "ini_inv c"
  shows "\<exists>ok kn' c'. ReadFile_line line kn c = Some (ok, kn', c') \<and> ini_inv c'"
proof (cases "find_index (\<lambda>x. x \<in> {CHR '';'', CHR ''#'', CHR ''['', CHR ''=''}) (strip_cr line)")
  case None
  then show ?thesis using assms
    by (cases "line = []"; cases "strip_cr line = []"; cases "isprint (hd (strip_cr line))") (auto simp: ReadFile_line_def)
next
  case (Some p)
  obtain kn' c' where "ReadFile_entry p (strip_cr line) kn c = Some (kn', c')" "ini_inv c'"
    using ReadFile_entry_inv [OF assms] by blast
  with Some assms show ?thesis
    by (cases "line = []"; cases "strip_cr line = []"; cases "isprint (hd (strip_cr line))") (auto simp: ReadFile_line_def)
qed

lemma ReadFile_loop_inv: "ini_inv c \<Longrightarrow> \<exists>r c'. ReadFile_loop ls kn c = Some (r, c') \<and> ini_inv c'"
proof (induction ls arbitrary: kn c)
  case (Cons l ls)
  obtain ok kn' c' where l: "ReadFile_line l kn c = Some (ok, kn', c')" "ini_inv c'"
    using ReadFile_line_inv [OF Cons.prems] by blast
  then show ?case using Cons.IH [OF l(2)] by (cases ok) auto
qed simp

definition ini_op_ok :: "ini_op \<Rightarrow> bool" where
  "ini_op_ok op \<longleftrightarrow> (case op of OSetV kn n s \<Rightarrow> length s < 2048 | _ \<Rightarrow> True)"

lemma ini_exec_inv:
  assumes "ini_inv c" "ini_op_ok op"
  shows "\<exists>c'. ini_exec op c = Some c' \<and> ini_inv c'"
proof (cases op)
  case (OSetId i j v)
  have "ini_inv (c\<lparr>keys := (keys c)[i := (keys c ! i)\<lparr>key_values := (key_values (keys c ! i))[j := v]\<rparr>]\<rparr>)" if "i < length (keys c)"
    by (rule ini_inv_put [OF assms(1) that]) (use ini_inv_nth [OF assms(1) that] in simp)
  then show ?thesis using OSetId assms(1) ini_inv_nth [OF assms(1), of i]
    by (cases "i < length (keys c) \<and> j < length (key_names (keys c ! i))") (auto simp: SetValue_id_def vec_simps Let_def)
next
  case (OSet kn n v b)
  then show ?thesis using SetValue_inv [OF assms(1), of kn n v b] by auto
next
  case (OSetI kn n v b)
  then show ?thesis using SetValue_inv [OF assms(1), of kn n "dec_int v" True] by (auto simp: SetValueI_def)
next
  case (OSetB kn n v b)
  then show ?thesis using SetValue_inv [OF assms(1), of kn n "dec_int (if v then 1 else 0)" True]
    by (auto simp: SetValueB_def SetValueI_def)
next
  case (OSetV kn n v)
  then show ?thesis using SetValue_inv [OF assms(1), of kn n "c_str v" True] assms(2)
    by (auto simp: SetValueV_def ini_op_ok_def MAX_VALUEDATA_def)
next
  case (ODelHeader i)
  then show ?thesis using assms(1) by (auto simp: DeleteHeaderComment_def ini_inv_upd split: option.split)
next
  case (ORead f)
  then show ?thesis using ReadFile_loop_inv [OF assms(1), of "getlines (the f)" "[]"] assms(1) by (cases f) (auto simp: ReadFile_def)
next
  case (ODelValue kn n)
  then show ?thesis using Delete_inv(1) [OF assms(1), of kn n] by auto
next
  case (ODelKey kn)
  then show ?thesis using Delete_inv(2) [OF assms(1), of kn] by auto
next
  case OErase
  then show ?thesis by (simp add: Erase_def ini_inv_def)
qed (use assms(1) in \<open>simp_all add: ini_inv_upd ini_inv_AddKeyName KeyComment_inv CaseInsensitive_def CaseSensitive_def
  SetPath_def HeaderComment_add_def DeleteHeaderComments_def\<close>)

lemma ini_run_inv: "ini_inv c \<Longrightarrow> \<forall>op \<in> set ops. ini_op_ok op \<Longrightarrow> \<exists>c'. ini_run ops c = Some c' \<and> ini_inv c'"
proof (induction ops arbitrary: c)
  case (Cons op ops)
  then show ?case using ini_exec_inv [OF Cons.prems(1), of op] by fastforce
qed simp

subsection \<open>A map from names to values\<close>

definition ini_lookup :: "CIniFile \<Rightarrow> string \<Rightarrow> string \<Rightarrow> string option" where
  "ini_lookup c kn n = (case FindKey kn c of None \<Rightarrow> None
     | Some i \<Rightarrow> map_option ((!) (key_values (keys c ! i))) (FindValue i n c))"

lemma GetValue_lookup:
  "ini_inv c \<Longrightarrow> GetValue kn n d c = Some (case ini_lookup c kn n of None \<Rightarrow> d | Some v \<Rightarrow> v)"
  by (simp add: GetValue_eq ini_lookup_def split: option.split)

lemma FindKey_cong: "CheckCase c a = CheckCase c b \<Longrightarrow> FindKey a c = FindKey b c"
  by (simp add: FindKey_def)

lemma FindKey_same: "FindKey a c = Some i \<Longrightarrow> FindKey b c = Some i \<Longrightarrow> CheckCase c a = CheckCase c b"
  unfolding FindKey_def by (drule find_index_Some, drule find_index_Some) simp

lemma FindValue_same: "FindValue k a c = Some i \<Longrightarrow> FindValue k b c = Some i \<Longrightarrow> CheckCase c a = CheckCase c b"
  unfolding FindValue_def by (cases "k < length (keys c)") (auto dest!: find_index_Some)

lemma FindValue_cong: "CheckCase c a = CheckCase c b \<Longrightarrow> FindValue k a c = FindValue k b c"
  by (simp add: FindValue_def)

lemma with_value_lookup:
  assumes "ini_inv c" "FindKey kn c = Some i"
  shows "ini_lookup (with_value i n v c) kn' n' =
    (if CheckCase c kn' = CheckCase c kn \<and> CheckCase c n' = CheckCase c n then Some v else ini_lookup c kn' n')"
proof -
  let ?c = "with_value i n v c"
  have i: "i < length (keys c)" by (rule FindKey_less [OF assms])
  have cc: "CheckCase ?c = CheckCase c" by (simp add: with_value_def Let_def)
  have fk: "FindKey a ?c = FindKey a c" for a
    unfolding FindKey_def cc by (simp add: with_value_def Let_def)
  have other: "ini_lookup ?c kn' n' = ini_lookup c kn' n'" if "FindKey kn' c \<noteq> Some i"
  proof (cases "FindKey kn' c")
    case (Some l)
    then have "keys ?c ! l = keys c ! l" "length (keys ?c) = length (keys c)"
      using that by (simp_all add: with_value_def Let_def)
    then show ?thesis using Some unfolding ini_lookup_def fk FindValue_def cc by simp
  qed (simp add: ini_lookup_def fk)
  have own: "ini_lookup ?c kn' n' = (if CheckCase c n' = CheckCase c n then Some v else ini_lookup c kn' n')"
    if k: "FindKey kn' c = Some i"
  proof (cases "FindValue i n c")
    case (Some j)
    note j = FindValue_less [OF assms(1) Some]
    have fv: "FindValue i a ?c = FindValue i a c" for a
      unfolding FindValue_def cc using Some i by (simp add: with_value_def Let_def)
    have val: "key_values (keys ?c ! i) = (key_values (keys c ! i))[j := v]"
      using Some i by (simp add: with_value_def Let_def)
    show ?thesis
    proof (cases "CheckCase c n' = CheckCase c n")
      case True
      then have "FindValue i n' c = Some j" using Some FindValue_cong [of c n' n i] by simp
      then show ?thesis using True k j by (simp add: ini_lookup_def fk fv val)
    next
      case False
      then have "FindValue i n' c \<noteq> Some j" using FindValue_same [of i n' c j n] Some by auto
      then show ?thesis using False k
        by (cases "FindValue i n' c") (auto simp: ini_lookup_def fk fv val)
    qed
  next
    case None
    have key: "keys ?c ! i = (keys c ! i)\<lparr>key_names := key_names (keys c ! i) @ [n], key_values := key_values (keys c ! i) @ [v]\<rparr>"
      "length (keys ?c) = length (keys c)"
      using None i by (simp_all add: with_value_def Let_def)
    have len: "length (key_names (keys c ! i)) = length (key_values (keys c ! i))" by (rule ini_inv_nth [OF assms(1) i])
    have fv: "FindValue i a ?c = (case FindValue i a c of Some j \<Rightarrow> Some j
        | None \<Rightarrow> if CheckCase c n = CheckCase c a then Some (length (key_names (keys c ! i))) else None)" for a
      unfolding FindValue_def cc key using i by (simp add: find_index_append split: option.split)
    have "FindValue i n' c = None" if "CheckCase c n' = CheckCase c n" using None FindValue_cong [OF that, of i] by simp
    then show ?thesis using k len FindValue_less(3) [OF assms(1), of i n']
      by (auto simp: ini_lookup_def fk fv key nth_append split: option.splits)
  qed
  show ?thesis
  proof (cases "FindKey kn' c = Some i")
    case True
    then show ?thesis using own FindKey_same [OF True assms(2)] by simp
  next
    case False
    then show ?thesis using other FindKey_cong [of c kn' kn] assms(2) by auto
  qed
qed

lemma AddKeyName_lookup:
  assumes "ini_inv c" "FindKey kn c = None"
  shows "ini_lookup (snd (AddKeyName kn c)) kn' n' = ini_lookup c kn' n'"
    and "FindKey kn (snd (AddKeyName kn c)) = Some (length (names c))"
proof -
  let ?c = "snd (AddKeyName kn c)"
  have cc: "CheckCase ?c = CheckCase c" by (simp add: AddKeyName_def)
  have len: "length (keys c) = length (names c)" using assms(1) by (simp add: ini_inv_def)
  have fk: "FindKey a ?c = (case FindKey a c of Some i \<Rightarrow> Some i
      | None \<Rightarrow> if CheckCase c kn = CheckCase c a then Some (length (names c)) else None)" for a
    unfolding FindKey_def cc by (simp add: AddKeyName_def find_index_append split: option.split)
  show "FindKey kn ?c = Some (length (names c))" using assms(2) by (simp add: fk)
  have fv: "FindValue i a ?c = FindValue i a c" if "i < length (keys c)" for i a
    unfolding FindValue_def cc using that by (simp add: AddKeyName_def nth_append)
  have new: "FindValue (length (names c)) a ?c = None" for a
    unfolding FindValue_def cc using len by (simp add: AddKeyName_def nth_append)
  show "ini_lookup ?c kn' n' = ini_lookup c kn' n'"
  proof (cases "FindKey kn' c")
    case (Some i)
    note i = FindKey_less [OF assms(1) Some]
    have "keys ?c ! i = keys c ! i" using i by (simp add: AddKeyName_def nth_append)
    then show ?thesis using Some fv [OF i] by (simp add: ini_lookup_def fk)
  next
    case None
    then show ?thesis using new by (simp add: ini_lookup_def fk)
  qed
qed

lemma SetValue_lookup:
  assumes "ini_inv c"
  shows "\<exists>c'. SetValue kn n v True c = Some (True, c') \<and> ini_inv c' \<and>
    (\<forall>kn' n'. ini_lookup c' kn' n' =
      (if CheckCase c kn' = CheckCase c kn \<and> CheckCase c n' = CheckCase c n then Some v else ini_lookup c kn' n'))"
proof (cases "FindKey kn c")
  case (Some i)
  then show ?thesis using with_value_lookup [OF assms Some] with_value_inv [OF assms FindKey_less [OF assms Some]]
    by (simp add: SetValue_eq [OF assms])
next
  case None
  let ?c = "snd (AddKeyName kn c)"
  note a = AddKeyName_lookup [OF assms None] and inv = ini_inv_AddKeyName [OF assms, of kn]
  have cc: "CheckCase ?c = CheckCase c" by (simp add: AddKeyName_def)
  show ?thesis
    using None with_value_lookup [OF inv a(2), of n v] a(1) with_value_inv [OF inv FindKey_less [OF inv a(2)], of n v]
    unfolding cc by (simp add: SetValue_eq [OF assms])
qed

lemma SetValue_no_create:
  assumes "ini_inv c"
  shows "SetValue kn n v False c = (if ini_lookup c kn n = None then Some (False, c) else SetValue kn n v True c)"
  by (simp add: SetValue_eq [OF assms] ini_lookup_def split: option.split)

subsection \<open>Writing and reading back\<close>

definition line_ok :: "string \<Rightarrow> bool" where "line_ok s \<longleftrightarrow> LF \<notin> set s"

definition value_name_ok :: "string \<Rightarrow> bool" where
  "value_name_ok n \<longleftrightarrow> line_ok n \<and> (\<forall>x \<in> set n. x \<notin> {CHR '';'', CHR ''#'', CHR ''['', CHR ''=''}) \<and> (n \<noteq> [] \<longrightarrow> isprint (hd n))"

definition ini_writable :: "CIniFile \<Rightarrow> bool" where
  "ini_writable c \<longleftrightarrow> ini_inv c \<and> names c \<noteq> [] \<and> (\<forall>s \<in> set (comments c). line_ok s) \<and>
     (\<forall>s \<in> set (names c). line_ok s) \<and> distinct (map (map tolower) (names c)) \<and>
     (\<forall>k \<in> set (keys c). (\<forall>s \<in> set (key_comments k). line_ok s) \<and> (\<forall>s \<in> set (key_values k). line_ok s) \<and>
        (\<forall>s \<in> set (key_names k). value_name_ok s) \<and> distinct (map (map tolower) (key_names k)))"

lemma getlines_line: "line_ok l \<Longrightarrow> getlines (l @ CRLF @ r) = (l @ [CR]) # getlines r"
proof -
  assume a: "line_ok l"
  have g: "s \<noteq> [] \<Longrightarrow> getlines s = takeWhile (\<lambda>x. x \<noteq> LF) s # getlines (tl (dropWhile (\<lambda>x. x \<noteq> LF) s))" for s
    by (cases s) simp_all
  have "takeWhile (\<lambda>x. x \<noteq> LF) (l @ CRLF @ r) = l @ [CR]" "dropWhile (\<lambda>x. x \<noteq> LF) (l @ CRLF @ r) = LF # r"
    using a by (induction l) (auto simp: line_ok_def)
  then show ?thesis by (subst g) simp_all
qed

lemma strip_cr_snoc [simp]: "strip_cr (l @ [CR]) = l"
  by (simp add: strip_cr_def)

lemma punct_print: "isprint CHR '';''" "isprint CHR ''[''" "isprint CHR ''=''"
  by (simp_all add: isprint_def byte_val_def)

lemma line_blank: "ReadFile_line [CR] kn c = Some (True, kn, c)"
  using strip_cr_snoc [of "[]"] by (simp add: ReadFile_line_def)

lemma line_comment:
  "ReadFile_line (('';'' @ s) @ [CR]) kn c =
     Some (True, kn, if names c = [] then HeaderComment_add s c else snd (KeyComment_add kn s c))"
  unfolding ReadFile_line_def Let_def strip_cr_snoc by (simp add: punct_print ReadFile_entry_def)

lemma line_key:
  "ReadFile_line ((''['' @ n @ '']'') @ [CR]) kn c = Some (True, n, snd (AddKeyName n c))"
  unfolding ReadFile_line_def Let_def strip_cr_snoc by (simp add: punct_print ReadFile_entry_def)

lemma line_value:
  assumes "value_name_ok n"
  shows "ReadFile_line ((n @ ''='' @ v) @ [CR]) kn c = map_option (\<lambda>r. (True, kn, snd r)) (SetValue kn n v True c)"
proof -
  let ?P = "\<lambda>x. x \<in> {CHR '';'', CHR ''#'', CHR ''['', CHR ''=''}"
  have "find_index ?P n = None" using assms by (auto simp: value_name_ok_def find_index_None)
  then have f: "find_index ?P (n @ ''='' @ v) = Some (length n)"
    by (simp add: find_index_append)
  have p: "isprint (hd (n @ ''='' @ v))" using assms punct_print by (cases n) (auto simp: value_name_ok_def)
  have e: "ReadFile_entry (length n) (n @ ''='' @ v) kn c = map_option (\<lambda>r. (kn, snd r)) (SetValue kn n v True c)"
    by (simp add: ReadFile_entry_def nth_append)
  show ?thesis unfolding ReadFile_line_def Let_def strip_cr_snoc f
    using p e by (simp add: option.map_comp comp_def)
qed

text \<open>The state of the reader inside a key: the finished keys and the current one.\<close>

lemma current_key:
  assumes "names c = dn @ [kn]" "CheckCase c kn \<notin> CheckCase c ` set dn"
  shows "FindKey kn c = Some (length dn)"
proof -
  have "find_index (\<lambda>n. CheckCase c n = CheckCase c kn) dn = None"
    unfolding find_index_None using assms(2) by (metis imageI)
  then show ?thesis unfolding FindKey_def assms(1) by (simp add: find_index_append)
qed

lemma keys_same: "keys c = ks \<Longrightarrow> c\<lparr>keys := ks\<rparr> = c"
  by (cases c) simp

lemma read_header:
  "names c = [] \<Longrightarrow> ReadFile_loop (map (\<lambda>s. ('';'' @ s) @ [CR]) cs @ ls) kn c = ReadFile_loop ls kn (c\<lparr>comments := comments c @ cs\<rparr>)"
proof (induction cs arbitrary: c)
  case (Cons s cs)
  then show ?case using line_comment [of s kn c] Cons.IH [of "HeaderComment_add s c"] by (simp add: HeaderComment_add_def)
qed simp

lemma read_comments:
  assumes "names c = dn @ [kn]" "CheckCase c kn \<notin> CheckCase c ` set dn" "keys c = dk @ [k]" "length dk = length dn"
  shows "ReadFile_loop (map (\<lambda>s. ('';'' @ s) @ [CR]) cs @ ls) kn c =
    ReadFile_loop ls kn (c\<lparr>keys := dk @ [k\<lparr>key_comments := key_comments k @ cs\<rparr>]\<rparr>)"
  using assms
proof (induction cs arbitrary: c k)
  case Nil
  then show ?case by (simp add: keys_same)
next
  case (Cons s cs)
  let ?c = "c\<lparr>keys := dk @ [k\<lparr>key_comments := key_comments k @ [s]\<rparr>]\<rparr>"
  have "KeyComment_add kn s c = (True, ?c)"
    using Cons.prems by (simp add: KeyComment_add_def current_key KeyComment_add_id_def nth_append list_update_append Let_def)
  then have "ReadFile_line (('';'' @ s) @ [CR]) kn c = Some (True, kn, ?c)"
    using line_comment [of s kn c] Cons.prems(1) by simp
  then show ?case using Cons.IH [of ?c "k\<lparr>key_comments := key_comments k @ [s]\<rparr>"] Cons.prems by simp
qed

lemma read_values:
  assumes "names c = dn @ [kn]" "CheckCase c kn \<notin> CheckCase c ` set dn" "keys c = dk @ [k]" "length dk = length dn"
    "ini_inv c" "length ns = length vs" "\<forall>n \<in> set ns. value_name_ok n"
    "distinct (map (CheckCase c) (key_names k @ ns))"
  shows "ReadFile_loop (map2 (\<lambda>n v. (n @ ''='' @ v) @ [CR]) ns vs @ ls) kn c =
    ReadFile_loop ls kn (c\<lparr>keys := dk @ [k\<lparr>key_names := key_names k @ ns, key_values := key_values k @ vs\<rparr>]\<rparr>)"
  using assms(6,1-5,7,8)
proof (induction ns vs arbitrary: c k rule: list_induct2)
  case Nil
  then show ?case by (simp add: keys_same)
next
  case (Cons n ns v vs)
  let ?k = "k\<lparr>key_names := key_names k @ [n], key_values := key_values k @ [v]\<rparr>"
  let ?c = "c\<lparr>keys := dk @ [?k]\<rparr>"
  have fk: "FindKey kn c = Some (length dn)" by (rule current_key [OF Cons.prems(1,2)])
  have notin: "CheckCase c n \<notin> CheckCase c ` set (key_names k)" using Cons.prems(7) by simp
  have "find_index (\<lambda>m. CheckCase c m = CheckCase c n) (key_names k) = None"
    unfolding find_index_None using notin by (metis imageI)
  then have fv: "FindValue (length dn) n c = None" using Cons.prems(3,4) by (simp add: FindValue_def nth_append)
  have "with_value (length dn) n v c = ?c"
    using fv Cons.prems(3,4) by (simp add: with_value_def Let_def nth_append list_update_append)
  then have "SetValue kn n v True c = Some (True, ?c)" using fk fv by (simp add: SetValue_eq [OF Cons.prems(5)])
  then have line: "ReadFile_line ((n @ ''='' @ v) @ [CR]) kn c = Some (True, kn, ?c)"
    using line_value [of n v kn c] Cons.prems(6) by simp
  have "ini_inv ?c" using Cons.prems(3,5) by (auto simp: ini_inv_def)
  then show ?case using line Cons.IH [of ?c ?k] Cons.prems by simp
qed

definition key_lines :: "string \<Rightarrow> ini_key \<Rightarrow> string list" where
  "key_lines n k = ((''['' @ n @ '']'') @ [CR]) # map (\<lambda>s. ('';'' @ s) @ [CR]) (key_comments k) @
     map2 (\<lambda>n v. (n @ ''='' @ v) @ [CR]) (key_names k) (key_values k) @ [[CR]]"

definition key_ok :: "ini_key \<Rightarrow> bool" where
  "key_ok k \<longleftrightarrow> length (key_names k) = length (key_values k) \<and>
     (\<forall>s \<in> set (key_comments k). line_ok s) \<and> (\<forall>s \<in> set (key_values k). line_ok s) \<and>
     (\<forall>s \<in> set (key_names k). value_name_ok s) \<and> distinct (map (map tolower) (key_names k))"

lemma read_key:
  assumes "caseInsensitive c" "ini_inv c" "key_ok k" "map tolower n \<notin> map tolower ` set (names c)"
  shows "ReadFile_loop (key_lines n k @ ls) kn c = ReadFile_loop ls n (c\<lparr>names := names c @ [n], keys := keys c @ [k]\<rparr>)"
proof -
  let ?e = "\<lparr>key_names = [], key_values = [], key_comments = []\<rparr>"
  let ?c = "c\<lparr>names := names c @ [n], keys := keys c @ [?e]\<rparr>"
  let ?k = "?e\<lparr>key_comments := key_comments k\<rparr>"
  let ?d = "c\<lparr>names := names c @ [n], keys := keys c @ [?k]\<rparr>"
  have len: "length (keys c) = length (names c)" using assms(2) by (simp add: ini_inv_def)
  have cc: "CheckCase ?c = map tolower" "CheckCase ?d = map tolower" using assms(1) by (simp_all add: CheckCase_def fun_eq_iff)
  have inv: "ini_inv ?d" using assms(2) by (auto simp: ini_inv_def)
  have "ReadFile_loop (key_lines n k @ ls) kn c =
      ReadFile_loop (map (\<lambda>s. ('';'' @ s) @ [CR]) (key_comments k) @
        map2 (\<lambda>n v. (n @ ''='' @ v) @ [CR]) (key_names k) (key_values k) @ [CR] # ls) n ?c"
    using line_key [of n kn c] by (simp add: key_lines_def AddKeyName_def)
  also have "\<dots> = ReadFile_loop (map2 (\<lambda>n v. (n @ ''='' @ v) @ [CR]) (key_names k) (key_values k) @ [CR] # ls) n ?d"
    using read_comments [of ?c "names c" n "keys c" ?e] assms(4) len cc by simp
  also have "\<dots> = ReadFile_loop ([CR] # ls) n (c\<lparr>names := names c @ [n], keys := keys c @ [k]\<rparr>)"
    using read_values [of ?d "names c" n "keys c" ?k "key_names k" "key_values k" "[CR] # ls"] assms(3,4) len cc inv
    by (cases k) (simp add: key_ok_def)
  finally show ?thesis by (simp add: line_blank)
qed

lemma read_keys:
  "length ns = length ks \<Longrightarrow> caseInsensitive c \<Longrightarrow> ini_inv c \<Longrightarrow> \<forall>k \<in> set ks. key_ok k \<Longrightarrow>
   distinct (map (map tolower) (names c @ ns)) \<Longrightarrow> names c @ ns \<noteq> [] \<Longrightarrow>
   ReadFile_loop (concat (map2 key_lines ns ks)) kn c = Some (True, c\<lparr>names := names c @ ns, keys := keys c @ ks\<rparr>)"
proof (induction ns ks arbitrary: kn c rule: list_induct2)
  case (Cons n ns k ks)
  let ?c = "c\<lparr>names := names c @ [n], keys := keys c @ [k]\<rparr>"
  have "ini_inv ?c" using Cons.prems(2,3) by (auto simp: ini_inv_def key_ok_def)
  moreover have "map tolower n \<notin> map tolower ` set (names c)" using Cons.prems(4) by auto
  ultimately show ?case using Cons.IH [of ?c n] read_key [of c k n "concat (map2 key_lines ns ks)" kn] Cons.prems
    by simp
qed simp

subsection \<open>The lines of a written file\<close>

lemma lines_comments:
  "\<forall>s \<in> set cs. line_ok s \<Longrightarrow> getlines (write_comments cs @ r) = map (\<lambda>s. ('';'' @ s) @ [CR]) cs @ getlines r"
proof (induction cs)
  case (Cons s cs)
  have "line_ok ('';'' @ s)" using Cons.prems by (simp add: line_ok_def)
  from getlines_line [OF this, of "write_comments cs @ r"] Cons show ?case by (simp add: write_comments_def iniEOL_def)
qed (simp add: write_comments_def)

lemma lines_values:
  "length ns = length vs \<Longrightarrow> \<forall>n \<in> set ns. line_ok n \<Longrightarrow> \<forall>v \<in> set vs. line_ok v \<Longrightarrow>
   \<exists>w. write_values ns vs = Some w \<and>
     (\<forall>r. getlines (w @ r) = map2 (\<lambda>n v. (n @ ''='' @ v) @ [CR]) ns vs @ getlines r)"
proof (induction ns vs rule: list_induct2)
  case (Cons n ns v vs)
  then obtain w where w: "write_values ns vs = Some w"
      "\<forall>r. getlines (w @ r) = map2 (\<lambda>n v. (n @ ''='' @ v) @ [CR]) ns vs @ getlines r" by auto
  have "line_ok (n @ ''='' @ v)" using Cons.prems by (simp add: line_ok_def)
  from getlines_line [OF this] w show ?case by (simp add: iniEOL_def)
qed simp

lemma lines_keys:
  "length ns = length ks \<Longrightarrow> \<forall>n \<in> set ns. line_ok n \<Longrightarrow> \<forall>k \<in> set ks. key_ok k \<Longrightarrow>
   \<exists>w. write_keys ks ns = Some w \<and> getlines w = concat (map2 key_lines ns ks)"
proof (induction ns ks rule: list_induct2)
  case (Cons n ns k ks)
  then obtain w where w: "write_keys ks ns = Some w" "getlines w = concat (map2 key_lines ns ks)" by auto
  have k: "key_ok k" and n: "line_ok (''['' @ n @ '']'')" using Cons.prems by (simp_all add: line_ok_def)
  have "\<forall>n \<in> set (key_names k). line_ok n" using k by (simp add: key_ok_def value_name_ok_def)
  then obtain u where u: "write_values (key_names k) (key_values k) = Some u"
    "getlines (u @ r) = map2 (\<lambda>n v. (n @ ''='' @ v) @ [CR]) (key_names k) (key_values k) @ getlines r" for r
    using lines_values [of "key_names k" "key_values k"] k by (auto simp: key_ok_def)
  have cs: "\<forall>s \<in> set (key_comments k). line_ok s" using k by (simp add: key_ok_def)
  have blank: "getlines (CRLF @ w) = [CR] # getlines w" using getlines_line [of "[]" w] by (simp add: line_ok_def)
  show ?case
    using w u(1) getlines_line [OF n, of "write_comments (key_comments k) @ u @ CRLF @ w"]
      lines_comments [OF cs, of "u @ CRLF @ w"] u(2) [of "CRLF @ w"] blank
    by (simp add: iniEOL_def key_lines_def)
qed simp

lemma ini_written:
  assumes "ini_writable c"
  shows "\<exists>s. WriteFile c = Some s \<and> ReadFile (Some s) (CIniFile_new p) = Some (True, c\<lparr>caseInsensitive := True, path := p\<rparr>)"
proof -
  have len: "length (names c) = length (keys c)" and ks: "\<forall>k \<in> set (keys c). key_ok k"
    and ns: "\<forall>n \<in> set (names c). line_ok n" and cs: "\<forall>s \<in> set (comments c). line_ok s"
    and d: "distinct (map (map tolower) (names c))" "names c \<noteq> []"
    using assms by (simp_all add: ini_writable_def ini_inv_def key_ok_def)
  obtain w where w: "write_keys (keys c) (names c) = Some w" "getlines w = concat (map2 key_lines (names c) (keys c))"
    using lines_keys [OF len ns ks] by blast
  let ?c = "(CIniFile_new p)\<lparr>comments := comments c\<rparr>"
  have "ini_inv ?c" by (simp add: ini_inv_def CIniFile_new_def)
  then have *: "ReadFile_loop (getlines w) kn ?c = Some (True, c\<lparr>caseInsensitive := True, path := p\<rparr>)" for kn
    using read_keys [of "names c" "keys c" ?c kn] len ks d w(2) by (simp add: CIniFile_new_def)
  have blank: "getlines (CRLF @ w) = [CR] # getlines w" using getlines_line [of "[]" w] by (simp add: line_ok_def)
  have h: "ReadFile_loop (map (\<lambda>s. ('';'' @ s) @ [CR]) (comments c) @ ls) [] (CIniFile_new p) = ReadFile_loop ls [] ?c" for ls
    using read_header [of "CIniFile_new p" "comments c" ls "[]"] by (simp add: CIniFile_new_def)
  show ?thesis
  proof (cases "comments c = []")
    case True
    then show ?thesis using w * [of "[]"] by (simp add: WriteFile_def ReadFile_def write_comments_def CIniFile_new_def)
  next
    case False
    have "getlines (write_comments (comments c) @ CRLF @ w) = map (\<lambda>s. ('';'' @ s) @ [CR]) (comments c) @ [CR] # getlines w"
      using lines_comments [OF cs, of "CRLF @ w"] blank by simp
    then show ?thesis using False w(1) * [of "[]"] h [of "[CR] # getlines w"]
      by (simp add: WriteFile_def ReadFile_def iniEOL_def line_blank)
  qed
qed

section \<open>Properties\<close>

text \<open>
  C34: no sequence of operations on a fresh \<open>CIniFile\<close> (setting, deleting, comments by name or by
  number, reading files of any content) indexes a vector out of range, provided the text formatted by
  \<open>SetValueV\<close> fits its buffer of 2048 bytes; the lists of keys and of names stay equally long, and
  so do the lists of value names and values of each key.
\<close>

theorem ini_never_undefined:
  assumes "\<forall>op \<in> set ops. ini_op_ok op"
  shows "\<exists>c. ini_run ops (CIniFile_new p) = Some c \<and> length (keys c) = length (names c) \<and>
    (\<forall>i < length (keys c). length (key_names (keys c ! i)) = length (key_values (keys c ! i)))"
  using ini_run_inv [OF ini_inv_new assms, of p] by (auto simp: ini_inv_def)

theorem ini_never_undefined_witness:
  "\<exists>c. ini_run [ORead (Some ''[a''), OSetV ''k'' ''n'' ''text'', ODelKey ''K'', OSetId 4 2 ''x''] (CIniFile_new []) = Some c \<and>
    length (keys c) = length (names c) \<and>
    (\<forall>i < length (keys c). length (key_names (keys c ! i)) = length (key_values (keys c ! i)))"
  by (rule ini_never_undefined) (simp add: ini_op_ok_def)

text \<open>
  C35: the file is a map from names to values, up to the case of letters when \<open>caseInsensitive\<close> is set.
  After \<open>SetValue\<close> with \<open>create\<close>, in any state reached from a fresh object, \<open>GetValue\<close> of the
  same names gives the value and \<open>GetValue\<close> of any other names gives what it gave before. Without
  \<open>create\<close> the call changes nothing and returns false when the value does not exist.
\<close>

theorem ini_set_get:
  assumes "\<forall>op \<in> set ops. ini_op_ok op" "ini_run ops (CIniFile_new p) = Some c"
  shows "\<exists>c'. SetValue kn n v True c = Some (True, c') \<and>
    (\<forall>kn' n' d. GetValue kn' n' d c' =
      (if CheckCase c kn' = CheckCase c kn \<and> CheckCase c n' = CheckCase c n then Some v else GetValue kn' n' d c)) \<and>
    (SetValue kn n v False c = Some (True, c') \<or>
     SetValue kn n v False c = Some (False, c) \<and> (\<forall>d. GetValue kn n d c = Some d))"
proof -
  have inv: "ini_inv c" using ini_run_inv [OF ini_inv_new assms(1), of p] assms(2) by auto
  obtain c' where c': "SetValue kn n v True c = Some (True, c')" "ini_inv c'"
    "\<And>kn' n'. ini_lookup c' kn' n' =
      (if CheckCase c kn' = CheckCase c kn \<and> CheckCase c n' = CheckCase c n then Some v else ini_lookup c kn' n')"
    using SetValue_lookup [OF inv] by blast
  then show ?thesis by (auto simp: GetValue_lookup [OF c'(2)] GetValue_lookup [OF inv] SetValue_no_create [OF inv])
qed

theorem ini_set_get_witness:
  "\<exists>c'. SetValue ''DB'' ''Path'' ''x'' True (snd (AddKeyName ''db'' (CIniFile_new []))) = Some (True, c') \<and>
    GetValue ''db'' ''path'' ''no'' c' = Some ''x'' \<and> GetValue ''db'' ''port'' ''no'' c' = Some ''no''"
proof -
  let ?c = "snd (AddKeyName ''db'' (CIniFile_new []))"
  have run: "ini_run [OAdd ''db''] (CIniFile_new []) = Some ?c" by simp
  have ok: "\<forall>op \<in> set [OAdd ''db'']. ini_op_ok op" by (simp add: ini_op_ok_def)
  obtain c' where c': "SetValue ''DB'' ''Path'' ''x'' True ?c = Some (True, c')"
    "\<forall>kn' n' d. GetValue kn' n' d c' =
      (if CheckCase ?c kn' = CheckCase ?c ''DB'' \<and> CheckCase ?c n' = CheckCase ?c ''Path'' then Some ''x'' else GetValue kn' n' d ?c)"
    using ini_set_get [OF ok run, of "''DB''" "''Path''" "''x''"] by blast
  moreover have "GetValue ''db'' ''port'' ''no'' ?c = Some ''no''" by code_simp
  moreover have "CheckCase ?c ''db'' = CheckCase ?c ''DB'' \<and> CheckCase ?c ''path'' = CheckCase ?c ''Path'' \<and>
    CheckCase ?c ''port'' \<noteq> CheckCase ?c ''Path''" by code_simp
  ultimately show ?thesis by auto
qed

text \<open>
  C8: reading a written file gives back the same keys, values and comments, in the same order, for a
  file with at least one key, no two keys and no two values of a key with the same name up to case, no
  line feed in a name, value or comment, and value names that start with a printable character and hold
  none of the characters \<open>;#[=\<close>. Values may hold any of these characters.
\<close>

theorem ini_write_read:
  assumes "ini_writable c"
  shows "\<exists>s. WriteFile c = Some s \<and> ReadFile (Some s) (CIniFile_new p) = Some (True, c\<lparr>caseInsensitive := True, path := p\<rparr>)"
  by (rule ini_written [OF assms])

theorem ini_write_read_witness:
  "\<exists>c s. WriteFile c = Some s \<and> ReadFile (Some s) (CIniFile_new []) = Some (True, c) \<and>
    c = \<lparr>caseInsensitive = True, path = [], keys = [\<lparr>key_names = [''port'', ''pass''], key_values = [''80'', ''a=;b''], key_comments = ['' k'']\<rparr>],
      names = [''http''], comments = ['' top'']\<rparr>"
proof -
  let ?c = "\<lparr>caseInsensitive = True, path = [], keys = [\<lparr>key_names = [''port'', ''pass''], key_values = [''80'', ''a=;b''], key_comments = ['' k'']\<rparr>],
      names = [''http''], comments = ['' top'']\<rparr>"
  have "ini_writable ?c" by code_simp
  from ini_write_read [OF this, of "[]"] show ?thesis by auto
qed

end
