(* ===== verification/Xhc_SortedSet.thy ===== *)
theory Xhc_SortedSet
  imports Xhc_Util
begin

text \<open>
  \<open>common/sorted_set.h\<close> and \<open>common/sorted_set.cpp\<close>: the scored set the expiry
  thread keeps in memory, and the byte \<open>Decoder\<close> that the key codec reads with.

  \<open>std::set<Item>\<close> is its elements in order, a strictly sorted list; a \<open>set\<close> iterator
  is the item it points to, so \<open>existed\<close> maps a key to its item. The representation
  invariant \<open>SortedSet_inv\<close> says that no iterator dangles. The locale \<open>score_queue\<close> is
  what the expiry manager relies on: a map from keys to scores whose least and greatest
  entries can be read and removed.
\<close>

section \<open>Definitions\<close>

subsection \<open>Items and their order\<close>

datatype Item = Item (item_key: string) (item_score: int64)

definition Item_less :: "Item \<Rightarrow> Item \<Rightarrow> bool" where
  "Item_less a b \<longleftrightarrow>
     item_score a < item_score b \<or> (item_score a = item_score b \<and> item_key a < item_key b)"

instantiation Item :: linorder
begin

definition less_Item :: "Item \<Rightarrow> Item \<Rightarrow> bool" where
  "less_Item = Item_less"

definition less_eq_Item :: "Item \<Rightarrow> Item \<Rightarrow> bool" where
  "less_eq_Item a b \<longleftrightarrow> a < b \<or> a = (b :: Item)"

instance
proof
  fix x y z :: Item
  show "x < y \<longleftrightarrow> x \<le> y \<and> \<not> y \<le> x"
    by (cases x; cases y) (auto simp: less_Item_def Item_less_def less_eq_Item_def)
  show "x \<le> x" by (simp add: less_eq_Item_def)
  show "x \<le> y \<Longrightarrow> y \<le> z \<Longrightarrow> x \<le> z"
    by (cases x; cases y; cases z) (auto simp: less_Item_def Item_less_def less_eq_Item_def)
  show "x \<le> y \<Longrightarrow> y \<le> x \<Longrightarrow> x = y"
    by (cases x; cases y) (auto simp: less_Item_def Item_less_def less_eq_Item_def)
  show "x \<le> y \<or> y \<le> x"
    by (cases x; cases y) (auto simp: less_Item_def Item_less_def less_eq_Item_def)
qed

end

subsection \<open>The set\<close>

record SortedSet =
  existed :: "string \<rightharpoonup> Item"
  sorted_set :: "Item list"

definition SortedSet_new :: SortedSet where
  "SortedSet_new = \<lparr>existed = Map.empty, sorted_set = []\<rparr>"

text \<open>\<open>std::set::insert\<close>: an equal element already present stays.\<close>

definition std_set_insert :: "'a::linorder \<Rightarrow> 'a list \<Rightarrow> 'a list" where
  "std_set_insert x xs = (if x \<in> set xs then xs else insort x xs)"

definition SortedSet_size :: "SortedSet \<Rightarrow> int" where
  "SortedSet_size s = wrap32 (int (length (sorted_set s)))"

definition SortedSet_empty :: "SortedSet \<Rightarrow> bool" where
  "SortedSet_empty s \<longleftrightarrow> SortedSet_size s = 0"

definition SortedSet_add :: "string \<Rightarrow> int64 \<Rightarrow> SortedSet \<Rightarrow> int \<times> SortedSet" where
  "SortedSet_add key score s =
     (let put = (\<lambda>items. s\<lparr>existed := (existed s)(key \<mapsto> Item key score),
                           sorted_set := std_set_insert (Item key score) items\<rparr>)
      in case existed s key of
           None \<Rightarrow> (1, put (sorted_set s))
         | Some item \<Rightarrow>
             if item_score item = score then (0, s)
             else (0, put (remove1 item (sorted_set s))))"

definition SortedSet_del :: "string \<Rightarrow> SortedSet \<Rightarrow> int \<times> SortedSet" where
  "SortedSet_del key s =
     (case existed s key of
        None \<Rightarrow> (0, s)
      | Some item \<Rightarrow>
          (1, s\<lparr>existed := (existed s)(key := None), sorted_set := remove1 item (sorted_set s)\<rparr>))"

text \<open>The out-parameters of \<open>front\<close> and \<open>back\<close>; \<^const>\<open>None\<close> is the return value 0.\<close>

definition SortedSet_front :: "SortedSet \<Rightarrow> (string \<times> int64) option" where
  "SortedSet_front s =
     (case sorted_set s of [] \<Rightarrow> None | it # _ \<Rightarrow> Some (item_key it, item_score it))"

definition SortedSet_back :: "SortedSet \<Rightarrow> (string \<times> int64) option" where
  "SortedSet_back s =
     (if sorted_set s = [] then None
      else let it = last (sorted_set s) in Some (item_key it, item_score it))"

definition SortedSet_max_score :: "SortedSet \<Rightarrow> int64" where
  "SortedSet_max_score s = (case SortedSet_back s of None \<Rightarrow> 0 | Some (_, score) \<Rightarrow> score)"

definition SortedSet_pop_front :: "SortedSet \<Rightarrow> int \<times> SortedSet" where
  "SortedSet_pop_front s =
     (case sorted_set s of
        [] \<Rightarrow> (0, s)
      | it # rest \<Rightarrow> (1, s\<lparr>existed := (existed s)(item_key it := None), sorted_set := rest\<rparr>))"

definition SortedSet_pop_back :: "SortedSet \<Rightarrow> int \<times> SortedSet" where
  "SortedSet_pop_back s =
     (if sorted_set s = [] then (0, s)
      else let it = last (sorted_set s)
           in (1, s\<lparr>existed := (existed s)(item_key it := None), sorted_set := butlast (sorted_set s)\<rparr>))"

subsection \<open>The decoder\<close>

text \<open>
  A decoder is the bytes from \<open>p\<close> on; its \<open>size\<close> field is their number. A read returns
  what it read and the decoder after it, \<^const>\<open>None\<close> where the code returns -1.
\<close>

type_synonym Decoder = string

definition Decoder_skip :: "nat \<Rightarrow> Decoder \<Rightarrow> Decoder option" where
  "Decoder_skip n d = (if length d < n then None else Some (drop n d))"

definition Decoder_read_int64 :: "Decoder \<Rightarrow> (u64 \<times> Decoder) option" where
  "Decoder_read_int64 d = (if length d < 8 then None else Some (of_le_bytes (take 8 d), drop 8 d))"

definition Decoder_read_uint64 :: "Decoder \<Rightarrow> (u64 \<times> Decoder) option" where
  "Decoder_read_uint64 d = (if length d < 8 then None else Some (of_le_bytes (take 8 d), drop 8 d))"

definition Decoder_read_data :: "Decoder \<Rightarrow> (string \<times> Decoder) option" where
  "Decoder_read_data d = Some (d, [])"

definition Decoder_read_8_data :: "Decoder \<Rightarrow> (string \<times> Decoder) option" where
  "Decoder_read_8_data d =
     (case d of
        [] \<Rightarrow> None
      | c # rest \<Rightarrow>
          let len = byte_val c
          in if length rest < len then None else Some (take len rest, drop len rest))"

subsection \<open>Invariant and abstraction\<close>

definition SortedSet_inv :: "SortedSet \<Rightarrow> bool" where
  "SortedSet_inv s \<longleftrightarrow>
     sorted_wrt (<) (sorted_set s) \<and>
     (\<forall>k it. existed s k = Some it \<longleftrightarrow> it \<in> set (sorted_set s) \<and> item_key it = k)"

definition score_of :: "SortedSet \<Rightarrow> string \<Rightarrow> int64 option" where
  "score_of s k = map_option item_score (existed s k)"

section \<open>The interface of the expiry manager\<close>

locale score_queue =
  fixes size :: "'q \<Rightarrow> int"
    and add :: "string \<Rightarrow> int64 \<Rightarrow> 'q \<Rightarrow> int \<times> 'q"
    and del :: "string \<Rightarrow> 'q \<Rightarrow> int \<times> 'q"
    and front :: "'q \<Rightarrow> (string \<times> int64) option"
    and rear :: "'q \<Rightarrow> (string \<times> int64) option"
    and pop_front :: "'q \<Rightarrow> int \<times> 'q"
    and pop_back :: "'q \<Rightarrow> int \<times> 'q"
    and lookup :: "'q \<Rightarrow> string \<Rightarrow> int64 option"
    and inv :: "'q \<Rightarrow> bool"
  assumes inv_add: "inv q \<Longrightarrow> inv (snd (add k v q))"
    and inv_del: "inv q \<Longrightarrow> inv (snd (del k q))"
    and inv_pop_front: "inv q \<Longrightarrow> inv (snd (pop_front q))"
    and inv_pop_back: "inv q \<Longrightarrow> inv (snd (pop_back q))"
    and lookup_add: "inv q \<Longrightarrow> lookup (snd (add k v q)) = (lookup q)(k \<mapsto> v)"
    and lookup_del: "inv q \<Longrightarrow> lookup (snd (del k q)) = (lookup q)(k := None)"
    and finite_lookup: "inv q \<Longrightarrow> finite (dom (lookup q))"
    and size_lookup: "inv q \<Longrightarrow> card (dom (lookup q)) < 2 ^ 31 \<Longrightarrow> size q = int (card (dom (lookup q)))"
    and front_None: "inv q \<Longrightarrow> front q = None \<longleftrightarrow> lookup q = Map.empty"
    and front_Some: "inv q \<Longrightarrow> front q = Some (k, v) \<Longrightarrow>
      lookup q k = Some v \<and> (\<forall>k' v'. lookup q k' = Some v' \<longrightarrow> v < v' \<or> (v = v' \<and> k \<le> k'))"
    and rear_None: "inv q \<Longrightarrow> rear q = None \<longleftrightarrow> lookup q = Map.empty"
    and rear_Some: "inv q \<Longrightarrow> rear q = Some (k, v) \<Longrightarrow>
      lookup q k = Some v \<and> (\<forall>k' v'. lookup q k' = Some v' \<longrightarrow> v' < v \<or> (v' = v \<and> k' \<le> k))"
    and pop_front_Some: "inv q \<Longrightarrow> front q = Some (k, v) \<Longrightarrow>
      lookup (snd (pop_front q)) = (lookup q)(k := None)"
    and pop_back_Some: "inv q \<Longrightarrow> rear q = Some (k, v) \<Longrightarrow>
      lookup (snd (pop_back q)) = (lookup q)(k := None)"
begin

lemma front_exists: "inv q \<Longrightarrow> lookup q k = Some v \<Longrightarrow> \<exists>k' v'. front q = Some (k', v')"
  using front_None by (cases "front q") fastforce+

lemma rear_exists: "inv q \<Longrightarrow> lookup q k = Some v \<Longrightarrow> \<exists>k' v'. rear q = Some (k', v')"
  using rear_None by (cases "rear q") fastforce+

lemma front_le: "inv q \<Longrightarrow> front q = Some (k, v) \<Longrightarrow> lookup q k' = Some v' \<Longrightarrow> v \<le> v'"
  using front_Some by fastforce

lemma rear_ge: "inv q \<Longrightarrow> rear q = Some (k, v) \<Longrightarrow> lookup q k' = Some v' \<Longrightarrow> v' \<le> v"
  using rear_Some by fastforce

lemma card_pop_back:
  assumes "inv q" "rear q = Some (k, v)"
  shows "card (dom (lookup (snd (pop_back q)))) = card (dom (lookup q)) - 1"
proof -
  have "k \<in> dom (lookup q)" using rear_Some [OF assms] by auto
  then show ?thesis using assms finite_lookup [of q] by (simp add: pop_back_Some)
qed

lemma card_pop_front:
  assumes "inv q" "front q = Some (k, v)"
  shows "Suc (card (dom (lookup (snd (pop_front q))))) = card (dom (lookup q))"
proof -
  have "k \<in> dom (lookup q)" using front_Some [OF assms] by auto
  then show ?thesis using assms finite_lookup [of q]
    by (simp add: pop_front_Some card_Suc_Diff1 del: card_Diff_insert)
qed

lemma card_add: "inv q \<Longrightarrow> card (dom (lookup (snd (add k v q)))) \<le> Suc (card (dom (lookup q)))"
  by (simp add: lookup_add finite_lookup card_insert_if)

lemma card_del: "inv q \<Longrightarrow> card (dom (lookup (snd (del k q)))) \<le> card (dom (lookup q))"
  by (simp add: lookup_del finite_lookup card_Diff1_le)

end

section \<open>Lemmas\<close>

subsection \<open>Strictly sorted lists\<close>

lemma set_std_set_insert [simp]: "set (std_set_insert x xs) = insert x (set xs)"
  by (auto simp: std_set_insert_def set_insort_key)

lemma sorted_std_set_insert: "sorted_wrt (<) xs \<Longrightarrow> sorted_wrt (<) (std_set_insert x xs)"
  by (auto simp: std_set_insert_def strict_sorted_iff sorted_insort distinct_insort)

lemma sorted_wrt_remove1: "sorted_wrt P xs \<Longrightarrow> sorted_wrt P (remove1 x xs)"
  by (induction xs) (auto dest: notin_set_remove1 [rotated])

lemma set_remove1_sorted: "sorted_wrt (<) xs \<Longrightarrow> set (remove1 x xs) = set xs - {x :: 'a::linorder}"
  by (simp add: strict_sorted_iff)

lemma sorted_hd_le: "sorted_wrt (<) (x # xs) \<Longrightarrow> y \<in> set (x # xs) \<Longrightarrow> x \<le> (y :: 'a::linorder)"
  by auto

lemma sorted_last_ge:
  fixes xs :: "'a::linorder list"
  assumes "sorted_wrt (<) xs" "y \<in> set xs"
  shows "y \<le> last xs"
proof -
  have xs: "xs = butlast xs @ [last xs]" using assms(2) by (cases xs) auto
  then have "sorted_wrt (<) (butlast xs @ [last xs])" using assms(1) by simp
  then have "\<forall>z \<in> set (butlast xs). z < last xs" by (simp add: sorted_wrt_append)
  moreover have "y \<in> set (butlast xs) \<or> y = last xs" using assms(2) xs by (metis UnE empty_iff insert_iff list.set(1,2) set_append)
  ultimately show ?thesis by auto
qed

subsection \<open>The invariant\<close>

lemma SortedSet_inv_item:
  "SortedSet_inv s \<Longrightarrow> it \<in> set (sorted_set s) \<Longrightarrow> existed s (item_key it) = Some it"
  by (auto simp: SortedSet_inv_def)

lemma SortedSet_inv_existed:
  "SortedSet_inv s \<Longrightarrow> existed s k = Some it \<Longrightarrow> it \<in> set (sorted_set s) \<and> item_key it = k"
  by (auto simp: SortedSet_inv_def)

lemma SortedSet_inv_sorted: "SortedSet_inv s \<Longrightarrow> sorted_wrt (<) (sorted_set s)"
  by (simp add: SortedSet_inv_def)

lemma SortedSet_inv_new [inv_intros]: "SortedSet_inv SortedSet_new"
  by (simp add: SortedSet_inv_def SortedSet_new_def)

lemma SortedSet_inv_unique:
  "SortedSet_inv s \<Longrightarrow> a \<in> set (sorted_set s) \<Longrightarrow> b \<in> set (sorted_set s) \<Longrightarrow>
   item_key a = item_key b \<Longrightarrow> a = b"
  by (metis SortedSet_inv_item option.inject)

lemma SortedSet_inv_erase:
  assumes "SortedSet_inv s" "it \<in> set (sorted_set s)" "k = item_key it"
    "sorted_wrt (<) xs" "set xs = set (sorted_set s) - {it}"
  shows "SortedSet_inv (s\<lparr>existed := (existed s)(k := None), sorted_set := xs\<rparr>)"
  using assms SortedSet_inv_unique [OF assms(1)] by (auto simp: SortedSet_inv_def)

lemma SortedSet_inv_insert:
  assumes "SortedSet_inv s" "existed s k = None"
  shows "SortedSet_inv (s\<lparr>existed := (existed s)(k \<mapsto> Item k v),
           sorted_set := std_set_insert (Item k v) (sorted_set s)\<rparr>)"
proof -
  have old: "existed s k' = Some it \<longleftrightarrow> it \<in> set (sorted_set s) \<and> item_key it = k'" for k' it
    using assms(1) by (simp add: SortedSet_inv_def)
  have new: "it \<in> set (sorted_set s) \<Longrightarrow> item_key it \<noteq> k" for it
    using old [of k it] assms(2) by auto
  show ?thesis
    using new SortedSet_inv_sorted [OF assms(1)]
    by (auto simp: SortedSet_inv_def sorted_std_set_insert old)
qed

lemma SortedSet_inv_add [inv_intros]:
  assumes "SortedSet_inv s"
  shows "SortedSet_inv (snd (SortedSet_add k v s))"
proof (cases "existed s k")
  case None
  then show ?thesis using SortedSet_inv_insert [OF assms None] by (simp add: SortedSet_add_def)
next
  case (Some it)
  let ?s = "s\<lparr>existed := (existed s)(k := None), sorted_set := remove1 it (sorted_set s)\<rparr>"
  have it: "it \<in> set (sorted_set s)" "item_key it = k"
    using SortedSet_inv_existed [OF assms Some] by simp_all
  have "SortedSet_inv ?s"
    by (rule SortedSet_inv_erase [OF assms it(1)])
      (use it assms in \<open>simp_all add: sorted_wrt_remove1 set_remove1_sorted SortedSet_inv_sorted\<close>)
  then have "SortedSet_inv (?s\<lparr>existed := (existed ?s)(k \<mapsto> Item k v),
      sorted_set := std_set_insert (Item k v) (sorted_set ?s)\<rparr>)"
    by (rule SortedSet_inv_insert) simp
  then show ?thesis using assms Some by (simp add: SortedSet_add_def Let_def)
qed

lemma SortedSet_inv_del [inv_intros]:
  assumes "SortedSet_inv s"
  shows "SortedSet_inv (snd (SortedSet_del k s))"
proof (cases "existed s k")
  case None
  then show ?thesis using assms by (simp add: SortedSet_del_def)
next
  case (Some it)
  with SortedSet_inv_existed [OF assms Some] SortedSet_inv_erase [OF assms, of it k] assms
  show ?thesis
    by (simp add: SortedSet_del_def sorted_wrt_remove1 set_remove1_sorted SortedSet_inv_sorted)
qed

lemma SortedSet_inv_pop_front [inv_intros]:
  assumes "SortedSet_inv s"
  shows "SortedSet_inv (snd (SortedSet_pop_front s))"
proof (cases "sorted_set s")
  case Nil
  then show ?thesis using assms by (simp add: SortedSet_pop_front_def)
next
  case (Cons it rest)
  then have "sorted_wrt (<) (it # rest)" using SortedSet_inv_sorted [OF assms] by simp
  then have "set rest = set (sorted_set s) - {it}" "sorted_wrt (<) rest" using Cons by auto
  then have "SortedSet_inv (s\<lparr>existed := (existed s)(item_key it := None), sorted_set := rest\<rparr>)"
    by (intro SortedSet_inv_erase [OF assms, of it]) (simp_all only: Cons list.set_intros refl)
  then show ?thesis using Cons by (simp add: SortedSet_pop_front_def)
qed

lemma SortedSet_inv_pop_back [inv_intros]:
  assumes "SortedSet_inv s"
  shows "SortedSet_inv (snd (SortedSet_pop_back s))"
proof (cases "sorted_set s = []")
  case True
  then show ?thesis using assms by (simp add: SortedSet_pop_back_def)
next
  case False
  let ?xs = "sorted_set s"
  have "sorted_wrt (<) (butlast ?xs @ [last ?xs])"
    using SortedSet_inv_sorted [OF assms] False by simp
  then have "sorted_wrt (<) (butlast ?xs)" "last ?xs \<notin> set (butlast ?xs)"
    by (auto simp: sorted_wrt_append)
  moreover have "set ?xs = insert (last ?xs) (set (butlast ?xs))"
    using False by (metis append_butlast_last_id list.simps(15) rotate1.simps(2) set_rotate1)
  ultimately have "SortedSet_inv (s\<lparr>existed := (existed s)(item_key (last ?xs) := None), sorted_set := butlast ?xs\<rparr>)"
    by (intro SortedSet_inv_erase [OF assms, of "last ?xs"] last_in_set False) blast+
  then show ?thesis using False by (simp add: SortedSet_pop_back_def Let_def)
qed

subsection \<open>The abstraction\<close>

lemma score_of_item:
  "SortedSet_inv s \<Longrightarrow> score_of s k = Some v \<longleftrightarrow> Item k v \<in> set (sorted_set s)"
  by (auto simp: score_of_def SortedSet_inv_def)

lemma dom_score_of: "SortedSet_inv s \<Longrightarrow> dom (score_of s) = item_key ` set (sorted_set s)"
  by (auto simp: score_of_def SortedSet_inv_def dom_def image_iff)

lemma card_dom_score_of:
  assumes "SortedSet_inv s"
  shows "card (dom (score_of s)) = length (sorted_set s)"
proof -
  have "inj_on item_key (set (sorted_set s))"
    by (rule inj_onI) (rule SortedSet_inv_unique [OF assms])
  then show ?thesis
    using SortedSet_inv_sorted [OF assms]
    by (simp add: dom_score_of [OF assms] card_image strict_sorted_iff distinct_card)
qed

lemma score_of_add:
  "SortedSet_inv s \<Longrightarrow> score_of (snd (SortedSet_add k v s)) = (score_of s)(k \<mapsto> v)"
  by (auto simp: SortedSet_add_def score_of_def fun_eq_iff split: option.split)

lemma score_of_del: "score_of (snd (SortedSet_del k s)) = (score_of s)(k := None)"
  by (auto simp: SortedSet_del_def score_of_def fun_eq_iff split: option.split)

lemma SortedSet_size_eq: "length (sorted_set s) < 2 ^ 31 \<Longrightarrow> SortedSet_size s = int (length (sorted_set s))"
  by (simp add: SortedSet_size_def wrap32_id INT_MIN_def INT_MAX_def)

lemma score_of_empty: "SortedSet_inv s \<Longrightarrow> score_of s = Map.empty \<longleftrightarrow> sorted_set s = []"
  using dom_score_of [of s] by (metis dom_eq_empty_conv image_is_empty set_empty)

lemma less_eq_Item_iff:
  "Item k v \<le> Item k' v' \<longleftrightarrow> v < v' \<or> (v = v' \<and> k \<le> k')"
  by (auto simp: less_eq_Item_def less_Item_def Item_less_def)

lemma SortedSet_front_least:
  assumes "SortedSet_inv s" "SortedSet_front s = Some (k, v)"
  shows "score_of s k = Some v \<and> (\<forall>k' v'. score_of s k' = Some v' \<longrightarrow> v < v' \<or> (v = v' \<and> k \<le> k'))"
proof -
  obtain rest where xs: "sorted_set s = Item k v # rest"
    using assms(2) by (auto simp: SortedSet_front_def split: list.splits)
  have "sorted_wrt (<) (Item k v # rest)" using SortedSet_inv_sorted [OF assms(1)] xs by simp
  then have "\<forall>it \<in> set (sorted_set s). Item k v \<le> it" using xs by auto
  then show ?thesis using assms(1) xs by (auto simp: score_of_item less_eq_Item_iff)
qed

lemma SortedSet_back_greatest:
  assumes "SortedSet_inv s" "SortedSet_back s = Some (k, v)"
  shows "score_of s k = Some v \<and> (\<forall>k' v'. score_of s k' = Some v' \<longrightarrow> v' < v \<or> (v' = v \<and> k' \<le> k))"
proof -
  have xs: "sorted_set s \<noteq> []" "last (sorted_set s) = Item k v"
    using assms(2) by (auto simp: SortedSet_back_def Let_def split: if_splits)
  have "\<forall>it \<in> set (sorted_set s). it \<le> Item k v"
    using sorted_last_ge [OF SortedSet_inv_sorted [OF assms(1)]] xs by simp
  then show ?thesis using assms(1) xs last_in_set [OF xs(1)] by (auto simp: score_of_item less_eq_Item_iff)
qed

interpretation sq: score_queue SortedSet_size SortedSet_add SortedSet_del SortedSet_front
  SortedSet_back SortedSet_pop_front SortedSet_pop_back score_of SortedSet_inv
proof (unfold_locales, goal_cases)
  case (5 q k v)
  then show ?case by (rule score_of_add)
next
  case (6 q k)
  show ?case by (rule score_of_del)
next
  case (7 q)
  then show ?case by (simp add: dom_score_of)
next
  case (8 q)
  then show ?case by (simp add: card_dom_score_of SortedSet_size_eq)
next
  case (9 q)
  then show ?case by (simp add: score_of_empty SortedSet_front_def split: list.splits)
next
  case (10 q k v)
  then show ?case by (rule SortedSet_front_least)
next
  case (11 q)
  then show ?case by (simp add: score_of_empty SortedSet_back_def Let_def)
next
  case (12 q k v)
  then show ?case by (rule SortedSet_back_greatest)
next
  case (13 q k v)
  then show ?case
    by (auto simp: SortedSet_front_def SortedSet_pop_front_def score_of_def split: list.splits)
next
  case (14 q k v)
  then show ?case
    by (auto simp: SortedSet_back_def SortedSet_pop_back_def score_of_def Let_def split: if_splits)
qed (rule inv_intros; assumption)+

section \<open>Properties\<close>

text \<open>The mutating operations, and what each of them promises of the key/score map.\<close>

datatype ss_op = Op_add string int64 | Op_del string | Op_pop_front | Op_pop_back

primrec ss_exec :: "ss_op \<Rightarrow> SortedSet \<Rightarrow> int \<times> SortedSet" where
  "ss_exec (Op_add k v) s = SortedSet_add k v s"
| "ss_exec (Op_del k) s = SortedSet_del k s"
| "ss_exec Op_pop_front s = SortedSet_pop_front s"
| "ss_exec Op_pop_back s = SortedSet_pop_back s"

definition least_item :: "(string \<rightharpoonup> int64) \<Rightarrow> string \<Rightarrow> int64 \<Rightarrow> bool" where
  "least_item m k v \<longleftrightarrow>
     m k = Some v \<and> (\<forall>k' v'. m k' = Some v' \<longrightarrow> v < v' \<or> (v = v' \<and> k \<le> k'))"

definition greatest_item :: "(string \<rightharpoonup> int64) \<Rightarrow> string \<Rightarrow> int64 \<Rightarrow> bool" where
  "greatest_item m k v \<longleftrightarrow>
     m k = Some v \<and> (\<forall>k' v'. m k' = Some v' \<longrightarrow> v' < v \<or> (v' = v \<and> k' \<le> k))"

inductive ss_spec :: "ss_op \<Rightarrow> (string \<rightharpoonup> int64) \<Rightarrow> int \<Rightarrow> (string \<rightharpoonup> int64) \<Rightarrow> bool" where
  spec_new: "m k = None \<Longrightarrow> ss_spec (Op_add k v) m 1 (m(k \<mapsto> v))"
| spec_update: "m k = Some w \<Longrightarrow> ss_spec (Op_add k v) m 0 (m(k \<mapsto> v))"
| spec_del: "m k = Some w \<Longrightarrow> ss_spec (Op_del k) m 1 (m(k := None))"
| spec_del_none: "m k = None \<Longrightarrow> ss_spec (Op_del k) m 0 m"
| spec_pop_front: "least_item m k v \<Longrightarrow> ss_spec Op_pop_front m 1 (m(k := None))"
| spec_pop_front_none: "ss_spec Op_pop_front Map.empty 0 Map.empty"
| spec_pop_back: "greatest_item m k v \<Longrightarrow> ss_spec Op_pop_back m 1 (m(k := None))"
| spec_pop_back_none: "ss_spec Op_pop_back Map.empty 0 Map.empty"

lemma ss_exec_inv: "SortedSet_inv s \<Longrightarrow> SortedSet_inv (snd (ss_exec op s))"
  by (cases op) (simp_all add: sq.inv_add sq.inv_del sq.inv_pop_front sq.inv_pop_back)

lemma ss_run_inv: "SortedSet_inv s \<Longrightarrow> SortedSet_inv (fold (\<lambda>op s. snd (ss_exec op s)) ops s)"
  by (induction ops arbitrary: s) (simp_all add: ss_exec_inv)

lemma ss_exec_spec:
  assumes "SortedSet_inv s"
  shows "ss_spec op (score_of s) (fst (ss_exec op s)) (score_of (snd (ss_exec op s)))"
proof (cases op)
  case (Op_add k v)
  have "fst (SortedSet_add k v s) = (if score_of s k = None then 1 else 0)"
    by (auto simp: SortedSet_add_def score_of_def Let_def split: option.split)
  then show ?thesis using Op_add sq.lookup_add [OF assms]
    by (cases "score_of s k") (auto intro: ss_spec.intros)
next
  case (Op_del k)
  have "fst (SortedSet_del k s) = (if score_of s k = None then 0 else 1)"
    by (auto simp: SortedSet_del_def score_of_def split: option.split)
  moreover have "(score_of s)(k := None) = score_of s" if "score_of s k = None"
    using that by auto
  ultimately show ?thesis using Op_del sq.lookup_del [OF assms]
    by (cases "score_of s k") (auto intro: ss_spec.intros)
next
  case Op_pop_front
  show ?thesis
  proof (cases "SortedSet_front s")
    case None
    then have "sorted_set s = []" "score_of s = Map.empty"
      using sq.front_None [OF assms] by (auto simp: SortedSet_front_def split: list.splits)
    then show ?thesis using Op_pop_front by (simp add: SortedSet_pop_front_def ss_spec.intros)
  next
    case (Some kv)
    obtain k v where kv: "kv = (k, v)" by fastforce
    have "fst (SortedSet_pop_front s) = 1"
      using Some by (auto simp: SortedSet_front_def SortedSet_pop_front_def split: list.splits)
    then show ?thesis
      using Op_pop_front sq.front_Some [OF assms] sq.pop_front_Some [OF assms] Some kv
      by (auto simp: least_item_def intro!: ss_spec.intros)
  qed
next
  case Op_pop_back
  show ?thesis
  proof (cases "SortedSet_back s")
    case None
    then have "sorted_set s = []" "score_of s = Map.empty"
      using sq.rear_None [OF assms] by (auto simp: SortedSet_back_def Let_def split: if_splits)
    then show ?thesis using Op_pop_back by (simp add: SortedSet_pop_back_def ss_spec.intros)
  next
    case (Some kv)
    obtain k v where kv: "kv = (k, v)" by fastforce
    have "fst (SortedSet_pop_back s) = 1"
      using Some by (auto simp: SortedSet_back_def SortedSet_pop_back_def Let_def split: if_splits)
    then show ?thesis
      using Op_pop_back sq.rear_Some [OF assms] sq.pop_back_Some [OF assms] Some kv
      by (auto simp: greatest_item_def intro!: ss_spec.intros)
  qed
qed

text \<open>
  C15: A \<open>SortedSet\<close> implements a map from keys to scores with a priority order. After any
  sequence of calls its two indices agree, and the next call changes the map and returns
  the code as the specification says: \<open>add\<close> sets the score (1 for a new key, 0 for an old
  one), \<open>del\<close> removes the key (1 if it was there), \<open>pop_front\<close> removes the item of the
  least score, ties broken by key, and \<open>pop_back\<close> the item of the greatest.
\<close>

theorem SortedSet_refines_map:
  "let s = fold (\<lambda>op s. snd (ss_exec op s)) ops SortedSet_new
   in SortedSet_inv s \<and> ss_spec op (score_of s) (fst (ss_exec op s)) (score_of (snd (ss_exec op s)))"
  by (simp add: Let_def ss_run_inv ss_exec_spec inv_intros)

end
