(* ===== verification/Xhc_Murmur.thy ===== *)
theory Xhc_Murmur
  imports Xhc_Prelude
begin

text \<open>
  \<open>common/MurmurHash2.cpp\<close>: the 64-bit hash of the ETag cache and its 32-bit relatives.
  A key is its bytes, so \<open>len\<close> is their number; a load through a \<open>uint32_t *\<close> or
  \<open>uint64_t *\<close> is the little-endian value of the bytes there.

  The lemmas relate the variants: the endian-neutral and the aligned-read version compute
  \<open>MurmurHash2\<close> at every alignment, the incremental hasher computes \<open>MurmurHash2A\<close> of
  everything it was given however it was cut, and \<open>MurmurHash64A\<close> does not collide on
  keys of the same length of at most eight bytes.
\<close>

section \<open>Definitions\<close>

definition mm_m :: u32 where "mm_m = 0x5bd1e995"

definition byte32 :: "char \<Rightarrow> u32" where
  "byte32 c = of_nat (byte_val c)"

definition byte64 :: "char \<Rightarrow> u64" where
  "byte64 c = of_nat (byte_val c)"

text \<open>The macro \<open>mmix\<close> (and \<open>MIX\<close>): the new value of \<open>k\<close> and the new value of \<open>h\<close>.\<close>

definition mmix_k :: "u32 \<Rightarrow> u32" where
  "mmix_k k = (let k1 = k * mm_m; k2 = k1 XOR drop_bit 24 k1 in k2 * mm_m)"

definition mmix :: "u32 \<Rightarrow> u32 \<Rightarrow> u32" where
  "mmix h k = (h * mm_m) XOR mmix_k k"

definition mm_final :: "u32 \<Rightarrow> u32" where
  "mm_final h =
     (let h1 = h XOR drop_bit 13 h; h2 = h1 * mm_m in h2 XOR drop_bit 15 h2)"

subsection \<open>MurmurHash2\<close>

text \<open>The loop over four bytes at a time: the hash and the bytes left over.\<close>

fun MurmurHash2_loop :: "u32 \<Rightarrow> string \<Rightarrow> u32 \<times> string" where
  "MurmurHash2_loop h (a # b # c # d # data) =
     MurmurHash2_loop (mmix h (of_le_bytes [a, b, c, d])) data"
| "MurmurHash2_loop h data = (h, data)"

text \<open>The \<open>switch\<close> over the last bytes, which falls through from case to case.\<close>

fun MurmurHash2_tail :: "u32 \<Rightarrow> string \<Rightarrow> u32" where
  "MurmurHash2_tail h [a] = (h XOR byte32 a) * mm_m"
| "MurmurHash2_tail h [a, b] = ((h XOR push_bit 8 (byte32 b)) XOR byte32 a) * mm_m"
| "MurmurHash2_tail h [a, b, c] =
     (((h XOR push_bit 16 (byte32 c)) XOR push_bit 8 (byte32 b)) XOR byte32 a) * mm_m"
| "MurmurHash2_tail h _ = h"

definition MurmurHash2 :: "string \<Rightarrow> u32 \<Rightarrow> u32" where
  "MurmurHash2 key seed =
     (let h = seed XOR of_nat (length key);
          (h1, data) = MurmurHash2_loop h key
      in mm_final (MurmurHash2_tail h1 data))"

subsection \<open>MurmurHash64A\<close>

definition mm_m64 :: u64 where "mm_m64 = 0xc6a4a7935bd1e995"

fun MurmurHash64A_loop :: "u64 \<Rightarrow> string \<Rightarrow> u64 \<times> string" where
  "MurmurHash64A_loop h (a # b # c # d # e # f # g # i # data) =
     (let k = of_le_bytes [a, b, c, d, e, f, g, i];
          k1 = k * mm_m64;
          k2 = k1 XOR drop_bit 47 k1;
          k3 = k2 * mm_m64
      in MurmurHash64A_loop ((h XOR k3) * mm_m64) data)"
| "MurmurHash64A_loop h data = (h, data)"

text \<open>
  The fall-through \<open>switch (len & 7)\<close>: every remaining byte is xored in at its position,
  and the multiplication follows if there was one.
\<close>

fun MurmurHash64A_xors :: "u64 \<Rightarrow> nat \<Rightarrow> string \<Rightarrow> u64" where
  "MurmurHash64A_xors h i [] = h"
| "MurmurHash64A_xors h i (c # cs) =
     MurmurHash64A_xors h (Suc i) cs XOR push_bit (8 * i) (byte64 c)"

definition MurmurHash64A_tail :: "u64 \<Rightarrow> string \<Rightarrow> u64" where
  "MurmurHash64A_tail h data2 =
     (if data2 = [] then h else MurmurHash64A_xors h 0 data2 * mm_m64)"

definition MurmurHash64A :: "string \<Rightarrow> u64 \<Rightarrow> u64" where
  "MurmurHash64A key seed =
     (let h = seed XOR (of_nat (length key) * mm_m64);
          (h1, data2) = MurmurHash64A_loop h key;
          h2 = MurmurHash64A_tail h1 data2;
          h3 = h2 XOR drop_bit 47 h2;
          h4 = h3 * mm_m64
      in h4 XOR drop_bit 47 h4)"

subsection \<open>MurmurHash64B\<close>

fun MurmurHash64B_loop :: "u32 \<Rightarrow> u32 \<Rightarrow> string \<Rightarrow> u32 \<times> u32 \<times> string" where
  "MurmurHash64B_loop h1 h2 (a # b # c # d # e # f # g # i # data) =
     MurmurHash64B_loop (mmix h1 (of_le_bytes [a, b, c, d])) (mmix h2 (of_le_bytes [e, f, g, i])) data"
| "MurmurHash64B_loop h1 h2 data = (h1, h2, data)"

fun MurmurHash64B_four :: "u32 \<Rightarrow> string \<Rightarrow> u32 \<times> string" where
  "MurmurHash64B_four h1 (a # b # c # d # data) = (mmix h1 (of_le_bytes [a, b, c, d]), data)"
| "MurmurHash64B_four h1 data = (h1, data)"

definition MurmurHash64B :: "string \<Rightarrow> u64 \<Rightarrow> u64" where
  "MurmurHash64B key seed =
     (let h1 = ucast seed XOR of_nat (length key);
          h2 = ucast (drop_bit 32 seed);
          (h1, h2, data) = MurmurHash64B_loop h1 h2 key;
          (h1, data) = MurmurHash64B_four h1 data;
          h2 = MurmurHash2_tail h2 data;
          h1 = (h1 XOR drop_bit 18 h2) * mm_m;
          h2 = (h2 XOR drop_bit 22 h1) * mm_m;
          h1 = (h1 XOR drop_bit 17 h2) * mm_m;
          h2 = (h2 XOR drop_bit 19 h1) * mm_m
      in push_bit 32 (ucast h1) OR ucast h2)"

subsection \<open>MurmurHash2A and its incremental form\<close>

fun MurmurHash2A_tail :: "string \<Rightarrow> u32" where
  "MurmurHash2A_tail [a] = 0 XOR byte32 a"
| "MurmurHash2A_tail [a, b] = (0 XOR push_bit 8 (byte32 b)) XOR byte32 a"
| "MurmurHash2A_tail [a, b, c] = ((0 XOR push_bit 16 (byte32 c)) XOR push_bit 8 (byte32 b)) XOR byte32 a"
| "MurmurHash2A_tail _ = 0"

definition MurmurHash2A :: "string \<Rightarrow> u32 \<Rightarrow> u32" where
  "MurmurHash2A key seed =
     (let l = of_nat (length key);
          (h, data) = MurmurHash2_loop seed key;
          t = MurmurHash2A_tail data
      in mm_final (mmix (mmix h t) l))"

record CMurmurHash2A =
  m_hash :: u32
  m_tail :: u32
  m_count :: nat
  m_size :: u32

definition CMurmurHash2A_Begin :: "u32 \<Rightarrow> CMurmurHash2A" where
  "CMurmurHash2A_Begin seed = \<lparr>m_hash = seed, m_tail = 0, m_count = 0, m_size = 0\<rparr>"

fun CMurmurHash2A_MixTail :: "CMurmurHash2A \<Rightarrow> string \<Rightarrow> CMurmurHash2A \<times> string" where
  "CMurmurHash2A_MixTail s [] = (s, [])"
| "CMurmurHash2A_MixTail s (c # data) =
     (if length (c # data) < 4 \<or> m_count s \<noteq> 0
      then let t = m_tail s OR push_bit (m_count s * 8) (byte32 c); n = m_count s + 1
           in if n = 4
              then CMurmurHash2A_MixTail (s\<lparr>m_hash := mmix (m_hash s) t, m_tail := 0, m_count := 0\<rparr>) data
              else CMurmurHash2A_MixTail (s\<lparr>m_tail := t, m_count := n\<rparr>) data
      else (s, c # data))"

definition CMurmurHash2A_Add :: "CMurmurHash2A \<Rightarrow> string \<Rightarrow> CMurmurHash2A" where
  "CMurmurHash2A_Add s data =
     (let s = s\<lparr>m_size := m_size s + of_nat (length data)\<rparr>;
          (s, data) = CMurmurHash2A_MixTail s data;
          (h, data) = MurmurHash2_loop (m_hash s) data;
          s = s\<lparr>m_hash := h\<rparr>
      in fst (CMurmurHash2A_MixTail s data))"

definition CMurmurHash2A_End :: "CMurmurHash2A \<Rightarrow> u32 \<times> CMurmurHash2A" where
  "CMurmurHash2A_End s =
     (let h = mm_final (mmix (mmix (m_hash s) (m_tail s)) (m_size s))
      in (h, s\<lparr>m_hash := h, m_tail := mmix_k (m_tail s), m_size := mmix_k (m_size s)\<rparr>))"

subsection \<open>MurmurHashNeutral2 and MurmurHashAligned2\<close>

fun MurmurHashNeutral2_loop :: "u32 \<Rightarrow> string \<Rightarrow> u32 \<times> string" where
  "MurmurHashNeutral2_loop h (a # b # c # d # data) =
     (let k = byte32 a; k = k OR push_bit 8 (byte32 b); k = k OR push_bit 16 (byte32 c);
          k = k OR push_bit 24 (byte32 d)
      in MurmurHashNeutral2_loop (mmix h k) data)"
| "MurmurHashNeutral2_loop h data = (h, data)"

definition MurmurHashNeutral2 :: "string \<Rightarrow> u32 \<Rightarrow> u32" where
  "MurmurHashNeutral2 key seed =
     (let h = seed XOR of_nat (length key);
          (h1, data) = MurmurHashNeutral2_loop h key
      in mm_final (MurmurHash2_tail h1 data))"

text \<open>The fall-through loads \<open>t |= data[2] << 16; t |= data[1] << 8; t |= data[0]\<close>.\<close>

fun load_or :: "string \<Rightarrow> u32" where
  "load_or [a] = 0 OR byte32 a"
| "load_or [a, b] = (0 OR push_bit 8 (byte32 b)) OR byte32 a"
| "load_or [a, b, c] = ((0 OR push_bit 16 (byte32 c)) OR push_bit 8 (byte32 b)) OR byte32 a"
| "load_or _ = 0"

fun MurmurHashAligned2_loop :: "nat \<Rightarrow> u32 \<Rightarrow> u32 \<Rightarrow> string \<Rightarrow> u32 \<times> u32 \<times> string" where
  "MurmurHashAligned2_loop align h t (a # b # c # e # data) =
     (let d = of_le_bytes [a, b, c, e];
          t = drop_bit (8 * align) t OR push_bit (8 * (4 - align)) d
      in MurmurHashAligned2_loop align (mmix h t) d data)"
| "MurmurHashAligned2_loop align h t data = (h, t, data)"

definition MurmurHashAligned2 :: "nat \<Rightarrow> string \<Rightarrow> u32 \<Rightarrow> u32" where
  "MurmurHashAligned2 align key seed =
     (let h = seed XOR of_nat (length key)
      in if align \<noteq> 0 \<and> 4 \<le> length key then
           let t = push_bit (8 * align) (load_or (take (4 - align) key));
               (h, t, data) = MurmurHashAligned2_loop align h t (drop (4 - align) key);
               len = length data
           in if align \<le> len then
                let d = load_or (take align data);
                    k = drop_bit (8 * align) t OR push_bit (8 * (4 - align)) d
                in mm_final (MurmurHash2_tail (mmix h k) (drop align data))
              else
                let d = load_or data
                in mm_final ((h XOR (drop_bit (8 * align) t OR push_bit (8 * (4 - align)) d)) * mm_m)
         else
           let (h1, data) = MurmurHash2_loop h key in mm_final (MurmurHash2_tail h1 data))"

section \<open>Lemmas\<close>

subsection \<open>Bytes inside words\<close>

lemma byte32_alt: "of_nat (byte_val c) = byte32 c"
  by (simp add: byte32_def)

lemma bit_of_byte: "bit (of_nat (byte_val c) :: 'a::len word) n \<Longrightarrow> n < 8"
proof -
  assume "bit (of_nat (byte_val c) :: 'a::len word) n"
  then have "bit (byte_val c) n" by (simp add: bit_of_nat_iff)
  moreover have "take_bit 8 (byte_val c) = byte_val c" by (simp add: take_bit_nat_eq_self)
  ultimately show "n < 8" by (metis bit_take_bit_iff)
qed

lemma bit_byte32: "bit (byte32 c) n \<Longrightarrow> n < 8"
  unfolding byte32_def by (rule bit_of_byte)

lemma byte32_xor_push: "byte32 c XOR push_bit 8 w = byte32 c OR push_bit 8 w"
  by (rule bit_word_eqI) (auto simp: bit_simps dest: bit_byte32)

lemma of_le_bytes_single [simp]: "of_le_bytes [c] = byte32 c"
  by (simp add: byte32_def)

lemma of_le_bytes_append:
  "of_le_bytes (xs @ ys) = of_le_bytes xs OR push_bit (8 * length xs) (of_le_bytes ys :: u32)"
  by (induction xs) (simp_all add: push_bit_or or.assoc add.commute)

lemma of_le_bytes_bound: "bit (of_le_bytes xs :: 'a::len word) n \<Longrightarrow> n < 8 * length xs"
proof (induction xs arbitrary: n)
  case Nil
  then show ?case by simp
next
  case (Cons c cs)
  then have "bit (of_nat (byte_val c) :: 'a word) n \<or> (8 \<le> n \<and> bit (of_le_bytes cs :: 'a word) (n - 8))"
    by (auto simp: bit_or_iff bit_push_bit_iff)
  then show ?case
  proof
    assume "bit (of_nat (byte_val c) :: 'a word) n"
    from bit_of_byte [OF this] show ?thesis by simp
  next
    assume "8 \<le> n \<and> bit (of_le_bytes cs :: 'a word) (n - 8)"
    with Cons.IH [of "n - 8"] show ?thesis by simp
  qed
qed

lemma drop_bit_of_le_bytes:
  assumes "length xs \<le> 4"
  shows "drop_bit (8 * n) (of_le_bytes xs :: u32) = of_le_bytes (drop n xs)"
proof (cases "n \<le> length xs")
  case True
  have "of_le_bytes xs = of_le_bytes (take n xs) OR push_bit (8 * n) (of_le_bytes (drop n xs) :: u32)"
    using of_le_bytes_append [of "take n xs" "drop n xs"] True by simp
  moreover have "8 * n + i < 32" if "bit (of_le_bytes (drop n xs) :: u32) i" for i
    using of_le_bytes_bound [OF that] assms True by simp
  moreover have "\<not> bit (of_le_bytes (take n xs) :: u32) (8 * n + i)" for i
    using of_le_bytes_bound [of "take n xs" "8 * n + i"] True by auto
  ultimately show ?thesis
    by (intro bit_word_eqI) (auto simp: bit_simps)
next
  case False
  moreover have "\<not> bit (of_le_bytes xs :: u32) (8 * n + i)" for i
    using of_le_bytes_bound [of xs "8 * n + i"] False by auto
  ultimately show ?thesis by (intro bit_word_eqI) (auto simp: bit_simps)
qed

lemma push_bit_of_le_bytes_take:
  assumes "n \<le> 4" "length xs \<le> 4"
  shows "push_bit (8 * (4 - n)) (of_le_bytes xs :: u32) = push_bit (8 * (4 - n)) (of_le_bytes (take n xs))"
proof -
  have "of_le_bytes xs = of_le_bytes (take n xs) OR
      push_bit (8 * length (take n xs)) (of_le_bytes (drop n xs) :: u32)"
    using of_le_bytes_append [of "take n xs" "drop n xs"] by simp
  moreover have "push_bit (8 * (4 - n)) (push_bit (8 * length (take n xs)) (of_le_bytes (drop n xs) :: u32)) = 0"
  proof (cases "n \<le> length xs")
    case True
    then have "8 * (4 - n) + 8 * length (take n xs) = 32" using assms by simp
    then show ?thesis by (intro bit_word_eqI) (simp add: push_bit_push_bit bit_push_bit_iff)
  next
    case False
    then show ?thesis by simp
  qed
  ultimately show ?thesis by (simp add: push_bit_or)
qed

subsection \<open>The tail switches\<close>

lemma load_or_eq: "length xs < 4 \<Longrightarrow> load_or xs = of_le_bytes xs"
  by (cases xs rule: load_or.cases) (auto simp: byte32_alt push_bit_or ac_simps)

lemma of_le_bytes_xor:
  "of_le_bytes [a, b] = push_bit 8 (byte32 b) XOR byte32 a"
  "of_le_bytes [a, b, c] = push_bit 16 (byte32 c) XOR (push_bit 8 (byte32 b) XOR byte32 a)"
proof -
  show "of_le_bytes [a, b] = push_bit 8 (byte32 b) XOR byte32 a"
    by (simp add: byte32_alt byte32_xor_push [symmetric] xor.commute)
  have "of_le_bytes [a, b, c] = byte32 a OR push_bit 8 (byte32 b OR push_bit 8 (byte32 c))"
    by (simp add: byte32_alt)
  also have "\<dots> = byte32 a XOR push_bit 8 (byte32 b XOR push_bit 8 (byte32 c))"
    by (simp only: byte32_xor_push)
  finally have "of_le_bytes [a, b, c] = byte32 a XOR push_bit 8 (byte32 b XOR push_bit 8 (byte32 c))" .
  then show "of_le_bytes [a, b, c] = push_bit 16 (byte32 c) XOR (push_bit 8 (byte32 b) XOR byte32 a)"
    by (simp add: push_bit_xor ac_simps)
qed

lemma MurmurHash2_tail_eq:
  "xs \<noteq> [] \<Longrightarrow> length xs < 4 \<Longrightarrow> MurmurHash2_tail h xs = (h XOR of_le_bytes xs) * mm_m"
  by (cases "(h, xs)" rule: MurmurHash2_tail.cases) (auto simp: of_le_bytes_xor xor.assoc simp del: of_le_bytes.simps)

lemma MurmurHash2A_tail_eq: "length xs < 4 \<Longrightarrow> MurmurHash2A_tail xs = of_le_bytes xs"
  by (cases xs rule: MurmurHash2A_tail.cases)
    (auto simp: of_le_bytes_xor xor.assoc simp del: of_le_bytes.simps(2))

lemma MurmurHash2_loop_append4:
  "length xs = 4 \<Longrightarrow> MurmurHash2_loop h (xs @ ys) = MurmurHash2_loop (mmix h (of_le_bytes xs)) ys"
  by (cases "(h, xs)" rule: MurmurHash2_loop.cases) auto

lemma MurmurHash2_loop_short [simp]: "length xs < 4 \<Longrightarrow> MurmurHash2_loop h xs = (h, xs)"
  by (cases "(h, xs)" rule: MurmurHash2_loop.cases) auto

lemma MurmurHash2_loop_left: "length (snd (MurmurHash2_loop h xs)) = length xs mod 4"
  by (induction h xs rule: MurmurHash2_loop.induct) (auto simp: mod_Suc)

subsection \<open>The endian-neutral variant\<close>

lemma MurmurHashNeutral2_loop_eq: "MurmurHashNeutral2_loop h xs = MurmurHash2_loop h xs"
  by (induction h xs rule: MurmurHashNeutral2_loop.induct)
    (simp_all add: Let_def byte32_alt push_bit_or or.assoc)

subsection \<open>The aligned variant\<close>

text \<open>What remains of \<open>MurmurHash2\<close> once \<open>h\<close> is known: the rest of the blocks and the tail.\<close>

definition mm_rest :: "u32 \<Rightarrow> string \<Rightarrow> u32" where
  "mm_rest h xs = (let (h1, data) = MurmurHash2_loop h xs in MurmurHash2_tail h1 data)"

lemma mm_rest_block: "length xs = 4 \<Longrightarrow> mm_rest h (xs @ ys) = mm_rest (mmix h (of_le_bytes xs)) ys"
  by (simp add: mm_rest_def MurmurHash2_loop_append4)

lemma mm_rest_tail: "length xs < 4 \<Longrightarrow> mm_rest h xs = MurmurHash2_tail h xs"
  by (simp add: mm_rest_def)

text \<open>
  The loop carries \<open>4 - align\<close> pending bytes \<open>p\<close> in the upper part of \<open>t\<close>; it keeps the
  value of what is still to be hashed.
\<close>

lemma MurmurHashAligned2_loop_inv:
  assumes "0 < align" "align < 4"
  shows "length p = 4 - align \<Longrightarrow> drop_bit (8 * align) t = of_le_bytes p \<Longrightarrow>
    MurmurHashAligned2_loop align h t data = (h', t', data') \<Longrightarrow>
    \<exists>p'. length p' = 4 - align \<and> drop_bit (8 * align) t' = of_le_bytes p' \<and>
      length data' < 4 \<and> mm_rest h (p @ data) = mm_rest h' (p' @ data')"
  using assms
proof (induction align h t data arbitrary: p rule: MurmurHashAligned2_loop.induct)
  case (1 align h t a b c e data)
  define xs where "xs = [a, b, c, e]"
  have len: "length xs = 4" and split: "a # b # c # e # data = xs @ data"
    by (simp_all add: xs_def)
  let ?w = "p @ take align xs" and ?d = "of_le_bytes xs :: u32"
  have t: "drop_bit (8 * align) t OR push_bit (8 * (4 - align)) ?d = of_le_bytes ?w"
    using push_bit_of_le_bytes_take [of align xs] len 1(2,3,6) by (simp add: of_le_bytes_append)
  have d: "drop_bit (8 * align) ?d = of_le_bytes (drop align xs)"
    by (rule drop_bit_of_le_bytes) (simp add: len)
  have w: "length ?w = 4" using 1(2,6) len by simp
  have "mm_rest h (p @ xs @ data) = mm_rest h (?w @ drop align xs @ data)"
    by (simp add: append_assoc [symmetric] del: append_assoc) simp
  also have "\<dots> = mm_rest (mmix h (of_le_bytes ?w)) (drop align xs @ data)" using w by (rule mm_rest_block)
  finally have step: "mm_rest h (p @ xs @ data) = \<dots>" .
  have loop: "MurmurHashAligned2_loop align (mmix h (of_le_bytes ?w)) ?d data = (h', t', data')"
    using 1(4) by (simp only: MurmurHashAligned2_loop.simps(1) Let_def xs_def [symmetric] t)
  show ?case
    using 1(1) [OF refl refl, folded xs_def, unfolded t, OF _ d loop 1(5) 1(6)] len
    by (simp only: split step length_drop)
qed auto

lemma MurmurHash2_mm_rest: "MurmurHash2 key seed = mm_final (mm_rest (seed XOR of_nat (length key)) key)"
  by (simp add: MurmurHash2_def mm_rest_def split: prod.split)

lemma drop_push_load:
  assumes "0 < align" "align < 4" "length p = 4 - align"
  shows "drop_bit (8 * align) (push_bit (8 * align) (of_le_bytes p :: u32)) = of_le_bytes p"
proof (rule bit_word_eqI)
  fix n
  have "n + 8 * align < 32" if "bit (of_le_bytes p :: u32) n"
    using of_le_bytes_bound [OF that] assms by simp
  then show "bit (drop_bit (8 * align) (push_bit (8 * align) (of_le_bytes p :: u32))) n
      = bit (of_le_bytes p :: u32) n"
    by (auto simp: bit_simps add.commute)
qed

text \<open>The last block of the aligned version, once fewer than four bytes are left.\<close>

lemma MurmurHashAligned2_finish:
  assumes "0 < align" "align < 4" "length p = 4 - align" "drop_bit (8 * align) t = of_le_bytes p"
    "length data < 4"
  shows "(if align \<le> length data then
       MurmurHash2_tail (mmix h (drop_bit (8 * align) t OR push_bit (8 * (4 - align)) (load_or (take align data))))
         (drop align data)
     else (h XOR (drop_bit (8 * align) t OR push_bit (8 * (4 - align)) (load_or data))) * mm_m)
     = mm_rest h (p @ data)"
proof (cases "align \<le> length data")
  case True
  let ?w = "p @ take align data"
  have w: "length ?w = 4" using True assms by simp
  have "mm_rest h (p @ data) = mm_rest h (?w @ drop align data)" by simp
  also have "\<dots> = mm_rest (mmix h (of_le_bytes ?w)) (drop align data)" using w by (rule mm_rest_block)
  also have "\<dots> = MurmurHash2_tail (mmix h (of_le_bytes ?w)) (drop align data)"
    using assms by (simp add: mm_rest_tail)
  also have "of_le_bytes ?w =
      drop_bit (8 * align) t OR push_bit (8 * (4 - align)) (load_or (take align data))"
    using assms by (simp add: of_le_bytes_append load_or_eq)
  finally show ?thesis using True by simp
next
  case False
  have "mm_rest h (p @ data) = (h XOR of_le_bytes (p @ data)) * mm_m"
  proof -
    have "p @ data \<noteq> []" "length (p @ data) < 4" using False assms by auto
    then show ?thesis by (metis mm_rest_tail MurmurHash2_tail_eq)
  qed
  then show ?thesis using False assms by (simp add: of_le_bytes_append load_or_eq)
qed

lemma MurmurHashAligned2_unaligned:
  assumes "0 < align" "align < 4" "4 \<le> length key"
  shows "MurmurHashAligned2 align key seed = MurmurHash2 key seed"
proof -
  let ?h = "seed XOR of_nat (length key)" and ?p = "take (4 - align) key"
  let ?t = "push_bit (8 * align) (load_or ?p)"
  obtain h' t' data' where loop:
    "MurmurHashAligned2_loop align ?h ?t (drop (4 - align) key) = (h', t', data')"
    by (metis prod_cases3)
  have len: "length ?p = 4 - align" and lo: "load_or ?p = of_le_bytes ?p"
    using assms by (simp_all add: load_or_eq)
  obtain p' where p': "length p' = 4 - align" "drop_bit (8 * align) t' = of_le_bytes p'"
      "length data' < 4" "mm_rest ?h (?p @ drop (4 - align) key) = mm_rest h' (p' @ data')"
    using MurmurHashAligned2_loop_inv [OF assms(1,2) len _ loop] drop_push_load [OF assms(1,2) len] lo
    by (auto simp only:)
  have "MurmurHash2 key seed = mm_final (mm_rest h' (p' @ data'))"
    using p'(4) by (simp add: MurmurHash2_mm_rest)
  then show ?thesis
    using MurmurHashAligned2_finish [OF assms(1,2) p'(1-3), of h'] assms loop
    by (simp add: MurmurHashAligned2_def Let_def split: if_splits)
qed

lemma MurmurHashAligned2_other:
  "align = 0 \<or> length key < 4 \<Longrightarrow> MurmurHashAligned2 align key seed = MurmurHash2 key seed"
  by (auto simp: MurmurHashAligned2_def MurmurHash2_def)

lemma Murmur_variants:
  assumes "align < 4"
  shows "MurmurHashAligned2 align key seed = MurmurHash2 key seed"
    and "MurmurHashNeutral2 key seed = MurmurHash2 key seed"
proof -
  show "MurmurHashAligned2 align key seed = MurmurHash2 key seed"
    using MurmurHashAligned2_unaligned [OF _ assms] MurmurHashAligned2_other
    by (cases "align = 0 \<or> length key < 4") auto
  show "MurmurHashNeutral2 key seed = MurmurHash2 key seed"
    by (simp add: MurmurHashNeutral2_def MurmurHash2_def MurmurHashNeutral2_loop_eq)
qed

subsection \<open>The incremental hasher\<close>

text \<open>The state the hasher must be in after the bytes \<open>bs\<close>.\<close>

definition hashed :: "u32 \<Rightarrow> string \<Rightarrow> CMurmurHash2A" where
  "hashed seed bs =
     (let (h, left) = MurmurHash2_loop seed bs
      in \<lparr>m_hash = h, m_tail = of_le_bytes left, m_count = length left, m_size = of_nat (length bs)\<rparr>)"

lemma MurmurHash2_loop_append:
  "MurmurHash2_loop h (xs @ ys) = (let (h1, left) = MurmurHash2_loop h xs in MurmurHash2_loop h1 (left @ ys))"
  by (induction h xs rule: MurmurHash2_loop.induct) (simp_all)

lemma MurmurHash2_loop_snd_lt: "MurmurHash2_loop h xs = (h1, left) \<Longrightarrow> length left < 4"
  using MurmurHash2_loop_left [of h xs] by simp

text \<open>
  What \<open>MixTail\<close> does to a state that has hashed \<open>h\<close> with the bytes \<open>left\<close> pending: it
  goes on with a prefix of the data, and leaves data over only when nothing is pending.
\<close>

lemma MixTail_state:
  assumes "length left < 4" "m_tail s = of_le_bytes left" "m_count s = length left"
  shows "\<exists>pre left'. data = pre @ snd (CMurmurHash2A_MixTail s data) \<and>
    MurmurHash2_loop (m_hash s) (left @ pre) = (m_hash (fst (CMurmurHash2A_MixTail s data)), left') \<and>
    m_tail (fst (CMurmurHash2A_MixTail s data)) = of_le_bytes left' \<and>
    m_count (fst (CMurmurHash2A_MixTail s data)) = length left' \<and>
    m_size (fst (CMurmurHash2A_MixTail s data)) = m_size s \<and>
    (snd (CMurmurHash2A_MixTail s data) \<noteq> [] \<longrightarrow> left' = [])"
  using assms
proof (induction s data arbitrary: left rule: CMurmurHash2A_MixTail.induct)
  case (1 s)
  then show ?case by auto
next
  case (2 s c data)
  let ?l = "left @ [c]"
  let ?t = "m_tail s OR push_bit (m_count s * 8) (byte32 c)"
  have t: "?t = of_le_bytes ?l" using 2(4,5) by (simp add: of_le_bytes_append mult.commute byte32_def)
  consider (go) "length (c # data) < 4 \<or> m_count s \<noteq> 0" "length ?l = 4"
    | (more) "length (c # data) < 4 \<or> m_count s \<noteq> 0" "length ?l < 4"
    | (stop) "\<not> (length (c # data) < 4 \<or> m_count s \<noteq> 0)"
    using 2(3) by fastforce
  then show ?case
  proof cases
    case go
    let ?s = "s\<lparr>m_hash := mmix (m_hash s) ?t, m_tail := 0, m_count := 0\<rparr>"
    have eq: "CMurmurHash2A_MixTail s (c # data) = CMurmurHash2A_MixTail ?s data"
      using go 2(5) by (simp add: Let_def)
    have "m_count s + 1 = 4" using go 2(5) by simp
    from 2(1) [OF go(1) refl refl this, of "[]"] obtain pre left' where
      *: "data = pre @ snd (CMurmurHash2A_MixTail ?s data)"
        "MurmurHash2_loop (mmix (m_hash s) ?t) pre = (m_hash (fst (CMurmurHash2A_MixTail ?s data)), left')"
        "m_tail (fst (CMurmurHash2A_MixTail ?s data)) = of_le_bytes left'"
        "m_count (fst (CMurmurHash2A_MixTail ?s data)) = length left'"
        "m_size (fst (CMurmurHash2A_MixTail ?s data)) = m_size s"
        "snd (CMurmurHash2A_MixTail ?s data) \<noteq> [] \<longrightarrow> left' = []"
      by auto
    have "MurmurHash2_loop (m_hash s) (left @ c # pre) = MurmurHash2_loop (mmix (m_hash s) ?t) pre"
      using MurmurHash2_loop_append4 [OF go(2), of "m_hash s" pre] t by simp
    with * eq show ?thesis by (intro exI [of _ "c # pre"] exI [of _ left']) simp
  next
    case more
    let ?s = "s\<lparr>m_tail := ?t, m_count := m_count s + 1\<rparr>"
    have ne: "m_count s + 1 \<noteq> 4" using more 2(5) by simp
    have eq: "CMurmurHash2A_MixTail s (c # data) = CMurmurHash2A_MixTail ?s data"
      using more ne by (simp add: Let_def)
    from 2(2) [OF more(1) refl refl ne, of ?l] more 2(5) t obtain pre left' where
      *: "data = pre @ snd (CMurmurHash2A_MixTail ?s data)"
        "MurmurHash2_loop (m_hash s) (?l @ pre) = (m_hash (fst (CMurmurHash2A_MixTail ?s data)), left')"
        "m_tail (fst (CMurmurHash2A_MixTail ?s data)) = of_le_bytes left'"
        "m_count (fst (CMurmurHash2A_MixTail ?s data)) = length left'"
        "m_size (fst (CMurmurHash2A_MixTail ?s data)) = m_size s"
        "snd (CMurmurHash2A_MixTail ?s data) \<noteq> [] \<longrightarrow> left' = []"
      by auto
    from * eq show ?thesis by (intro exI [of _ "c # pre"] exI [of _ left']) simp
  next
    case stop
    then have eq: "CMurmurHash2A_MixTail s (c # data) = (s, c # data)" by simp
    from stop 2(5) have "left = []" by simp
    then show ?thesis using eq 2(4,5) by (intro exI [of _ "[]"]) simp
  qed
qed

lemma MixTail_short: "length data < 4 \<Longrightarrow> snd (CMurmurHash2A_MixTail s data) = []"
  by (induction s data rule: CMurmurHash2A_MixTail.induct) (simp_all add: Let_def)

lemma CMurmurHash2A_Add_hashed: "CMurmurHash2A_Add (hashed seed bs) d = hashed seed (bs @ d)"
proof -
  obtain h0 left where h0: "MurmurHash2_loop seed bs = (h0, left)" by fastforce
  define s1 where "s1 = \<lparr>m_hash = h0, m_tail = of_le_bytes left, m_count = length left,
    m_size = of_nat (length bs) + of_nat (length d)\<rparr>"
  obtain s2 data1 where s2: "CMurmurHash2A_MixTail s1 d = (s2, data1)" by fastforce
  obtain pre left1 where pre: "d = pre @ data1" "MurmurHash2_loop h0 (left @ pre) = (m_hash s2, left1)"
      "m_tail s2 = of_le_bytes left1" "m_count s2 = length left1" "m_size s2 = m_size s1"
      "data1 \<noteq> [] \<longrightarrow> left1 = []"
  proof -
    have "m_tail s1 = of_le_bytes left" "m_count s1 = length left" "m_hash s1 = h0" by (simp_all add: s1_def)
    with MixTail_state [of left s1 d, unfolded s2] MurmurHash2_loop_snd_lt [OF h0] that
    show thesis by auto
  qed
  obtain h data2 where h: "MurmurHash2_loop (m_hash s2) data1 = (h, data2)" by fastforce
  define s3 where "s3 = s2\<lparr>m_hash := h\<rparr>"
  have add: "CMurmurHash2A_Add (hashed seed bs) d = fst (CMurmurHash2A_MixTail s3 data2)"
    using h0 s2 h by (simp add: CMurmurHash2A_Add_def hashed_def s1_def s3_def)
  have "MurmurHash2_loop seed (bs @ d) = MurmurHash2_loop h0 ((left @ pre) @ data1)"
    using h0 pre(1) by (simp add: MurmurHash2_loop_append [of seed])
  also have "\<dots> = MurmurHash2_loop (m_hash s2) (left1 @ data1)"
    by (simp only: MurmurHash2_loop_append [of h0 "left @ pre" data1] pre(2)) simp
  finally have loop: "MurmurHash2_loop seed (bs @ d) = \<dots>" .
  have size: "m_size s2 = of_nat (length (bs @ d))" using pre(5) by (simp add: s1_def)
  show ?thesis
  proof (cases "data1 = []")
    case True
    have "length left1 < 4" using pre(2) by (rule MurmurHash2_loop_snd_lt)
    then have "hashed seed (bs @ d) = s2" using True loop pre(3,4) size by (simp add: hashed_def)
    then show ?thesis using True h add by (simp add: s3_def)
  next
    case False
    then have left1: "left1 = []" using pre(6) by simp
    have short: "length data2 < 4" using h by (rule MurmurHash2_loop_snd_lt)
    have "\<exists>left'. MurmurHash2_loop h data2 = (m_hash (fst (CMurmurHash2A_MixTail s3 data2)), left') \<and>
        m_tail (fst (CMurmurHash2A_MixTail s3 data2)) = of_le_bytes left' \<and>
        m_count (fst (CMurmurHash2A_MixTail s3 data2)) = length left' \<and>
        m_size (fst (CMurmurHash2A_MixTail s3 data2)) = m_size s2"
      using MixTail_state [of "[]" s3 data2] MixTail_short [OF short, of s3] pre(3,4) left1
      by (auto simp: s3_def)
    then show ?thesis using short loop left1 h size add by (auto simp: hashed_def)
  qed
qed

lemma hashed_Nil: "CMurmurHash2A_Begin seed = hashed seed []"
  by (simp add: CMurmurHash2A_Begin_def hashed_def)

lemma CMurmurHash2A_End_hashed: "fst (CMurmurHash2A_End (hashed seed bs)) = MurmurHash2A bs seed"
  using MurmurHash2_loop_snd_lt
  by (auto simp: CMurmurHash2A_End_def Let_def hashed_def MurmurHash2A_def MurmurHash2A_tail_eq split: prod.split)

text \<open>The hasher consumes its input as a stream: only the concatenation counts.\<close>

interpretation hasher: stream_consumer
  "\<lambda>s d. Some (CMurmurHash2A_Add s d)" "\<lambda>s. \<exists>seed bs. s = hashed seed bs"
  by unfold_locales (auto simp: CMurmurHash2A_Add_hashed, metis)

subsection \<open>MurmurHash64A\<close>

text \<open>Multiplication by the odd constant and the shift by 47 are invertible.\<close>

lemma mm_m64_mult_inj [simp]: "a * mm_m64 = b * mm_m64 \<longleftrightarrow> a = (b :: u64)"
proof
  assume "a * mm_m64 = b * mm_m64"
  then have "a * (mm_m64 * 0x5f7a0ea7e59b19bd) = b * (mm_m64 * 0x5f7a0ea7e59b19bd)"
    by (simp only: mult.assoc [symmetric])
  moreover have "mm_m64 * 0x5f7a0ea7e59b19bd = 1" by (simp add: mm_m64_def)
  ultimately show "a = b" by simp
qed simp

lemma xorshift47: "(x XOR drop_bit 47 x) XOR drop_bit 47 (x XOR drop_bit 47 x) = (x :: u64)"
proof -
  have "drop_bit 47 (drop_bit 47 x) = 0"
    by (rule bit_word_eqI) (simp add: drop_bit_drop_bit bit_simps)
  then show ?thesis by (simp add: drop_bit_xor xor.assoc)
qed

lemma xorshift47_inj [simp]: "x XOR drop_bit 47 x = y XOR drop_bit 47 y \<longleftrightarrow> x = (y :: u64)"
proof
  assume eq: "x XOR drop_bit 47 x = y XOR drop_bit 47 y"
  have "x = (x XOR drop_bit 47 x) XOR drop_bit 47 (x XOR drop_bit 47 x)" by (simp only: xorshift47)
  also have "\<dots> = y" by (simp only: eq xorshift47)
  finally show "x = y" .
qed simp

lemma xor_left_cancel [simp]: "h XOR a = h XOR b \<longleftrightarrow> a = (b :: u64)"
proof
  assume "h XOR a = h XOR b"
  then have "h XOR (h XOR a) = h XOR (h XOR b)" by (simp only:)
  then show "a = b" by (simp add: xor.assoc [symmetric])
qed simp

lemma xor_right_cancel [simp]: "a XOR h = b XOR h \<longleftrightarrow> a = (b :: u64)"
  by (simp add: xor.commute [of _ h])

lemma MurmurHash64A_loop_short [simp]: "length xs < 8 \<Longrightarrow> MurmurHash64A_loop h xs = (h, xs)"
  by (cases "(h, xs)" rule: MurmurHash64A_loop.cases) auto

definition mix64 :: "u64 \<Rightarrow> u64 \<Rightarrow> u64" where
  "mix64 h k = (h XOR (k * mm_m64 XOR drop_bit 47 (k * mm_m64)) * mm_m64) * mm_m64"

lemma mix64_inj [simp]: "mix64 h k = mix64 h' k \<longleftrightarrow> h = h'" "mix64 h k = mix64 h k' \<longleftrightarrow> k = k'"
  by (simp_all add: mix64_def)

lemma of_le_bytes_inj:
  "length xs = length ys \<Longrightarrow> length xs \<le> 8 \<Longrightarrow> of_le_bytes xs = (of_le_bytes ys :: u64) \<Longrightarrow> xs = ys"
proof (induction xs ys rule: list_induct2)
  case (Cons x xs y ys)
  have bits: "bit (of_le_bytes (z # zs) :: u64) n =
      (if n < 8 then bit (byte_val z) n else bit (of_le_bytes zs :: u64) (n - 8))"
    if "length zs < 8" for z zs n
  proof -
    have "n < 64" if "bit (of_le_bytes zs :: u64) (n - 8)"
      using of_le_bytes_bound [OF that] \<open>length zs < 8\<close> by simp
    then show ?thesis using bit_of_byte [of z n, where 'a = 64]
      by (auto simp: bit_or_iff bit_push_bit_iff bit_of_nat_iff)
  qed
  have "bit (byte_val x) n = bit (byte_val y) n" for n
  proof (cases "n < 8")
    case True
    have "bit (of_le_bytes (x # xs) :: u64) n = bit (of_le_bytes (y # ys) :: u64) n"
      by (simp only: Cons.prems)
    then show ?thesis using bits [of xs x n] bits [of ys y n] True Cons by simp
  next
    case False
    have "\<not> bit (byte_val c) n" for c
      using False bit_take_bit_iff [of 8 "byte_val c" n] by (simp add: take_bit_nat_eq_self)
    then show ?thesis by simp
  qed
  then have "x = y" by (simp add: bit_eq_iff byte_val_eq_iff [symmetric])
  have "bit (of_le_bytes xs :: u64) n = bit (of_le_bytes ys :: u64) n" for n
  proof -
    have "bit (of_le_bytes (x # xs) :: u64) (n + 8) = bit (of_le_bytes (y # ys) :: u64) (n + 8)"
      by (simp only: Cons.prems)
    then show ?thesis using bits [of xs x "n + 8"] bits [of ys y "n + 8"] Cons by simp
  qed
  then have "xs = ys" using Cons by (simp add: bit_eq_iff)
  with \<open>x = y\<close> show ?case by simp
qed simp

lemma MurmurHash64A_loop_block:
  "length xs = 8 \<Longrightarrow> MurmurHash64A_loop h (xs @ ys) = MurmurHash64A_loop (mix64 h (of_le_bytes xs)) ys"
proof -
  assume "length xs = 8"
  then obtain a b c d e f g i where xs: "xs = [a, b, c, d, e, f, g, i]"
    by (auto simp: length_Suc_conv numeral_eq_Suc)
  show ?thesis by (simp only: xs append_Cons append_Nil MurmurHash64A_loop.simps(1) Let_def mix64_def)
qed

lemma block_split: "8 \<le> length xs \<Longrightarrow> \<exists>b rest. xs = b @ rest \<and> length b = 8"
  by (intro exI [of _ "take 8 xs"] exI [of _ "drop 8 xs"]) simp

lemma MurmurHash64A_loop_append:
  "length xs = 8 * k \<Longrightarrow> \<exists>h'. \<forall>ys. MurmurHash64A_loop h (xs @ ys) = MurmurHash64A_loop h' ys"
proof (induction k arbitrary: h xs)
  case (Suc k)
  from block_split [of xs] Suc.prems obtain b rest where b: "xs = b @ rest" "length b = 8" by auto
  with Suc.prems Suc.IH [of rest "mix64 h (of_le_bytes b)"] show ?case
    by (simp add: MurmurHash64A_loop_block)
qed auto

lemma MurmurHash64A_loop_inj:
  "\<exists>h1 h1' d. MurmurHash64A_loop h xs = (h1, d) \<and> MurmurHash64A_loop h' xs = (h1', d) \<and> (h1 = h1' \<longleftrightarrow> h = h')"
proof (induction "length xs" arbitrary: h h' xs rule: less_induct)
  case less
  show ?case
  proof (cases "length xs < 8")
    case False
    then obtain b rest where b: "xs = b @ rest" "length b = 8" using block_split [of xs] by auto
    with less [of rest "mix64 h (of_le_bytes b)" "mix64 h' (of_le_bytes b)"] show ?thesis
      by (simp add: MurmurHash64A_loop_block)
  qed simp
qed

definition fin64 :: "u64 \<Rightarrow> u64" where
  "fin64 h = (let h3 = h XOR drop_bit 47 h; h4 = h3 * mm_m64 in h4 XOR drop_bit 47 h4)"

lemma fin64_inj [simp]: "fin64 h = fin64 h' \<longleftrightarrow> h = h'"
  by (simp add: fin64_def Let_def)

lemma MurmurHash64A_fin64:
  "MurmurHash64A key seed = fin64 (let (h, d) = MurmurHash64A_loop (seed XOR of_nat (length key) * mm_m64) key
     in MurmurHash64A_tail h d)"
  by (simp add: MurmurHash64A_def fin64_def Let_def split: prod.split)

lemma MurmurHash64A_xors_eq:
  "MurmurHash64A_xors h i cs = h XOR push_bit (8 * i) (of_le_bytes cs)"
proof (induction cs arbitrary: i)
  case (Cons c cs)
  have "of_nat (byte_val c) OR push_bit 8 (of_le_bytes cs) = byte64 c XOR push_bit 8 (of_le_bytes cs)"
    unfolding byte64_def by (rule bit_word_eqI) (auto simp: bit_or_iff bit_xor_iff bit_push_bit_iff dest: bit_of_byte)
  then show ?case using Cons by (simp add: push_bit_xor algebra_simps xor.assoc xor.commute xor.left_commute)
qed simp

lemma MurmurHash64A_tail_eq: "MurmurHash64A_tail h d = (if d = [] then h else (h XOR of_le_bytes d) * mm_m64)"
  by (simp add: MurmurHash64A_tail_def MurmurHash64A_xors_eq)

lemma MurmurHash64A_tail_inj: "MurmurHash64A_tail h d = MurmurHash64A_tail h' d \<longleftrightarrow> h = h'"
  by (simp add: MurmurHash64A_tail_eq)

text \<open>A change confined to one aligned block, or to the left-over bytes, changes the hash.\<close>

lemma MurmurHash64A_block_change:
  assumes "length b = length b'" "b \<noteq> b'" "8 dvd length pre" "length b = 8 \<or> length b < 8 \<and> suf = []"
  shows "MurmurHash64A (pre @ b @ suf) seed \<noteq> MurmurHash64A (pre @ b' @ suf) seed"
proof -
  let ?n = "length (pre @ b @ suf)"
  let ?h = "seed XOR of_nat ?n * mm_m64"
  obtain k where "length pre = 8 * k" using assms(3) by (auto simp: dvd_def)
  then obtain g where g: "\<And>ys. MurmurHash64A_loop ?h (pre @ ys) = MurmurHash64A_loop g ys"
    using MurmurHash64A_loop_append by blast
  have hash: "MurmurHash64A (pre @ z @ suf) seed = fin64 (let (h, d) = MurmurHash64A_loop g (z @ suf)
      in MurmurHash64A_tail h d)" if "length z = length b" for z
    using that g [of "z @ suf"] by (simp add: MurmurHash64A_fin64)
  have ne: "of_le_bytes b \<noteq> (of_le_bytes b' :: u64)" using of_le_bytes_inj [of b b'] assms by auto
  from assms(4) show ?thesis
  proof
    assume len: "length b = 8"
    from MurmurHash64A_loop_inj [of "mix64 g (of_le_bytes b)" suf "mix64 g (of_le_bytes b')"] ne
    obtain h1 h1' d where "MurmurHash64A_loop g (b @ suf) = (h1, d)"
      "MurmurHash64A_loop g (b' @ suf) = (h1', d)" "h1 \<noteq> h1'"
      using len assms(1) by (auto simp: MurmurHash64A_loop_block)
    then show ?thesis using hash [of b] hash [of b'] assms(1) by (simp add: MurmurHash64A_tail_inj)
  next
    assume "length b < 8 \<and> suf = []"
    then show ?thesis using hash [of b] hash [of b'] assms(1,2) ne
      by (auto simp: MurmurHash64A_tail_eq)
  qed
qed

section \<open>Properties\<close>

text \<open>
  C29: The four ways of computing the 32-bit hash agree: the aligned-read version, at every
  alignment of the key in memory, and the endian-neutral version return what
  \<open>MurmurHash2\<close> returns.
\<close>

theorem murmur_variants_agree:
  "MurmurHashAligned2 (addr mod 4) key seed = MurmurHash2 key seed \<and>
   MurmurHashNeutral2 key seed = MurmurHash2 key seed"
  using Murmur_variants [of "addr mod 4"] by simp

text \<open>
  C28: The incremental hasher returns \<open>MurmurHash2A\<close> of everything it was given, however
  the data was cut into calls of \<open>Add\<close>.
\<close>

theorem murmur_incremental:
  "fst (CMurmurHash2A_End (fold (\<lambda>d s. CMurmurHash2A_Add s d) ds (CMurmurHash2A_Begin seed))) =
   MurmurHash2A (concat ds) seed"
proof (cases ds)
  case (Cons d ds')
  have "Some (fold (\<lambda>d s. CMurmurHash2A_Add s d) ds (hashed seed [])) =
      Some (CMurmurHash2A_Add (hashed seed []) (concat ds))"
    using hasher.feed_all_concat [of "hashed seed []" d ds'] Cons by (auto simp: feed_all_total)
  then show ?thesis by (simp add: hashed_Nil CMurmurHash2A_Add_hashed CMurmurHash2A_End_hashed)
qed (simp add: hashed_Nil CMurmurHash2A_End_hashed)

text \<open>
  \<open>MurmurHash64A\<close>, the hash of the ETag cache, separates two keys of the same length
  that differ only inside one aligned eight-byte block, or only in the last bytes after the
  last full block. In particular it has no collisions among keys of one length up to eight.
\<close>

theorem murmur64A_block_change:
  assumes "length b = length b'" "b \<noteq> b'" "8 dvd length pre" "length b = 8 \<or> length b < 8 \<and> suf = []"
  shows "MurmurHash64A (pre @ b @ suf) seed \<noteq> MurmurHash64A (pre @ b' @ suf) seed"
  using assms by (rule MurmurHash64A_block_change)

theorem murmur64A_block_change_witness:
  "MurmurHash64A (''/a/b/c/d'' @ ''etag'' @ []) 1 \<noteq> MurmurHash64A (''/a/b/c/d'' @ ''efag'' @ []) 1"
  by (rule murmur64A_block_change) (simp_all add: numeral_eq_Suc)

end
