(* ===== verification/Xhc_Etag.thy ===== *)
theory Xhc_Etag
  imports Xhc_Murmur
begin


text \<open>
  \<open>src/xEtagManager.cpp\<close>: the cache of entity tags. A tag is the 64-bit sum of the hash of a
  key and the time stamp of its value; \<open>EtagCache\<close> keeps the most recently used ones in a
  linked list with an index of iterators into it, and \<open>xEtagManager\<close> spreads the tags over
  several such caches.

  The list is modelled with its nodes: a node is a number and the tag it holds, and an
  iterator is the number of a node, so that using an iterator whose node was erased is the
  undefined behaviour \<^const>\<open>None\<close>. The locks only serialise the calls.

  The lemmas show that the index and the list never disagree, so that no dangling iterator
  is used, and that the cache is a least-recently-used cache of its capacity.
\<close>

section \<open>Definitions\<close>

subsection \<open>EtagCache\<close>

record EtagCache =
  capacity :: nat
  etaglist :: "(nat \<times> u64) list"
  etagmap :: "u64 \<rightharpoonup> nat"
  next_node :: nat

definition EtagCache_new :: "nat \<Rightarrow> EtagCache" where
  "EtagCache_new sz = \<lparr>capacity = sz, etaglist = [], etagmap = Map.empty, next_node = 0\<rparr>"

definition EtagCache_SetSize :: "nat \<Rightarrow> EtagCache \<Rightarrow> EtagCache" where
  "EtagCache_SetSize sz c = c\<lparr>capacity := sz\<rparr>"

text \<open>\<open>etaglist.splice(etaglist.begin(), etaglist, it)\<close>: the node moves to the front.\<close>

definition splice_front :: "nat \<Rightarrow> (nat \<times> 'v) list \<Rightarrow> (nat \<times> 'v) list ub" where
  "splice_front it xs =
     (case List.find (\<lambda>p. fst p = it) xs of
        None \<Rightarrow> None
      | Some node \<Rightarrow> Some (node # filter (\<lambda>p. fst p \<noteq> it) xs))"

text \<open>The branch of \<open>Get\<close> and \<open>Set\<close> for a tag that is there.\<close>

definition EtagCache_touch :: "u64 \<Rightarrow> nat \<Rightarrow> EtagCache \<Rightarrow> EtagCache ub" where
  "EtagCache_touch etagkey it c = do {
     xs \<leftarrow> splice_front it (etaglist c);
     Some (c\<lparr>etaglist := xs, etagmap := (etagmap c)(etagkey \<mapsto> fst (hd xs))\<rparr>)
   }"

text \<open>\<open>back\<close> and \<open>pop_back\<close> are undefined on an empty list.\<close>

definition EtagCache_evict :: "EtagCache \<Rightarrow> EtagCache ub" where
  "EtagCache_evict c =
     (if length (etaglist c) = capacity c then
        if etaglist c = [] then None
        else Some (c\<lparr>etagmap := (etagmap c)(snd (last (etaglist c)) := None),
                     etaglist := butlast (etaglist c)\<rparr>)
      else Some c)"

definition EtagCache_Set :: "u64 \<Rightarrow> EtagCache \<Rightarrow> EtagCache ub" where
  "EtagCache_Set etagkey c =
     (case etagmap c etagkey of
        None \<Rightarrow> do {
          c \<leftarrow> EtagCache_evict c;
          Some (c\<lparr>etaglist := (next_node c, etagkey) # etaglist c,
                  etagmap := (etagmap c)(etagkey \<mapsto> next_node c),
                  next_node := next_node c + 1\<rparr>)
        }
      | Some it \<Rightarrow> EtagCache_touch etagkey it c)"

definition EtagCache_Get :: "u64 \<Rightarrow> EtagCache \<Rightarrow> (bool \<times> EtagCache) ub" where
  "EtagCache_Get etagkey c =
     (case etagmap c etagkey of
        None \<Rightarrow> Some (False, c)
      | Some it \<Rightarrow> do { c \<leftarrow> EtagCache_touch etagkey it c; Some (True, c) })"

subsection \<open>xEtagManager\<close>

definition MURMUR_SEED :: u64 where "MURMUR_SEED = 0xEE6B27EB"

record xEtagManager =
  get_hit :: u32
  total_times :: u32
  count :: nat
  etag_cache :: "EtagCache list"

definition xEtagManager_new :: xEtagManager where
  "xEtagManager_new = \<lparr>get_hit = 0, total_times = 0, count = 0, etag_cache = []\<rparr>"

definition xEtagManager_Init :: "nat \<Rightarrow> nat \<Rightarrow> xEtagManager \<Rightarrow> xEtagManager" where
  "xEtagManager_Init cnt sz m =
     m\<lparr>count := cnt, etag_cache := map (EtagCache_SetSize sz) (replicate cnt (EtagCache_new 0))\<rparr>"

definition etag_hashkey :: "string \<Rightarrow> u64 \<Rightarrow> u64" where
  "etag_hashkey key timestamp = MurmurHash64A key MURMUR_SEED + timestamp"

text \<open>
  \<open>int cache_index = hashkey % count\<close>, and the access \<open>etag_cache[cache_index]\<close>: a count of
  zero or an index outside of the array is undefined.
\<close>

definition etag_index :: "u64 \<Rightarrow> xEtagManager \<Rightarrow> nat ub" where
  "etag_index hashkey m =
     (if count m = 0 then None
      else let cache_index = wrap32 (int (unat hashkey mod count m))
           in if 0 \<le> cache_index \<and> cache_index < int (length (etag_cache m))
              then Some (nat cache_index) else None)"

definition xEtagManager_GetKey :: "string \<Rightarrow> u64 \<Rightarrow> xEtagManager \<Rightarrow> (bool \<times> xEtagManager) ub" where
  "xEtagManager_GetKey key timestamp m = do {
     let hashkey = etag_hashkey key timestamp;
     i \<leftarrow> etag_index hashkey m;
     let m = m\<lparr>total_times := total_times m + 1\<rparr>;
     (bRet, c) \<leftarrow> EtagCache_Get hashkey (etag_cache m ! i);
     let m = m\<lparr>etag_cache := (etag_cache m)[i := c]\<rparr>;
     Some (bRet, if bRet then m\<lparr>get_hit := get_hit m + 1\<rparr> else m)
   }"

definition xEtagManager_SetKey :: "string \<Rightarrow> u64 \<Rightarrow> xEtagManager \<Rightarrow> xEtagManager ub" where
  "xEtagManager_SetKey key timestamp m = do {
     let hashkey = etag_hashkey key timestamp;
     i \<leftarrow> etag_index hashkey m;
     c \<leftarrow> EtagCache_Set hashkey (etag_cache m ! i);
     Some (m\<lparr>etag_cache := (etag_cache m)[i := c]\<rparr>)
   }"

text \<open>An integer division, whose result is then converted to \<open>float\<close>.\<close>

definition xEtagManager_GetHitRate :: "xEtagManager \<Rightarrow> nat" where
  "xEtagManager_GetHitRate m =
     (if total_times m = 0 then 0 else unat (get_hit m div total_times m))"

section \<open>The least-recently-used list\<close>

definition lru_touch :: "'k \<Rightarrow> 'k list \<Rightarrow> 'k list" where
  "lru_touch k xs = k # removeAll k xs"

definition lru_set :: "nat \<Rightarrow> 'k \<Rightarrow> 'k list \<Rightarrow> 'k list" where
  "lru_set cap k xs = (if k \<in> set xs then lru_touch k xs else k # take (cap - 1) xs)"

definition lru_get :: "'k \<Rightarrow> 'k list \<Rightarrow> 'k list" where
  "lru_get k xs = (if k \<in> set xs then lru_touch k xs else xs)"

datatype 'k lru_op = LGet 'k | LSet 'k

primrec op_key :: "'k lru_op \<Rightarrow> 'k" where
  "op_key (LGet k) = k"
| "op_key (LSet k) = k"

primrec lru_exec :: "nat \<Rightarrow> 'k lru_op \<Rightarrow> 'k list \<Rightarrow> 'k list" where
  "lru_exec cap (LGet k) xs = lru_get k xs"
| "lru_exec cap (LSet k) xs = lru_set cap k xs"

text \<open>
  How far down the list a key can be: every key above it has been used since.
\<close>

lemma lru_exec_above:
  assumes "distinct xs" "xs = us @ k # vs" "set us \<subseteq> S" "finite S" "k \<notin> S" "card S < cap"
    "op_key op = k \<or> op_key op \<in> S"
  shows "\<exists>us vs. lru_exec cap op xs = us @ k # vs \<and> set us \<subseteq> S"
proof -
  have len: "length us < cap"
    using card_mono [OF assms(4,3)] distinct_card [of us] assms(1,2,6) by auto
  have touch_other: "\<exists>us' vs'. lru_touch j xs = us' @ k # vs' \<and> set us' \<subseteq> S" if "j \<in> S" for j
    using that assms by (intro exI [of _ "j # removeAll j us"] exI [of _ "removeAll j vs"])
      (auto simp: lru_touch_def)
  have touch_self: "\<exists>us' vs'. lru_touch k xs = us' @ k # vs' \<and> set us' \<subseteq> S"
    by (intro exI [of _ "[]"] exI [of _ "removeAll k xs"]) (auto simp: lru_touch_def)
  have keep: "\<exists>us' vs'. xs = us' @ k # vs' \<and> set us' \<subseteq> S" using assms by auto
  have add: "\<exists>us' vs'. j # take (cap - 1) xs = us' @ k # vs' \<and> set us' \<subseteq> S" if "j \<in> S" "j \<notin> set xs" for j
  proof -
    have "length us < cap - 1"
    proof -
      have "card (insert j (set us)) \<le> card S" using that assms(3,4) by (intro card_mono) auto
      moreover have "card (insert j (set us)) = Suc (length us)"
        using that assms(1,2) distinct_card [of us] by auto
      ultimately show ?thesis using assms(6) by simp
    qed
    then show ?thesis using that assms
      by (intro exI [of _ "j # us"] exI [of _ "take (cap - 1 - length us - 1) vs"])
        (auto simp: take_Cons')
  qed
  have k: "k \<in> set xs" using assms(2) by simp
  show ?thesis
    using assms(7) touch_other touch_self keep add k
    by (cases op) (auto simp: lru_get_def lru_set_def)
qed

lemma lru_exec_distinct: "distinct xs \<Longrightarrow> distinct (lru_exec cap op xs)"
  by (cases op) (auto simp: lru_get_def lru_set_def lru_touch_def distinct_removeAll dest: in_set_takeD)

lemma lru_exec_length: "0 < cap \<Longrightarrow> length xs \<le> cap \<Longrightarrow> distinct xs \<Longrightarrow> length (lru_exec cap op xs) \<le> cap"
proof (cases op)
  case (LGet k)
  have "length (lru_touch k xs) = length xs" if "distinct xs" "k \<in> set xs"
    using that length_remove1 [of k xs] length_pos_if_in_set [of k xs]
    by (simp add: lru_touch_def distinct_remove1_removeAll [symmetric])
  then show "0 < cap \<Longrightarrow> length xs \<le> cap \<Longrightarrow> distinct xs \<Longrightarrow> length (lru_exec cap op xs) \<le> cap"
    using LGet by (auto simp: lru_get_def)
next
  case (LSet k)
  have "length (lru_touch k xs) = length xs" if "distinct xs" "k \<in> set xs"
    using that length_remove1 [of k xs] length_pos_if_in_set [of k xs]
    by (simp add: lru_touch_def distinct_remove1_removeAll [symmetric])
  then show "0 < cap \<Longrightarrow> length xs \<le> cap \<Longrightarrow> distinct xs \<Longrightarrow> length (lru_exec cap op xs) \<le> cap"
    using LSet by (auto simp: lru_set_def)
qed

lemma lru_retain:
  assumes "distinct xs" "xs = us @ k # vs" "set us \<subseteq> S" "finite S" "k \<notin> S" "card S < cap"
    "op_key ` set ops \<subseteq> insert k S"
  shows "k \<in> set (fold (lru_exec cap) ops xs)"
  using assms
proof (induction ops arbitrary: xs us vs)
  case (Cons op ops)
  have "op_key op = k \<or> op_key op \<in> S" using Cons.prems(7) by auto
  from lru_exec_above [OF Cons.prems(1-6) this] obtain us' vs'
    where "lru_exec cap op xs = us' @ k # vs'" "set us' \<subseteq> S" by blast
  with Cons.IH [OF lru_exec_distinct [OF Cons.prems(1)]] Cons.prems(4-7) show ?case by simp
qed simp

lemma lru_members: "set (fold (lru_exec cap) ops xs) \<subseteq> set xs \<union> {k. LSet k \<in> set ops}"
proof (induction ops arbitrary: xs)
  case (Cons op ops)
  have "set (lru_exec cap op xs) \<subseteq> set xs \<union> {k. LSet k = op}"
    by (cases op) (auto simp: lru_get_def lru_set_def lru_touch_def dest: in_set_takeD)
  with Cons.IH [of "lru_exec cap op xs"] show ?case by auto
qed simp

text \<open>Running operations on a cache.\<close>

primrec cache_exec :: "('k \<Rightarrow> 'c \<Rightarrow> (bool \<times> 'c) ub) \<Rightarrow> ('k \<Rightarrow> 'c \<Rightarrow> 'c ub) \<Rightarrow> 'k lru_op \<Rightarrow> 'c \<Rightarrow> 'c ub" where
  "cache_exec get put (LGet k) c = map_option snd (get k c)"
| "cache_exec get put (LSet k) c = put k c"

text \<open>What the manager relies on: the cache is a least-recently-used list.\<close>

locale lru_cache =
  fixes get :: "'k \<Rightarrow> 'c \<Rightarrow> (bool \<times> 'c) ub"
    and put :: "'k \<Rightarrow> 'c \<Rightarrow> 'c ub"
    and recent :: "'c \<Rightarrow> 'k list"
    and cap :: "'c \<Rightarrow> nat"
    and inv :: "'c \<Rightarrow> bool"
  assumes recent_distinct: "inv c \<Longrightarrow> distinct (recent c)"
    and recent_bound: "inv c \<Longrightarrow> length (recent c) \<le> cap c"
    and get_law: "inv c \<Longrightarrow>
      \<exists>c'. get k c = Some (k \<in> set (recent c), c') \<and> inv c' \<and> cap c' = cap c \<and> recent c' = lru_get k (recent c)"
    and put_law: "inv c \<Longrightarrow>
      \<exists>c'. put k c = Some c' \<and> inv c' \<and> cap c' = cap c \<and> recent c' = lru_set (cap c) k (recent c)"
begin

lemma exec_law:
  assumes "inv c"
  shows "\<exists>c'. cache_exec get put op c = Some c' \<and> inv c' \<and> cap c' = cap c \<and>
    recent c' = lru_exec (cap c) op (recent c)"
proof (cases op)
  case (LGet k)
  with get_law [OF assms, of k] show ?thesis by auto
next
  case (LSet k)
  with put_law [OF assms, of k] show ?thesis by auto
qed

end

section \<open>EtagCache is such a cache\<close>

definition EtagCache_inv :: "EtagCache \<Rightarrow> bool" where
  "EtagCache_inv c \<longleftrightarrow>
     0 < capacity c \<and> length (etaglist c) \<le> capacity c \<and>
     distinct (map fst (etaglist c)) \<and> distinct (map snd (etaglist c)) \<and>
     (\<forall>k n. etagmap c k = Some n \<longleftrightarrow> (n, k) \<in> set (etaglist c)) \<and>
     (\<forall>n \<in> fst ` set (etaglist c). n < next_node c)"

definition recent_tags :: "EtagCache \<Rightarrow> u64 list" where
  "recent_tags c = map snd (etaglist c)"

lemma recent_tags_mem:
  assumes "EtagCache_inv c"
  shows "k \<in> set (recent_tags c) \<longleftrightarrow> etagmap c k \<noteq> None"
proof -
  have "k \<in> set (recent_tags c) \<longleftrightarrow> (\<exists>n. (n, k) \<in> set (etaglist c))"
    by (force simp: recent_tags_def)
  also have "\<dots> \<longleftrightarrow> (\<exists>n. etagmap c k = Some n)" using assms by (simp add: EtagCache_inv_def)
  finally show ?thesis by simp
qed

lemma find_node: "distinct (map fst xs) \<Longrightarrow> (n, v) \<in> set xs \<Longrightarrow> List.find (\<lambda>p. fst p = n) xs = Some (n, v)"
  by (induction xs) (auto simp: image_iff)

lemma filter_node:
  "distinct (map fst xs) \<Longrightarrow> distinct (map snd xs) \<Longrightarrow> (n, v) \<in> set xs \<Longrightarrow>
   map snd (filter (\<lambda>p. fst p \<noteq> n) xs) = removeAll v (map snd xs)"
proof (induction xs)
  case (Cons p xs)
  show ?case
  proof (cases "p = (n, v)")
    case True
    have "filter (\<lambda>p. fst p \<noteq> n) xs = xs" "removeAll v (map snd xs) = map snd xs"
      using Cons.prems True by (auto simp: filter_id_conv image_iff removeAll_id)
    then show ?thesis using True by simp
  next
    case False
    then have "fst p \<noteq> n" "snd p \<noteq> v" "(n, v) \<in> set xs" using Cons.prems by (auto simp: image_iff)
    then show ?thesis using Cons by simp
  qed
qed simp

lemma splice_front_node:
  "distinct (map fst xs) \<Longrightarrow> (n, v) \<in> set xs \<Longrightarrow>
   splice_front n xs = Some ((n, v) # filter (\<lambda>p. fst p \<noteq> n) xs)"
  by (simp add: splice_front_def find_node)

lemmas EtagCache_invD =
  conjunct1 [OF EtagCache_inv_def [THEN iffD1]]
  conjunct1 [OF conjunct2 [OF EtagCache_inv_def [THEN iffD1]]]
  conjunct1 [OF conjunct2 [OF conjunct2 [OF EtagCache_inv_def [THEN iffD1]]]]
  conjunct1 [OF conjunct2 [OF conjunct2 [OF conjunct2 [OF EtagCache_inv_def [THEN iffD1]]]]]
  conjunct1 [OF conjunct2 [OF conjunct2 [OF conjunct2 [OF conjunct2 [OF EtagCache_inv_def [THEN iffD1]]]]]]
  conjunct2 [OF conjunct2 [OF conjunct2 [OF conjunct2 [OF conjunct2 [OF EtagCache_inv_def [THEN iffD1]]]]]]

lemma EtagCache_touch_ok:
  assumes "EtagCache_inv c" "etagmap c k = Some n"
  shows "\<exists>c'. EtagCache_touch k n c = Some c' \<and> EtagCache_inv c' \<and> capacity c' = capacity c \<and>
    recent_tags c' = lru_touch k (recent_tags c)"
proof -
  let ?xs = "etaglist c" and ?f = "filter (\<lambda>p. fst p \<noteq> n) (etaglist c)"
  note i = EtagCache_invD [OF assms(1)]
  have mem: "(n, k) \<in> set ?xs" using i(5) assms(2) by simp
  define c' where "c' = c\<lparr>etaglist := (n, k) # ?f, etagmap := (etagmap c)(k \<mapsto> n)\<rparr>"
  have proj: "etaglist c' = (n, k) # ?f" "etagmap c' = (etagmap c)(k \<mapsto> n)" "next_node c' = next_node c"
      "capacity c' = capacity c"
    by (simp_all add: c'_def)
  have touch: "EtagCache_touch k n c = Some c'"
    by (simp add: EtagCache_touch_def splice_front_node [OF i(3) mem] c'_def)
  have uniq: "p = (n, k)" if "p \<in> set ?xs" "fst p = n" for p
    using eq_key_imp_eq_value [OF i(3), of n "snd p" k] that mem by (cases p) simp
  have set': "set ((n, k) # ?f) = set ?xs"
    using mem uniq by (simp only: list.set set_filter) blast
  have len: "length ?f < length ?xs" by (rule length_filter_less [OF mem]) simp
  have vals: "map snd ?f = removeAll k (map snd ?xs)" using i(3,4) mem by (rule filter_node)
  have fsts: "n \<notin> fst ` set ?f" by auto
  have "EtagCache_inv c'"
    unfolding EtagCache_inv_def proj
  proof (intro conjI)
    show "0 < capacity c" by (rule i(1))
    show "length ((n, k) # ?f) \<le> capacity c" using i(2) len by simp
    show "distinct (map fst ((n, k) # ?f))" using distinct_map_filter [OF i(3)] fsts by simp
    show "distinct (map snd ((n, k) # ?f))" using i(4) by (simp add: vals distinct_removeAll)
    show "\<forall>j m. ((etagmap c)(k \<mapsto> n)) j = Some m \<longleftrightarrow> (m, j) \<in> set ((n, k) # ?f)"
      unfolding set' fun_upd_idem [where f = "etagmap c", OF assms(2)] by (rule i(5))
    show "\<forall>m \<in> fst ` set ((n, k) # ?f). m < next_node c" unfolding set' by (rule i(6))
  qed
  then show ?thesis 
    using touch vals proj by (intro exI [of _ c']) (simp add: recent_tags_def lru_touch_def)
qed

lemma EtagCache_evict_ok:
  assumes "EtagCache_inv c"
  shows "\<exists>c'. EtagCache_evict c = Some c' \<and> EtagCache_inv c' \<and> capacity c' = capacity c \<and>
    next_node c' = next_node c \<and> length (etaglist c') < capacity c \<and>
    recent_tags c' = take (capacity c - 1) (recent_tags c)"
proof (cases "length (etaglist c) = capacity c")
  case False
  then show ?thesis using assms by (auto simp: EtagCache_evict_def recent_tags_def EtagCache_inv_def)
next
  case True
  note i = assms [unfolded EtagCache_inv_def]
  have ne: "etaglist c \<noteq> []" using i True by auto
  then obtain xs n k where xs: "etaglist c = xs @ [(n, k)]" by (metis rev_exhaust surj_pair)
  define c' where "c' = c\<lparr>etagmap := (etagmap c)(k := None), etaglist := xs\<rparr>"
  have "EtagCache_evict c = Some c'" using True xs by (simp add: EtagCache_evict_def c'_def)
  moreover have "EtagCache_inv c'"
    unfolding EtagCache_inv_def
  proof (intro conjI)
    show "\<forall>k n. etagmap c' k = Some n \<longleftrightarrow> (n, k) \<in> set (etaglist c')"
      using i xs by (auto simp: c'_def image_iff)
  qed (use i xs in \<open>auto simp: c'_def\<close>)
  ultimately show ?thesis using True xs by (auto simp: c'_def recent_tags_def)
qed

lemma EtagCache_push_front_ok:
  assumes "EtagCache_inv c" "etagmap c k = None" "length (etaglist c) < capacity c"
  shows "EtagCache_inv (c\<lparr>etaglist := (next_node c, k) # etaglist c,
    etagmap := (etagmap c)(k \<mapsto> next_node c), next_node := next_node c + 1\<rparr>)"
proof -
  note i = assms(1) [unfolded EtagCache_inv_def]
  have fresh: "next_node c \<notin> fst ` set (etaglist c)" using i by blast
  have new: "k \<notin> snd ` set (etaglist c)"
    using recent_tags_mem [OF assms(1), of k] assms(2) by (simp add: recent_tags_def)
  have map: "((etagmap c)(k \<mapsto> next_node c)) j = Some n \<longleftrightarrow>
      (n, j) \<in> set ((next_node c, k) # etaglist c)" for j n
    using i new by (auto simp: image_iff)
  show ?thesis
    unfolding EtagCache_inv_def
  proof (intro conjI, goal_cases)
    case 5
    show ?case using map by simp
  next
    case 6
    show ?case using i by (auto intro: less_SucI)
  qed (use i fresh new assms(3) in simp_all)
qed

lemma EtagCache_Set_ok:
  assumes "EtagCache_inv c"
  shows "\<exists>c'. EtagCache_Set k c = Some c' \<and> EtagCache_inv c' \<and> capacity c' = capacity c \<and>
    recent_tags c' = lru_set (capacity c) k (recent_tags c)"
proof (cases "etagmap c k")
  case None
  then have new: "k \<notin> set (recent_tags c)" using recent_tags_mem [OF assms] by simp
  obtain c1 where c1: "EtagCache_evict c = Some c1" "EtagCache_inv c1" "capacity c1 = capacity c"
      "length (etaglist c1) < capacity c" "recent_tags c1 = take (capacity c - 1) (recent_tags c)"
    using EtagCache_evict_ok [OF assms] by auto
  have "etagmap c1 k = None"
  proof (rule ccontr)
    assume "etagmap c1 k \<noteq> None"
    then have "k \<in> set (recent_tags c1)" using recent_tags_mem [OF c1(2)] by simp
    then show False using new c1(5) by (auto dest: in_set_takeD)
  qed
  from EtagCache_push_front_ok [OF c1(2) this] None c1 new show ?thesis
    by (auto simp: EtagCache_Set_def lru_set_def recent_tags_def)
next
  case (Some n)
  then have "k \<in> set (recent_tags c)" using recent_tags_mem [OF assms] by simp
  then show ?thesis using EtagCache_touch_ok [OF assms Some] Some
    by (auto simp: EtagCache_Set_def lru_set_def)
qed

lemma EtagCache_Get_ok:
  assumes "EtagCache_inv c"
  shows "\<exists>c'. EtagCache_Get k c = Some (k \<in> set (recent_tags c), c') \<and> EtagCache_inv c' \<and>
    capacity c' = capacity c \<and> recent_tags c' = lru_get k (recent_tags c)"
proof (cases "etagmap c k")
  case None
  then have "k \<notin> set (recent_tags c)" using recent_tags_mem [OF assms] by simp
  then show ?thesis using None assms by (auto simp: EtagCache_Get_def lru_get_def)
next
  case (Some n)
  then have "k \<in> set (recent_tags c)" using recent_tags_mem [OF assms] by simp
  then show ?thesis using EtagCache_touch_ok [OF assms Some] Some
    by (auto simp: EtagCache_Get_def lru_get_def)
qed

interpretation etags: lru_cache EtagCache_Get EtagCache_Set recent_tags capacity EtagCache_inv
proof (unfold_locales, goal_cases)
  case 1
  then show ?case by (simp add: EtagCache_inv_def recent_tags_def)
next
  case 2
  then show ?case by (simp add: EtagCache_inv_def recent_tags_def)
next
  case 3
  then show ?case by (rule EtagCache_Get_ok)
next
  case 4
  then show ?case by (rule EtagCache_Set_ok)
qed

section \<open>The manager\<close>

definition xEtagManager_inv :: "nat \<Rightarrow> nat \<Rightarrow> xEtagManager \<Rightarrow> bool" where
  "xEtagManager_inv cnt sz m \<longleftrightarrow>
     count m = cnt \<and> length (etag_cache m) = cnt \<and>
     (\<forall>c \<in> set (etag_cache m). EtagCache_inv c \<and> capacity c = sz)"

datatype etag_op = EGet string u64 | ESet string u64

primrec etag_exec :: "etag_op \<Rightarrow> xEtagManager \<Rightarrow> xEtagManager ub" where
  "etag_exec (EGet key ts) m = map_option snd (xEtagManager_GetKey key ts m)"
| "etag_exec (ESet key ts) m = xEtagManager_SetKey key ts m"

primrec etag_run :: "etag_op list \<Rightarrow> xEtagManager \<Rightarrow> xEtagManager ub" where
  "etag_run [] m = Some m"
| "etag_run (op # ops) m = Option.bind (etag_exec op m) (etag_run ops)"

primrec tag_op :: "etag_op \<Rightarrow> u64 lru_op" where
  "tag_op (EGet key ts) = LGet (etag_hashkey key ts)"
| "tag_op (ESet key ts) = LSet (etag_hashkey key ts)"

abbreviation tag_of :: "etag_op \<Rightarrow> u64" where
  "tag_of op \<equiv> op_key (tag_op op)"

definition shard :: "nat \<Rightarrow> u64 \<Rightarrow> nat" where
  "shard cnt tag = unat tag mod cnt"

lemma etag_index_eq:
  assumes "xEtagManager_inv cnt sz m" "0 < cnt" "cnt \<le> 2 ^ 31"
  shows "etag_index tag m = Some (shard cnt tag)"
proof -
  have "unat tag mod cnt < cnt" using assms(2) by simp
  moreover from this have "wrap32 (int (unat tag mod cnt)) = int (unat tag mod cnt)"
    using assms(3) by (intro wrap32_id) (auto simp: INT_MIN_def INT_MAX_def)
  ultimately show ?thesis
    using assms by (simp add: etag_index_def shard_def xEtagManager_inv_def Let_def)
qed

lemma shard_update:
  assumes "xEtagManager_inv cnt sz m" "EtagCache_inv c" "capacity c = sz" "i < cnt"
    "count m' = count m" "etag_cache m' = (etag_cache m)[i := c]"
  shows "xEtagManager_inv cnt sz m'"
    and "\<forall>j < cnt. recent_tags (etag_cache m' ! j) =
      (if j = i then recent_tags c else recent_tags (etag_cache m ! j))"
proof -
  show "xEtagManager_inv cnt sz m'"
    using assms set_update_subset_insert [of "etag_cache m" i c] by (auto simp: xEtagManager_inv_def)
  show "\<forall>j < cnt. recent_tags (etag_cache m' ! j) =
      (if j = i then recent_tags c else recent_tags (etag_cache m ! j))"
    using assms by (auto simp: xEtagManager_inv_def)
qed

lemma inv_shard:
  "xEtagManager_inv cnt sz m \<Longrightarrow> i < cnt \<Longrightarrow> EtagCache_inv (etag_cache m ! i) \<and> capacity (etag_cache m ! i) = sz"
  by (simp add: xEtagManager_inv_def)

lemma shard_less: "0 < cnt \<Longrightarrow> shard cnt tag < cnt"
  by (simp add: shard_def)

text \<open>Each call is one operation of the least-recently-used list of its tag's cache.\<close>

lemma SetKey_ok:
  fixes key ts
  assumes "xEtagManager_inv cnt sz m" "0 < cnt" "cnt \<le> 2 ^ 31"
  defines "tag \<equiv> etag_hashkey key ts" and "i \<equiv> shard cnt (etag_hashkey key ts)"
  shows "\<exists>c. xEtagManager_SetKey key ts m = Some (m\<lparr>etag_cache := (etag_cache m)[i := c]\<rparr>) \<and>
    EtagCache_inv c \<and> capacity c = sz \<and>
    recent_tags c = lru_exec sz (LSet tag) (recent_tags (etag_cache m ! i))"
proof -
  have i: "etag_index tag m = Some i"
    unfolding tag_def i_def using assms(1-3) by (rule etag_index_eq)
  have "EtagCache_inv (etag_cache m ! i)" "capacity (etag_cache m ! i) = sz"
    using inv_shard [OF assms(1) shard_less [OF assms(2)]] by (simp_all add: i_def)
  with etags.put_law [of "etag_cache m ! i" tag] i show ?thesis
    by (auto simp: xEtagManager_SetKey_def tag_def)
qed

lemma GetKey_ok:
  fixes key ts
  assumes "xEtagManager_inv cnt sz m" "0 < cnt" "cnt \<le> 2 ^ 31"
  defines "tag \<equiv> etag_hashkey key ts" and "i \<equiv> shard cnt (etag_hashkey key ts)"
  shows "\<exists>c h. xEtagManager_GetKey key ts m = Some (tag \<in> set (recent_tags (etag_cache m ! i)),
      m\<lparr>get_hit := h, total_times := total_times m + 1, etag_cache := (etag_cache m)[i := c]\<rparr>) \<and>
    EtagCache_inv c \<and> capacity c = sz \<and>
    recent_tags c = lru_exec sz (LGet tag) (recent_tags (etag_cache m ! i)) \<and>
    h = get_hit m + (if tag \<in> set (recent_tags (etag_cache m ! i)) then 1 else 0)"
proof -
  have i: "etag_index tag m = Some i"
    unfolding tag_def i_def using assms(1-3) by (rule etag_index_eq)
  have "EtagCache_inv (etag_cache m ! i)" "capacity (etag_cache m ! i) = sz"
    using inv_shard [OF assms(1) shard_less [OF assms(2)]] by (simp_all add: i_def)
  with etags.get_law [of "etag_cache m ! i" tag] obtain c where
    "EtagCache_Get tag (etag_cache m ! i) = Some (tag \<in> set (recent_tags (etag_cache m ! i)), c)"
    "EtagCache_inv c" "capacity c = sz" "recent_tags c = lru_get tag (recent_tags (etag_cache m ! i))"
    by auto
  with i show ?thesis
    by (intro exI [of _ c] exI [of _ "get_hit m + (if tag \<in> set (recent_tags (etag_cache m ! i)) then 1 else 0)"])
      (simp add: xEtagManager_GetKey_def tag_def)
qed

lemma etag_exec_ok:
  assumes "xEtagManager_inv cnt sz m" "0 < cnt" "cnt \<le> 2 ^ 31"
  shows "\<exists>m'. etag_exec op m = Some m' \<and> xEtagManager_inv cnt sz m' \<and>
    (\<forall>j < cnt. recent_tags (etag_cache m' ! j) =
      (if j = shard cnt (tag_of op) then lru_exec sz (tag_op op) (recent_tags (etag_cache m ! j))
       else recent_tags (etag_cache m ! j)))"
proof -
  let ?i = "shard cnt (tag_of op)"
  have "\<exists>m' c. etag_exec op m = Some m' \<and> EtagCache_inv c \<and> capacity c = sz \<and> count m' = count m \<and>
      etag_cache m' = (etag_cache m)[?i := c] \<and>
      recent_tags c = lru_exec sz (tag_op op) (recent_tags (etag_cache m ! ?i))"
  proof (cases op)
    case (EGet key ts)
    from GetKey_ok [OF assms, of key ts] EGet show ?thesis by auto
  next
    case (ESet key ts)
    from SetKey_ok [OF assms, of key ts] ESet show ?thesis by auto
  qed
  then obtain m' c where "etag_exec op m = Some m'" "EtagCache_inv c" "capacity c = sz" "count m' = count m"
    "etag_cache m' = (etag_cache m)[?i := c]"
    "recent_tags c = lru_exec sz (tag_op op) (recent_tags (etag_cache m ! ?i))" by blast
  with shard_update [OF assms(1), of c ?i m'] shard_less [OF assms(2)] show ?thesis by auto
qed

lemma etag_run_ok:
  assumes "xEtagManager_inv cnt sz m" "0 < cnt" "cnt \<le> 2 ^ 31"
  shows "\<exists>m'. etag_run ops m = Some m' \<and> xEtagManager_inv cnt sz m' \<and>
    (\<forall>j < cnt. recent_tags (etag_cache m' ! j) =
      fold (lru_exec sz) (map tag_op (filter (\<lambda>op. shard cnt (tag_of op) = j) ops)) (recent_tags (etag_cache m ! j)))"
  using assms(1)
proof (induction ops arbitrary: m)
  case (Cons op ops)
  from etag_exec_ok [OF Cons.prems assms(2,3), of op] obtain m1 where m1: "etag_exec op m = Some m1"
    "xEtagManager_inv cnt sz m1"
    "\<forall>j < cnt. recent_tags (etag_cache m1 ! j) =
      (if j = shard cnt (tag_of op) then lru_exec sz (tag_op op) (recent_tags (etag_cache m ! j))
       else recent_tags (etag_cache m ! j))" by blast
  from Cons.IH [OF m1(2)] m1 show ?case by auto
qed simp

lemma xEtagManager_inv_Init:
  assumes "0 < sz"
  shows "xEtagManager_inv cnt sz (xEtagManager_Init cnt sz m)"
    and "j < cnt \<Longrightarrow> recent_tags (etag_cache (xEtagManager_Init cnt sz m) ! j) = []"
  using assms by (auto simp: xEtagManager_inv_def xEtagManager_Init_def EtagCache_inv_def EtagCache_SetSize_def
      EtagCache_new_def recent_tags_def)

lemma etag_run_append: "etag_run (ops @ ops') m = Option.bind (etag_run ops m) (etag_run ops')"
proof (induction ops arbitrary: m)
  case (Cons op ops)
  then show ?case by (cases "etag_exec op m") simp_all
qed simp

section \<open>Properties\<close>

text \<open>
  C27: An entity tag that was stored is remembered. On a manager with \<open>cnt\<close> caches (at most
  \<open>2\<^sup>3\<^sup>1\<close>) of a positive size \<open>sz\<close>, after any earlier calls, a call of \<open>SetKey\<close>, and any further
  calls that use fewer than \<open>sz\<close> other tags, \<open>GetKey\<close> for that key and time stamp answers true.
  No call on the way is undefined: no dangling iterator, no index out of bounds.
\<close>

theorem etag_retained:
  assumes "0 < cnt" "cnt \<le> 2 ^ 31" "0 < sz"
    and "card (tag_of ` set later - {etag_hashkey key ts}) < sz"
  shows "\<exists>m m'. etag_run (earlier @ ESet key ts # later) (xEtagManager_Init cnt sz xEtagManager_new) = Some m \<and>
    xEtagManager_GetKey key ts m = Some (True, m')"
proof -
  let ?m0 = "xEtagManager_Init cnt sz xEtagManager_new" and ?tag = "etag_hashkey key ts"
  let ?j = "shard cnt ?tag" and ?S = "tag_of ` set later - {?tag}"
  have inv0: "xEtagManager_inv cnt sz ?m0" using assms(3) by (rule xEtagManager_inv_Init)
  have j: "?j < cnt" using assms(1) by (rule shard_less)
  obtain m1 where m1: "etag_run earlier ?m0 = Some m1" "xEtagManager_inv cnt sz m1"
    using etag_run_ok [OF inv0 assms(1,2)] by blast
  obtain m2 where m2: "etag_exec (ESet key ts) m1 = Some m2" "xEtagManager_inv cnt sz m2"
      "recent_tags (etag_cache m2 ! ?j) = lru_exec sz (LSet ?tag) (recent_tags (etag_cache m1 ! ?j))"
    using etag_exec_ok [OF m1(2) assms(1,2), of "ESet key ts"] j by auto
  let ?ops = "filter (\<lambda>op. shard cnt (tag_of op) = ?j) later"
  obtain m3 where m3: "etag_run later m2 = Some m3" "xEtagManager_inv cnt sz m3"
      "recent_tags (etag_cache m3 ! ?j) = fold (lru_exec sz) (map tag_op ?ops) (recent_tags (etag_cache m2 ! ?j))"
    using etag_run_ok [OF m2(2) assms(1,2), of later] j by auto
  have dist: "distinct (recent_tags (etag_cache m1 ! ?j))"
    using inv_shard [OF m1(2) j] etags.recent_distinct by blast
  obtain vs where vs: "recent_tags (etag_cache m2 ! ?j) = [] @ ?tag # vs"
    using m2(3) by (auto simp: lru_set_def lru_touch_def split: if_splits)
  have "?tag \<in> set (recent_tags (etag_cache m3 ! ?j))"
    unfolding m3(3)
  proof (rule lru_retain [OF _ vs, of ?S])
    show "distinct (recent_tags (etag_cache m2 ! ?j))"
      unfolding m2(3) using dist by (rule lru_exec_distinct)
    show "op_key ` set (map tag_op ?ops) \<subseteq> insert ?tag ?S" by auto
  qed (use assms(4) in auto)
  then show ?thesis
    using m1(1) m2(1) m3(1) GetKey_ok [OF m3(2) assms(1,2), of key ts] by (auto simp: etag_run_append)
qed

theorem etag_retained_witness:
  "\<exists>m m'. etag_run ([ESet ''/old'' 3] @ ESet ''/a'' 7 # [EGet ''/b'' 1, ESet ''/b'' 2])
      (xEtagManager_Init 4 1000 xEtagManager_new) = Some m \<and>
    xEtagManager_GetKey ''/a'' 7 m = Some (True, m')"
proof (rule etag_retained)
  have "card (tag_of ` set [EGet ''/b'' 1, ESet ''/b'' 2] - {etag_hashkey ''/a'' 7}) \<le>
      card (tag_of ` set [EGet ''/b'' 1, ESet ''/b'' 2])"
    by (rule card_mono) auto
  also have "\<dots> \<le> length [EGet ''/b'' 1, ESet ''/b'' 2]"
    using card_image_le [of "set [EGet ''/b'' 1, ESet ''/b'' 2]" tag_of]
      card_length [of "[EGet ''/b'' 1, ESet ''/b'' 2]"] by (meson List.finite_set le_trans)
  finally show "card (tag_of ` set [EGet ''/b'' 1, ESet ''/b'' 2] - {etag_hashkey ''/a'' 7}) < 1000"
    by simp
qed simp_all

text \<open>
  \<open>GetKey\<close> never invents a tag: as long as no call of \<open>SetKey\<close> had a key and time stamp
  of the same 64-bit tag, it answers false.
\<close>

theorem etag_never_set:
  assumes "0 < cnt" "cnt \<le> 2 ^ 31" "0 < sz"
    and "LSet (etag_hashkey key ts) \<notin> tag_op ` set ops"
  shows "\<exists>m m'. etag_run ops (xEtagManager_Init cnt sz xEtagManager_new) = Some m \<and>
    xEtagManager_GetKey key ts m = Some (False, m')"
proof -
  let ?m0 = "xEtagManager_Init cnt sz xEtagManager_new" and ?tag = "etag_hashkey key ts"
  let ?j = "shard cnt ?tag"
  have inv0: "xEtagManager_inv cnt sz ?m0" using assms(3) by (rule xEtagManager_inv_Init)
  have j: "?j < cnt" using assms(1) by (rule shard_less)
  let ?ops = "filter (\<lambda>op. shard cnt (tag_of op) = ?j) ops"
  obtain m where m: "etag_run ops ?m0 = Some m" "xEtagManager_inv cnt sz m"
      "recent_tags (etag_cache m ! ?j) = fold (lru_exec sz) (map tag_op ?ops) []"
    using etag_run_ok [OF inv0 assms(1,2), of ops] j xEtagManager_inv_Init(2) [OF assms(3)] by auto
  have "?tag \<notin> set (recent_tags (etag_cache m ! ?j))"
    unfolding m(3) using lru_members [of sz "map tag_op ?ops" "[]"] assms(4) by (auto simp: image_iff)
  then show ?thesis using m(1) GetKey_ok [OF m(2) assms(1,2), of key ts] by auto
qed

theorem etag_never_set_witness:
  "\<exists>m m'. etag_run [EGet ''/b'' 1, EGet ''/a'' 7] (xEtagManager_Init 4 1000 xEtagManager_new) = Some m \<and>
    xEtagManager_GetKey ''/a'' 7 m = Some (False, m')"
  by (rule etag_never_set) simp_all

end
