(* ===== verification/Xhc_Store.thy ===== *)
theory Xhc_Store
  imports Xhc_Util
begin


text \<open>
  The interface of the RocksDB library that \<open>src/xDataBase.cpp\<close> is written against. The
  library is not part of the repository: its calls are the fields of a record that every
  operation of the database takes as an argument, and what the code relies on is stated as
  the laws of three locales, from the plain reads and writes to a database that never fails.

  An in-memory store shows that the laws can hold.
\<close>

section \<open>The calls\<close>

text \<open>\<open>rocksdb::Status\<close>, as far as \<open>ok()\<close> and \<open>IsNotFound()\<close> tell it apart.\<close>

datatype Status = S_OK | S_NotFound | S_Error

text \<open>
  A database of type \<open>'db\<close>, an iterator over a snapshot of it of type \<open>'it\<close>. \<open>rocks_Get\<close>
  takes the string its result is assigned to and returns what that string holds afterwards.
\<close>

record ('db, 'it) rocksdb_ops =
  rocks_Get :: "'db \<Rightarrow> string \<Rightarrow> string \<Rightarrow> Status \<times> string"
  rocks_Put :: "'db \<Rightarrow> string \<Rightarrow> string \<Rightarrow> Status \<times> 'db"
  rocks_Delete :: "'db \<Rightarrow> string \<Rightarrow> Status \<times> 'db"
  rocks_NewIterator :: "'db \<Rightarrow> 'it"
  it_status :: "'it \<Rightarrow> Status"
  it_SeekToFirst :: "'it \<Rightarrow> 'it"
  it_Seek :: "'it \<Rightarrow> string \<Rightarrow> 'it"
  it_Valid :: "'it \<Rightarrow> bool"
  it_key :: "'it \<Rightarrow> string"
  it_Next :: "'it \<Rightarrow> 'it"

section \<open>The laws\<close>

text \<open>
  Reads and writes. A read that reports success returns the value of the key, one that reports
  \<open>NotFound\<close> found none and left the string alone; a write that reports success took effect,
  and no write touches another key. A call may also fail with an error.
\<close>

locale rocksdb =
  fixes ops :: "('db, 'it) rocksdb_ops"
    and contents :: "'db \<Rightarrow> string \<rightharpoonup> string"
  assumes Get_OK: "rocks_Get ops d k v0 = (S_OK, v) \<Longrightarrow> contents d k = Some v"
    and Get_NotFound: "rocks_Get ops d k v0 = (S_NotFound, v) \<Longrightarrow> contents d k = None \<and> v = v0"
    and Put_OK: "rocks_Put ops d k v = (S_OK, d') \<Longrightarrow> contents d' k = Some v"
    and Put_frame: "rocks_Put ops d k v = (st, d') \<Longrightarrow> k' \<noteq> k \<Longrightarrow> contents d' k' = contents d k'"
    and Delete_OK: "rocks_Delete ops d k = (S_OK, d') \<Longrightarrow> contents d' k = None"
    and Delete_frame: "rocks_Delete ops d k = (st, d') \<Longrightarrow> k' \<noteq> k \<Longrightarrow> contents d' k' = contents d k'"
begin

lemma Put_contents: "rocks_Put ops d k v = (S_OK, d') \<Longrightarrow> contents d' = (contents d)(k \<mapsto> v)"
  using Put_OK Put_frame by fastforce

lemma Delete_contents: "rocks_Delete ops d k = (S_OK, d') \<Longrightarrow> contents d' = (contents d)(k := None)"
  using Delete_OK Delete_frame by fastforce

end

text \<open>
  Iterators. An iterator is a snapshot of the keys in byte order, and a position in it.
\<close>

locale rocksdb_scan = rocksdb ops contents
  for ops :: "('db, 'it) rocksdb_ops" and contents :: "'db \<Rightarrow> string \<rightharpoonup> string" +
  fixes it_all :: "'it \<Rightarrow> string list"
    and it_rest :: "'it \<Rightarrow> string list"
  assumes finite_contents: "finite (dom (contents d))"
    and New_all: "it_status ops (rocks_NewIterator ops d) = S_OK \<Longrightarrow>
      it_all (rocks_NewIterator ops d) = sorted_list_of_set (dom (contents d))"
    and First_rest: "it_rest (it_SeekToFirst ops it) = it_all it"
    and Seek_rest: "it_rest (it_Seek ops it t) = dropWhile (\<lambda>k. k < t) (it_all it)"
    and Valid_rest: "it_Valid ops it \<longleftrightarrow> it_rest it \<noteq> []"
    and key_rest: "it_rest it = k # ks \<Longrightarrow> it_key ops it = k"
    and Next_rest: "it_rest it = k # ks \<Longrightarrow> it_rest (it_Next ops it) = ks"

text \<open>A database on which no call fails.\<close>

locale rocksdb_reliable = rocksdb_scan ops contents it_all it_rest
  for ops :: "('db, 'it) rocksdb_ops" and contents :: "'db \<Rightarrow> string \<rightharpoonup> string"
    and it_all it_rest :: "'it \<Rightarrow> string list" +
  assumes Get_no_error: "fst (rocks_Get ops d k v0) \<noteq> S_Error"
    and Put_no_error: "fst (rocks_Put ops d k v) = S_OK"
    and Delete_no_error: "fst (rocks_Delete ops d k) = S_OK"
    and New_no_error: "it_status ops (rocks_NewIterator ops d) = S_OK"
begin

lemma Get_eq:
  "rocks_Get ops d k v0 =
     (case contents d k of None \<Rightarrow> (S_NotFound, v0) | Some v \<Rightarrow> (S_OK, v))"
proof (cases "rocks_Get ops d k v0")
  case (Pair st v)
  then show ?thesis
    using Get_no_error [of d k v0] Get_OK [of d k v0 v] Get_NotFound [of d k v0 v]
    by (cases st) auto
qed

lemma Put_eq: "\<exists>d'. rocks_Put ops d k v = (S_OK, d') \<and> contents d' = (contents d)(k \<mapsto> v)"
  using Put_no_error [of d k v] Put_contents [of d k v "snd (rocks_Put ops d k v)"]
  by (cases "rocks_Put ops d k v") simp

lemma Delete_eq: "\<exists>d'. rocks_Delete ops d k = (S_OK, d') \<and> contents d' = (contents d)(k := None)"
  using Delete_no_error [of d k] Delete_contents [of d k "snd (rocks_Delete ops d k)"]
  by (cases "rocks_Delete ops d k") simp

end

section \<open>An in-memory store\<close>

definition mem_keys :: "(string \<times> string) list \<Rightarrow> string list" where
  "mem_keys d = sort (remdups (map fst d))"

text \<open>The iterator is the keys of the snapshot and those from its position on.\<close>

definition mem_ops :: "((string \<times> string) list, string list \<times> string list) rocksdb_ops" where
  "mem_ops =
     \<lparr>rocks_Get = (\<lambda>d k v0. case map_of d k of None \<Rightarrow> (S_NotFound, v0) | Some v \<Rightarrow> (S_OK, v)),
      rocks_Put = (\<lambda>d k v. (S_OK, (k, v) # filter (\<lambda>p. fst p \<noteq> k) d)),
      rocks_Delete = (\<lambda>d k. (S_OK, filter (\<lambda>p. fst p \<noteq> k) d)),
      rocks_NewIterator = (\<lambda>d. (mem_keys d, [])),
      it_status = (\<lambda>it. S_OK),
      it_SeekToFirst = (\<lambda>(ks, _). (ks, ks)),
      it_Seek = (\<lambda>(ks, _) t. (ks, dropWhile (\<lambda>k. k < t) ks)),
      it_Valid = (\<lambda>(_, r). r \<noteq> []),
      it_key = (\<lambda>(_, r). hd r),
      it_Next = (\<lambda>(ks, r). (ks, tl r))\<rparr>"

lemma map_of_filter_key: "map_of (filter (\<lambda>p. fst p \<noteq> k) d) = (map_of d)(k := None)"
  by (induction d) (auto simp: fun_eq_iff)

lemma mem_keys_eq: "mem_keys d = sorted_list_of_set (dom (map_of d))"
  by (simp add: mem_keys_def dom_map_of_conv_image_fst sorted_list_of_set_sort_remdups [symmetric])

interpretation mem: rocksdb_reliable mem_ops map_of fst snd
  by unfold_locales
    (auto simp: mem_ops_def map_of_filter_key mem_keys_eq finite_dom_map_of split: option.splits)

text \<open>A store of a bounded number of keys, whose writes fail when it is full.\<close>

definition full_ops :: "nat \<Rightarrow> ((string \<times> string) list, string list \<times> string list) rocksdb_ops" where
  "full_ops n = mem_ops\<lparr>rocks_Put := (\<lambda>d k v.
     if length (filter (\<lambda>p. fst p \<noteq> k) d) < n then (S_OK, (k, v) # filter (\<lambda>p. fst p \<noteq> k) d)
     else (S_Error, d))\<rparr>"

interpretation full: rocksdb_scan "full_ops n" map_of fst snd for n
  by unfold_locales
    (auto simp: full_ops_def mem_ops_def map_of_filter_key mem_keys_eq finite_dom_map_of
      split: option.splits if_splits)

end
