(* ===== verification/Xhc_DataBase.thy ===== *)
theory Xhc_DataBase
  imports Xhc_SortedSet Xhc_Etag Xhc_Store "HOL-Library.Sublist" "HOL-Library.Product_Lexorder"
begin


text \<open>
  \<open>src/xDataBase.cpp\<close>: the mapping of plain keys and of sorted sets onto the keys of RocksDB.

  A plain value is stored under \<open>k\<close> and its key, with its time stamp in front. A member of a
  sorted set is stored twice: under \<open>s\<close>, where its value is the score, and under \<open>z\<close>, where the
  score is part of the key, so that an iterator visits the members in the order of their scores.

  An operation takes the calls of the library (\<open>ops\<close>) and the state of the object and returns
  the code and the new state; \<^const>\<open>None\<close> is undefined behaviour (a null pointer, a value
  shorter than its time stamp). Log output is not part of the state.
\<close>

section \<open>Definitions\<close>

datatype ret_code = db_ok | db_err | db_null

text \<open>The value of the enumerator, which callers compare with numbers.\<close>

primrec ret_val :: "ret_code \<Rightarrow> int" where
  "ret_val db_ok = 0"
| "ret_val db_err = 1"
| "ret_val db_null = 2"

definition K_STRING :: int where "K_STRING = 1"
definition K_ZSET :: int where "K_ZSET = 2"
definition K_ZSCORE :: int where "K_ZSCORE = 3"

definition DataTypeFlag_KV :: char where "DataTypeFlag_KV = CHR ''k''"
definition DataTypeFlag_ZSET :: char where "DataTypeFlag_ZSET = CHR ''s''"
definition DataTypeFlag_ZSCORE :: char where "DataTypeFlag_ZSCORE = CHR ''z''"

subsection \<open>Values\<close>

record xValue =
  timestamp :: u64
  strValue :: string

text \<open>\<open>memcpy\<close> of eight bytes from a shorter string is undefined.\<close>

definition xValue_decode :: "xValue \<Rightarrow> xValue ub" where
  "xValue_decode v =
     (if length (strValue v) < 8 then None
      else Some \<lparr>timestamp = of_le_bytes (take 8 (strValue v)), strValue = drop 8 (strValue v)\<rparr>)"

definition xValue_encode :: "xValue \<Rightarrow> xValue" where
  "xValue_encode v = v\<lparr>strValue := le_bytes 8 (timestamp v) @ strValue v\<rparr>"

subsection \<open>The object\<close>

text \<open>The fields of \<open>rocksdb::Options\<close> that the code sets.\<close>

record Options =
  opt_create_if_missing :: bool
  opt_max_open_files :: int
  opt_write_buffer_size :: u64
  opt_db_log_dir :: string
  opt_snappy :: bool

record ROCKSDB_CONFIG =
  db_base_dir :: string
  create_if_missing :: bool
  max_open_files :: int
  max_file_opening_threads :: int
  max_total_wal_size :: u64
  db_log_dir :: string
  write_buffer_size :: u64
  compression :: bool
  cfg_ttl :: u32

record 'db xDataBase =
  dbp :: "'db option"
  options :: Options
  xEtag :: "xEtagManager option"
  bEtag :: bool

definition xDataBase_new :: "Options \<Rightarrow> 'db xDataBase" where
  "xDataBase_new o0 = \<lparr>dbp = None, options = o0, xEtag = None, bEtag = False\<rparr>"

text \<open>
  \<open>OpenDB\<close> over the call \<open>rocks_Open\<close>, which returns a status and the pointer it set.
\<close>

definition xDataBase_OpenDB ::
  "(Options \<Rightarrow> string \<Rightarrow> Status \<times> 'db option) \<Rightarrow> ROCKSDB_CONFIG \<Rightarrow> 'db xDataBase \<Rightarrow> bool \<times> 'db xDataBase" where
  "xDataBase_OpenDB rocks_Open cfg x =
     (let opts = (options x)\<lparr>opt_create_if_missing := create_if_missing cfg,
                             opt_max_open_files := max_open_files cfg,
                             opt_write_buffer_size := write_buffer_size cfg * 1024 * 1024,
                             opt_db_log_dir := db_log_dir cfg,
                             opt_snappy := compression cfg\<rparr>;
          (status, d) = rocks_Open opts (db_base_dir cfg);
          x = x\<lparr>options := opts, dbp := d\<rparr>
      in if status \<noteq> S_OK then (False, x) else (True, x))"

definition xDataBase_Close :: "'db xDataBase \<Rightarrow> 'db xDataBase" where
  "xDataBase_Close x = (if dbp x \<noteq> None then x\<lparr>dbp := None\<rparr> else x)"

subsection \<open>Keys\<close>

text \<open>The flag is the return value, the string is \<open>buf\<close>; a null \<open>filed\<close> or \<open>score\<close> is \<^const>\<open>None\<close>.\<close>

definition EncodeKey :: "int \<Rightarrow> string \<Rightarrow> string option \<Rightarrow> string option \<Rightarrow> (bool \<times> string) ub" where
  "EncodeKey keytype key filed score =
     (if keytype = K_STRING then Some (True, DataTypeFlag_KV # key)
      else if keytype = K_ZSET then do {
        m \<leftarrow> filed;
        Some (True, [DataTypeFlag_ZSET, mk_byte (length key)] @ key @ [mk_byte (length m)] @ m)
      }
      else if keytype = K_ZSCORE then do {
        sc \<leftarrow> score;
        m \<leftarrow> filed;
        let s = encode_score (str_to_int64 sc);
        Some (True, [DataTypeFlag_ZSCORE, mk_byte (length key)] @ key @ le_bytes 8 s @ '':'' @ m)
      }
      else Some (False, []))"

text \<open>
  The out-parameters \<open>key\<close>, \<open>member\<close> and \<open>score\<close> are pointers: \<^const>\<open>None\<close> for a null pointer,
  otherwise what the string holds. A step that fails leaves what the earlier steps wrote.
\<close>

definition out_par :: "string option \<Rightarrow> string \<Rightarrow> string option" where
  "out_par p v = map_option (\<lambda>_. v) p"

type_synonym key_parts = "string option \<times> string option \<times> string option"

definition DecodeKey :: "string \<Rightarrow> key_parts \<Rightarrow> bool \<times> key_parts" where
  "DecodeKey rowkey parts =
     (let (key, member, score) = parts;
          keytype = (case rowkey of [] \<Rightarrow> NUL | c # _ \<Rightarrow> c)
      in if keytype = DataTypeFlag_KV then
           case Decoder_skip 1 rowkey of
             None \<Rightarrow> (False, key, member, score)
           | Some d \<Rightarrow>
               (case Decoder_read_data d of
                  None \<Rightarrow> (False, key, member, score)
                | Some (k, d) \<Rightarrow> (True, out_par key k, member, score))
         else if keytype = DataTypeFlag_ZSCORE then
           case Decoder_skip 1 rowkey of
             None \<Rightarrow> (False, key, member, score)
           | Some d \<Rightarrow>
               (case Decoder_read_8_data d of
                  None \<Rightarrow> (False, key, member, score)
                | Some (k, d) \<Rightarrow>
                    let key = out_par key k in
                    (case Decoder_read_int64 d of
                       None \<Rightarrow> (False, key, member, score)
                     | Some (s, d) \<Rightarrow>
                         let score = out_par score (str (decode_score s)) in
                         (case Decoder_skip 1 d of
                            None \<Rightarrow> (False, key, member, score)
                          | Some d \<Rightarrow>
                              (case Decoder_read_data d of
                                 None \<Rightarrow> (False, key, member, score)
                               | Some (m, d) \<Rightarrow> (True, key, out_par member m, score)))))
         else (False, key, member, score))"

subsection \<open>Plain keys\<close>

text \<open>The tag of a value, when tags are recorded: \<open>xEtag->SetKey(key.c_str(), timestamp)\<close>.\<close>

definition record_etag :: "string \<Rightarrow> u64 \<Rightarrow> 'db xDataBase \<Rightarrow> 'db xDataBase ub" where
  "record_etag key ts x =
     (if bEtag x then do {
        m \<leftarrow> xEtag x;
        m \<leftarrow> xEtagManager_SetKey (c_str key) ts m;
        Some (x\<lparr>xEtag := Some m\<rparr>)
      } else Some x)"

definition xDataBase_Set ::
  "('db, 'it) rocksdb_ops \<Rightarrow> u64 \<Rightarrow> string \<Rightarrow> string \<Rightarrow> 'db xDataBase \<Rightarrow> (ret_code \<times> 'db xDataBase) ub" where
  "xDataBase_Set ops now key val x = do {
     (_, strKey) \<leftarrow> EncodeKey K_STRING key None None;
     let xVal = xValue_encode \<lparr>timestamp = now, strValue = val\<rparr>;
     d \<leftarrow> dbp x;
     let (s, d) = rocks_Put ops d strKey (strValue xVal);
     let x = x\<lparr>dbp := Some d\<rparr>;
     if s \<noteq> S_OK then Some (db_err, x)
     else do {
       x \<leftarrow> record_etag key (timestamp xVal) x;
       Some (db_ok, x)
     }
   }"

definition xDataBase_Get ::
  "('db, 'it) rocksdb_ops \<Rightarrow> string \<Rightarrow> xValue \<Rightarrow> 'db xDataBase \<Rightarrow> (ret_code \<times> xValue \<times> 'db xDataBase) ub" where
  "xDataBase_Get ops key xval x = do {
     (_, strKey) \<leftarrow> EncodeKey K_STRING key None None;
     d \<leftarrow> dbp x;
     let (s, v) = rocks_Get ops d strKey (strValue xval);
     let xval = xval\<lparr>strValue := v\<rparr>;
     if s = S_NotFound then Some (db_null, xval, x)
     else if s \<noteq> S_OK then Some (db_err, xval, x)
     else do {
       xval \<leftarrow> xValue_decode xval;
       x \<leftarrow> record_etag key (timestamp xval) x;
       Some (db_ok, xval, x)
     }
   }"

definition xDataBase_Rawdel ::
  "('db, 'it) rocksdb_ops \<Rightarrow> string \<Rightarrow> 'db xDataBase \<Rightarrow> (ret_code \<times> 'db xDataBase) ub" where
  "xDataBase_Rawdel ops key x = do {
     d \<leftarrow> dbp x;
     let (s, d) = rocks_Delete ops d key;
     let x = x\<lparr>dbp := Some d\<rparr>;
     Some (if s \<noteq> S_OK then db_err else db_ok, x)
   }"

definition xDataBase_Del ::
  "('db, 'it) rocksdb_ops \<Rightarrow> string \<Rightarrow> 'db xDataBase \<Rightarrow> (ret_code \<times> 'db xDataBase) ub" where
  "xDataBase_Del ops key x = do {
     (_, strKey) \<leftarrow> EncodeKey K_STRING key None None;
     d \<leftarrow> dbp x;
     let (s, d) = rocks_Delete ops d strKey;
     let x = x\<lparr>dbp := Some d\<rparr>;
     Some (if s \<noteq> S_OK then db_err else db_ok, x)
   }"

text \<open>The time stamp of a new \<open>xValue\<close> is not initialised; \<open>ts0\<close> is what it happens to hold.\<close>

definition xDataBase_Expire ::
  "('db, 'it) rocksdb_ops \<Rightarrow> u64 \<Rightarrow> string \<Rightarrow> 'db xDataBase \<Rightarrow> (ret_code \<times> 'db xDataBase) ub" where
  "xDataBase_Expire ops ts0 key x = do {
     (ret, _, x) \<leftarrow> xDataBase_Get ops key \<lparr>timestamp = ts0, strValue = []\<rparr> x;
     Some (if ret = db_ok then db_ok else db_err, x)
   }"

subsection \<open>Scans\<close>

function ScanKey_loop ::
  "('db, 'it) rocksdb_ops \<Rightarrow> string \<Rightarrow> int \<Rightarrow> 'it \<Rightarrow> int \<Rightarrow> string \<Rightarrow> string list \<Rightarrow> string list" where
  "ScanKey_loop ops end_key limit it n strkey vkey =
     (if it_Valid ops it \<and> it_key ops it < end_key \<and> n < limit then
        let strkey = (case DecodeKey (it_key ops it) (Some strkey, None, None) of
                        (_, Some k, _) \<Rightarrow> k | (_, None, _) \<Rightarrow> strkey)
        in ScanKey_loop ops end_key limit (it_Next ops it) (n + 1) strkey (vkey @ [strkey])
      else vkey)"
  by auto
termination by (relation "measure (\<lambda>(ops, e, limit, it, n, s, v). nat (limit - n))") auto

definition xDataBase_ScanKey ::
  "('db, 'it) rocksdb_ops \<Rightarrow> string \<Rightarrow> string \<Rightarrow> int \<Rightarrow> string list \<Rightarrow> 'db xDataBase \<Rightarrow>
   (ret_code \<times> string list) ub" where
  "xDataBase_ScanKey ops start stop limit vkey x = do {
     d \<leftarrow> dbp x;
     let it = rocks_NewIterator ops d;
     if it_status ops it \<noteq> S_OK then Some (db_err, vkey)
     else do {
       (_, start_key) \<leftarrow> EncodeKey K_STRING start None None;
       (_, end_key) \<leftarrow> EncodeKey K_STRING stop None None;
       Some (db_ok, ScanKey_loop ops end_key limit (it_Seek ops it start_key) 0 [] vkey)
     }
   }"

function Scan_loop ::
  "('db, 'it) rocksdb_ops \<Rightarrow> string \<Rightarrow> int \<Rightarrow> 'it \<Rightarrow> int \<Rightarrow> string list \<Rightarrow> string list" where
  "Scan_loop ops stop limit it n vkey =
     (if it_Valid ops it \<and> it_key ops it < stop \<and> n < limit then
        Scan_loop ops stop limit (it_Next ops it) (n + 1) (vkey @ [it_key ops it])
      else vkey)"
  by auto
termination by (relation "measure (\<lambda>(ops, e, limit, it, n, v). nat (limit - n))") auto

definition xDataBase_Scan ::
  "('db, 'it) rocksdb_ops \<Rightarrow> string \<Rightarrow> string \<Rightarrow> int \<Rightarrow> string list \<Rightarrow> 'db xDataBase \<Rightarrow>
   (ret_code \<times> string list) ub" where
  "xDataBase_Scan ops start stop limit vkey x = do {
     d \<leftarrow> dbp x;
     let it = rocks_NewIterator ops d;
     if it_status ops it \<noteq> S_OK then Some (db_err, vkey)
     else Some (db_ok, Scan_loop ops stop limit (it_Seek ops it start) 0 vkey)
   }"

text \<open>
  The loop over the score keys. \<open>DecodeKey(...) == -1\<close> compares a \<open>bool\<close> with -1 and is never
  true, so a key that does not decode adds the member and score of the key before it.
\<close>

function LoadExpirationKeys_loop ::
  "('db, 'it) rocksdb_ops \<Rightarrow> string \<Rightarrow> int \<Rightarrow> 'it \<Rightarrow> int \<Rightarrow> string \<Rightarrow> string \<Rightarrow> SortedSet \<Rightarrow>
   ret_code \<times> SortedSet" where
  "LoadExpirationKeys_loop ops startEnd limit it n member score keylist =
     (if it_Valid ops it \<and> it_key ops it < startEnd \<and> n < limit then
        let strkey = it_key ops it
        in if (case strkey of [] \<Rightarrow> NUL | c # _ \<Rightarrow> c) \<noteq> DataTypeFlag_ZSCORE then (db_err, keylist)
           else
             let (_, _, m, s) = DecodeKey strkey (None, Some member, Some score);
                 member = (case m of Some v \<Rightarrow> v | None \<Rightarrow> member);
                 score = (case s of Some v \<Rightarrow> v | None \<Rightarrow> score)
             in LoadExpirationKeys_loop ops startEnd limit (it_Next ops it) (n + 1) member score
                  (snd (SortedSet_add member (str_to_int64 score) keylist))
      else (db_ok, keylist))"
  by auto
termination by (relation "measure (\<lambda>(ops, e, limit, it, n, m, s, k). nat (limit - n))") auto

definition SCORE_MIN :: string where "SCORE_MIN = ''0''"
definition SCORE_MAX :: string where "SCORE_MAX = ''9223372036854775807''"

definition xDataBase_LoadExpirationKeys ::
  "('db, 'it) rocksdb_ops \<Rightarrow> string \<Rightarrow> SortedSet \<Rightarrow> int \<Rightarrow> 'db xDataBase \<Rightarrow> (ret_code \<times> SortedSet) ub" where
  "xDataBase_LoadExpirationKeys ops expirekey keylist limit x = do {
     (_, strStart) \<leftarrow> EncodeKey K_ZSCORE expirekey (Some []) (Some SCORE_MIN);
     (_, startEnd) \<leftarrow> EncodeKey K_ZSCORE expirekey (Some []) (Some SCORE_MAX);
     d \<leftarrow> dbp x;
     let it = rocks_NewIterator ops d;
     if it_status ops it \<noteq> S_OK then Some (db_err, keylist)
     else Some (LoadExpirationKeys_loop ops startEnd limit (it_Seek ops it strStart) 0 [] [] keylist)
   }"

text \<open>\<^const>\<open>None\<close> here is a loop that does not end.\<close>

partial_function (option) Flushall_loop :: "('db, 'it) rocksdb_ops \<Rightarrow> 'it \<Rightarrow> 'db \<Rightarrow> 'db option" where
  "Flushall_loop ops it d =
     (if it_Valid ops it then
        let (_, d) = rocks_Delete ops d (it_key ops it) in Flushall_loop ops (it_Next ops it) d
      else Some d)"

definition xDataBase_Flushall ::
  "('db, 'it) rocksdb_ops \<Rightarrow> 'db xDataBase \<Rightarrow> (ret_code \<times> 'db xDataBase) ub" where
  "xDataBase_Flushall ops x = do {
     d \<leftarrow> dbp x;
     let it = rocks_NewIterator ops d;
     if it_status ops it \<noteq> S_OK then Some (db_err, x)
     else do {
       d \<leftarrow> Flushall_loop ops (it_SeekToFirst ops it) d;
       Some (db_ok, x\<lparr>dbp := Some d\<rparr>)
     }
   }"

subsection \<open>Sorted sets\<close>

definition xDataBase_Zget ::
  "('db, 'it) rocksdb_ops \<Rightarrow> string \<Rightarrow> string \<Rightarrow> string \<Rightarrow> 'db xDataBase \<Rightarrow> (ret_code \<times> string) ub" where
  "xDataBase_Zget ops key member score x = do {
     (_, enkey) \<leftarrow> EncodeKey K_ZSET key (Some member) None;
     d \<leftarrow> dbp x;
     let (s, v) = rocks_Get ops d enkey score;
     Some (if s = S_NotFound then db_null else if s \<noteq> S_OK then db_err else db_ok, v)
   }"

definition xDataBase_Zset ::
  "('db, 'it) rocksdb_ops \<Rightarrow> string \<Rightarrow> string \<Rightarrow> string \<Rightarrow> 'db xDataBase \<Rightarrow> (ret_code \<times> 'db xDataBase) ub" where
  "xDataBase_Zset ops key member score x =
     (if key = [] \<or> member = [] then Some (db_err, x)
      else do {
        (ret, old_score) \<leftarrow> xDataBase_Zget ops key member [] x;
        if ret = db_null \<or> old_score \<noteq> score then do {
          d \<leftarrow> dbp x;
          d \<leftarrow> (if ret \<noteq> db_null then do {
                  (_, enSkey) \<leftarrow> EncodeKey K_ZSCORE key (Some member) (Some old_score);
                  Some (snd (rocks_Delete ops d enSkey))
                } else Some d);
          (_, enZkey) \<leftarrow> EncodeKey K_ZSET key (Some member) None;
          (_, enSkey) \<leftarrow> EncodeKey K_ZSCORE key (Some member) (Some score);
          let (s, d) = rocks_Put ops d enSkey [];
          if s \<noteq> S_OK then Some (db_err, x\<lparr>dbp := Some d\<rparr>)
          else do {
            let (s, d) = rocks_Put ops d enZkey score;
            Some (if s \<noteq> S_OK then db_err else db_ok, x\<lparr>dbp := Some d\<rparr>)
          }
        }
        else Some (db_err, x)
      })"

definition xDataBase_Zdel ::
  "('db, 'it) rocksdb_ops \<Rightarrow> string \<Rightarrow> string \<Rightarrow> 'db xDataBase \<Rightarrow> (ret_code \<times> 'db xDataBase) ub" where
  "xDataBase_Zdel ops key member x =
     (if key = [] \<or> member = [] then Some (db_err, x)
      else do {
        (ret, old_score) \<leftarrow> xDataBase_Zget ops key member [] x;
        if ret = db_null then Some (db_err, x)
        else do {
          (_, enZkey) \<leftarrow> EncodeKey K_ZSET key (Some member) None;
          (_, enSkey) \<leftarrow> EncodeKey K_ZSCORE key (Some member) (Some old_score);
          d \<leftarrow> dbp x;
          let (_, d) = rocks_Delete ops d enSkey;
          let (s, d) = rocks_Delete ops d enZkey;
          Some (if s \<noteq> S_OK then db_err else db_ok, x\<lparr>dbp := Some d\<rparr>)
        }
      })"

subsection \<open>Entity tags\<close>

definition xDataBase_CheckEtag :: "string \<Rightarrow> u64 \<Rightarrow> 'db xDataBase \<Rightarrow> (bool \<times> 'db xDataBase) ub" where
  "xDataBase_CheckEtag key ts x = do {
     m \<leftarrow> xEtag x;
     (r, m) \<leftarrow> xEtagManager_GetKey key ts m;
     Some (r, x\<lparr>xEtag := Some m\<rparr>)
   }"

definition xDataBase_SetEtag :: "xEtagManager option \<Rightarrow> bool \<Rightarrow> 'db xDataBase \<Rightarrow> 'db xDataBase" where
  "xDataBase_SetEtag etag betag x = x\<lparr>xEtag := etag, bEtag := betag\<rparr>"

definition xDataBase_GetEtag :: "'db xDataBase \<Rightarrow> xEtagManager option" where
  "xDataBase_GetEtag x = xEtag x"

declare ScanKey_loop.simps [simp del] Scan_loop.simps [simp del] LoadExpirationKeys_loop.simps [simp del]

section \<open>The encoding of keys\<close>

lemmas key_consts = K_STRING_def K_ZSET_def K_ZSCORE_def DataTypeFlag_KV_def DataTypeFlag_ZSET_def
  DataTypeFlag_ZSCORE_def

definition key_kv :: "string \<Rightarrow> string" where
  "key_kv key = CHR ''k'' # key"

definition key_zset :: "string \<Rightarrow> string \<Rightarrow> string" where
  "key_zset key m = [CHR ''s'', mk_byte (length key)] @ key @ [mk_byte (length m)] @ m"

definition zscore_prefix :: "string \<Rightarrow> string" where
  "zscore_prefix key = [CHR ''z'', mk_byte (length key)] @ key"

definition score_bytes :: "int64 \<Rightarrow> string" where
  "score_bytes s = le_bytes 8 (encode_score s)"

definition key_zscore :: "string \<Rightarrow> string \<Rightarrow> int64 \<Rightarrow> string" where
  "key_zscore key m s = zscore_prefix key @ score_bytes s @ '':'' @ m"

lemma EncodeKey_eq [simp]:
  "EncodeKey K_STRING key f s = Some (True, key_kv key)"
  "EncodeKey K_ZSET key (Some m) s = Some (True, key_zset key m)"
  "EncodeKey K_ZSCORE key (Some m) (Some sc) = Some (True, key_zscore key m (str_to_int64 sc))"
  by (simp_all add: EncodeKey_def key_consts key_kv_def key_zset_def key_zscore_def zscore_prefix_def
      score_bytes_def)

lemma key_distinct [simp]:
  "key_kv k \<noteq> key_zset z m" "key_kv k \<noteq> key_zscore z m s" "key_zset z m \<noteq> key_kv k"
  "key_zscore z m s \<noteq> key_kv k" "key_zset z m \<noteq> key_zscore z' m' s" "key_zscore z m s \<noteq> key_zset z' m'"
  by (simp_all add: key_kv_def key_zset_def key_zscore_def zscore_prefix_def)

lemma key_kv_eq_iff [simp]: "key_kv a = key_kv b \<longleftrightarrow> a = b"
  by (simp add: key_kv_def)

lemma key_zset_eq_iff [simp]: "key_zset z a = key_zset z b \<longleftrightarrow> a = b"
  by (auto simp: key_zset_def)

lemma length_score_bytes [simp]: "length (score_bytes s) = 8"
  by (simp add: score_bytes_def)

lemma score_bytes_eq_iff: "is_int64 a \<Longrightarrow> is_int64 b \<Longrightarrow> score_bytes a = score_bytes b \<longleftrightarrow> a = b"
  by (metis score_bytes_def of_le_bytes_score)

lemma key_zscore_eq_iff:
  "is_int64 s \<Longrightarrow> is_int64 t \<Longrightarrow> key_zscore z a s = key_zscore z b t \<longleftrightarrow> a = b \<and> s = t"
  by (auto simp: key_zscore_def score_bytes_eq_iff)

lemma DecodeKey_kv: "DecodeKey (key_kv k) (key, member, score) = (True, out_par key k, member, score)"
  by (simp add: DecodeKey_def key_kv_def key_consts Decoder_skip_def Decoder_read_data_def)

lemma DecodeKey_zscore:
  assumes "length z < 256" "is_int64 s"
  shows "DecodeKey (key_zscore z m s) (key, member, score) =
    (True, out_par key z, out_par member m, out_par score (dec_int s))"
proof -
  have "byte_val (mk_byte (length z)) = length z" using assms(1) by simp
  moreover have "str (decode_score (of_le_bytes (score_bytes s))) = dec_int s"
    using assms(2) by (simp add: score_bytes_def of_le_bytes_score str_eq)
  ultimately show ?thesis
    by (simp add: DecodeKey_def key_zscore_def zscore_prefix_def key_consts Decoder_skip_def
        Decoder_read_8_data_def Decoder_read_int64_def Decoder_read_data_def Let_def)
qed

text \<open>The two kinds of keys that are decoded, as codecs.\<close>

interpretation kv_key: codec "key_kv"
  "\<lambda>row. case DecodeKey row (Some [], None, None) of (True, Some k, _) \<Rightarrow> Some k | _ \<Rightarrow> None" "\<lambda>_. True"
  by unfold_locales (simp add: DecodeKey_kv out_par_def)

interpretation zscore_key: codec "\<lambda>(m, s). key_zscore ''expire'' m s"
  "\<lambda>row. case DecodeKey row (None, Some [], Some []) of
     (True, _, Some m, Some sc) \<Rightarrow> Some (m, str_to_int64 sc) | _ \<Rightarrow> None"
  "\<lambda>(m, s). is_int64 s"
  by unfold_locales (auto simp: DecodeKey_zscore out_par_def str_to_int64_dec_int)

text \<open>The order of the keys.\<close>

lemma append_less_same_prefix: "(p @ a < p @ b) = (a < (b :: string))"
  by (induction p) (simp_all add: Cons_less_Cons)

lemma less_append_same_length:
  "length a = length b \<Longrightarrow> (a @ x < b @ y) = (a < b \<or> a = b \<and> x < (y :: string))"
  by (induction a b rule: list_induct2) (auto simp: Cons_less_Cons)

lemma key_kv_less_iff [simp]: "key_kv a < key_kv b \<longleftrightarrow> a < b"
  by (simp add: key_kv_def Cons_less_Cons)

lemma key_zscore_less_iff:
  "key_zscore z a s < key_zscore z b t \<longleftrightarrow>
   score_bytes s < score_bytes t \<or> score_bytes s = score_bytes t \<and> a < b"
  by (simp add: key_zscore_def append_less_same_prefix less_append_same_length Cons_less_Cons)

lemma key_zscore_less:
  assumes "0 \<le> s" "is_int64 s" "0 \<le> t" "is_int64 t"
  shows "key_zscore z a s < key_zscore z b t \<longleftrightarrow> s < t \<or> s = t \<and> a < b"
  using assms score_bytes_less_iff [of s t] score_bytes_eq_iff [of s t]
  by (simp add: key_zscore_less_iff score_bytes_def)

section \<open>Operations on the contents\<close>

text \<open>Recording a tag is defined when there is a usable manager whenever tags are recorded.\<close>

definition etag_ready :: "'db xDataBase \<Rightarrow> bool" where
  "etag_ready x \<longleftrightarrow>
     bEtag x \<longrightarrow> (\<exists>cnt sz m. xEtag x = Some m \<and> xEtagManager_inv cnt sz m \<and> 0 < cnt \<and> cnt \<le> 2 ^ 31)"

lemma record_etag_ok:
  assumes "etag_ready x"
  shows "\<exists>x'. record_etag key ts x = Some x' \<and> dbp x' = dbp x \<and> etag_ready x'"
proof (cases "bEtag x")
  case True
  then obtain cnt sz m where m: "xEtag x = Some m" "xEtagManager_inv cnt sz m" "0 < cnt" "cnt \<le> 2 ^ 31"
    using assms by (auto simp: etag_ready_def)
  from etag_exec_ok [OF m(2-4), of "ESet (c_str key) ts"] obtain m' where
    "xEtagManager_SetKey (c_str key) ts m = Some m'" "xEtagManager_inv cnt sz m'" by auto
  then show ?thesis using True m by (auto simp: record_etag_def etag_ready_def)
next
  case False
  then show ?thesis using assms by (simp add: record_etag_def)
qed

lemma etag_ready_dbp [simp]: "etag_ready (x\<lparr>dbp := d\<rparr>) = etag_ready x"
  by (simp add: etag_ready_def)

text \<open>A stored value carries its time stamp in front.\<close>

definition stamped :: "u64 \<Rightarrow> string \<Rightarrow> string" where
  "stamped ts val = le_bytes 8 ts @ val"

lemma xValue_decode_stamped [simp]:
  "xValue_decode \<lparr>timestamp = t0, strValue = stamped ts val\<rparr> = Some \<lparr>timestamp = ts, strValue = val\<rparr>"
  by (simp add: xValue_decode_def stamped_def of_le_bytes_le_bytes take_bit_word_eq_self)

interpretation stamp: codec "\<lambda>v. strValue (xValue_encode v)"
  "\<lambda>s. xValue_decode \<lparr>timestamp = 0, strValue = s\<rparr>" "\<lambda>_. True"
  using xValue_decode_stamped by unfold_locales (simp add: xValue_encode_def stamped_def)

text \<open>Every plain value is long enough to hold a time stamp.\<close>

definition values_stamped :: "(string \<rightharpoonup> string) \<Rightarrow> bool" where
  "values_stamped c \<longleftrightarrow> (\<forall>key v. c (key_kv key) = Some v \<longrightarrow> 8 \<le> length v)"

lemma values_stampedD: "values_stamped c \<Longrightarrow> c (key_kv key) = Some v \<Longrightarrow> \<exists>ts val. v = stamped ts val"
proof -
  assume "values_stamped c" "c (key_kv key) = Some v"
  then have len: "8 \<le> length v" by (simp add: values_stamped_def)
  have "le_bytes 8 (of_le_bytes (take 8 v) :: u64) = take 8 v"
    using len by (intro of_le_bytes_inj) (simp_all add: of_le_bytes_le_bytes take_bit_word_eq_self)
  then show ?thesis by (intro exI [of _ "of_le_bytes (take 8 v)"] exI [of _ "drop 8 v"]) (simp add: stamped_def)
qed

lemma values_stamped_upd [inv_intros]:
  "values_stamped c \<Longrightarrow> values_stamped (c(key_kv k \<mapsto> stamped ts val))"
  "values_stamped c \<Longrightarrow> values_stamped (c(k' := None))"
  "values_stamped c \<Longrightarrow> values_stamped (c(key_zset z m \<mapsto> v))"
  "values_stamped c \<Longrightarrow> values_stamped (c(key_zscore z m s \<mapsto> v))"
  by (auto simp: values_stamped_def stamped_def)

lemma record_etag_dbp: "record_etag key ts x = Some x' \<Longrightarrow> dbp x' = dbp x"
  by (auto simp: record_etag_def split: if_splits bind_splits)

context rocksdb
begin

lemma Set_ok:
  assumes "xDataBase_Set ops now key val x = Some (db_ok, x')" "dbp x = Some d"
  shows "\<exists>d'. dbp x' = Some d' \<and> contents d' = (contents d)(key_kv key \<mapsto> stamped now val)"
proof -
  obtain st d' where put: "rocks_Put ops d (key_kv key) (stamped now val) = (st, d')" by fastforce
  with assms have "st = S_OK" "record_etag key now (x\<lparr>dbp := Some d'\<rparr>) = Some x'"
    by (auto simp: xDataBase_Set_def xValue_encode_def stamped_def Let_def split: if_splits bind_splits)
  then show ?thesis
    using Put_contents [of d "key_kv key"] put record_etag_dbp [of key now "x\<lparr>dbp := Some d'\<rparr>" x'] by auto
qed

lemma Set_frame:
  assumes "xDataBase_Set ops now key val x = Some (r, x')" "dbp x = Some d" "k' \<noteq> key_kv key"
  shows "\<exists>d'. dbp x' = Some d' \<and> contents d' k' = contents d k'"
proof -
  obtain st d' where put: "rocks_Put ops d (key_kv key) (stamped now val) = (st, d')" by fastforce
  with assms have "dbp x' = Some d'"
    by (auto simp: xDataBase_Set_def xValue_encode_def stamped_def Let_def split: if_splits bind_splits
        dest: record_etag_dbp)
  then show ?thesis using Put_frame [OF put assms(3)] by auto
qed

lemma Get_ok:
  assumes "xDataBase_Get ops key v0 x = Some (r, v, x')" "dbp x = Some d"
    "contents d (key_kv key) = Some (stamped ts val)"
  shows "dbp x' = Some d \<and> r \<noteq> db_null \<and> (r = db_ok \<longrightarrow> v = \<lparr>timestamp = ts, strValue = val\<rparr>)"
proof -
  obtain st w where get: "rocks_Get ops d (key_kv key) (strValue v0) = (st, w)" by fastforce
  have "st \<noteq> S_NotFound" "st = S_OK \<Longrightarrow> w = stamped ts val"
    using Get_NotFound [of d "key_kv key" "strValue v0" w] Get_OK [of d "key_kv key" "strValue v0" w] get assms(3)
    by auto
  with assms get show ?thesis
    by (cases v0) (auto simp: xDataBase_Get_def Let_def split: if_splits bind_splits dest: record_etag_dbp)
qed

lemma Del_ok:
  assumes "xDataBase_Del ops key x = Some (db_ok, x')" "dbp x = Some d"
  shows "\<exists>d'. dbp x' = Some d' \<and> contents d' = (contents d)(key_kv key := None)"
proof -
  obtain st d' where del: "rocks_Delete ops d (key_kv key) = (st, d')" by fastforce
  with assms have "st = S_OK" "x' = x\<lparr>dbp := Some d'\<rparr>"
    by (auto simp: xDataBase_Del_def Let_def split: if_splits)
  with Delete_contents [of d "key_kv key" d'] del show ?thesis by auto
qed

end

context rocksdb_reliable
begin

lemma Set_eq:
  assumes "dbp x = Some d" "etag_ready x"
  shows "\<exists>d' x'. xDataBase_Set ops now key val x = Some (db_ok, x') \<and> dbp x' = Some d' \<and> etag_ready x' \<and>
    contents d' = (contents d)(key_kv key \<mapsto> stamped now val)"
proof -
  obtain d' where put: "rocks_Put ops d (key_kv key) (stamped now val) = (S_OK, d')"
      "contents d' = (contents d)(key_kv key \<mapsto> stamped now val)"
    using Put_eq [of d "key_kv key" "stamped now val"] by auto
  obtain x' where x': "record_etag key now (x\<lparr>dbp := Some d'\<rparr>) = Some x'" "dbp x' = Some d'" "etag_ready x'"
    using record_etag_ok [of "x\<lparr>dbp := Some d'\<rparr>" key now] assms(2) by auto
  from put(1) x' assms have "xDataBase_Set ops now key val x = Some (db_ok, x')"
    by (simp add: xDataBase_Set_def xValue_encode_def stamped_def)
  with put(2) x' show ?thesis by blast
qed

lemma Get_null:
  assumes "dbp x = Some d" "contents d (key_kv key) = None"
  shows "xDataBase_Get ops key v0 x = Some (db_null, v0, x)"
  using assms by (simp add: xDataBase_Get_def Get_eq)

lemma Get_value:
  assumes "dbp x = Some d" "contents d (key_kv key) = Some (stamped ts val)" "etag_ready x"
  shows "\<exists>x'. xDataBase_Get ops key v0 x = Some (db_ok, \<lparr>timestamp = ts, strValue = val\<rparr>, x') \<and>
    dbp x' = Some d \<and> etag_ready x'"
proof -
  obtain x' where "record_etag key ts x = Some x'" "dbp x' = Some d" "etag_ready x'"
    using record_etag_ok [OF assms(3), of key ts] assms(1) by auto
  with assms show ?thesis by (cases v0) (simp add: xDataBase_Get_def Get_eq)
qed

lemma Del_eq:
  assumes "dbp x = Some d"
  shows "\<exists>d'. xDataBase_Del ops key x = Some (db_ok, x\<lparr>dbp := Some d'\<rparr>) \<and>
    contents d' = (contents d)(key_kv key := None)"
  using assms Delete_eq [of d "key_kv key"] by (auto simp: xDataBase_Del_def)

lemma Rawdel_eq:
  assumes "dbp x = Some d"
  shows "\<exists>d'. xDataBase_Rawdel ops key x = Some (db_ok, x\<lparr>dbp := Some d'\<rparr>) \<and>
    contents d' = (contents d)(key := None)"
  using assms Delete_eq [of d key] by (auto simp: xDataBase_Rawdel_def)

lemma Zget_eq:
  assumes "dbp x = Some d"
  shows "xDataBase_Zget ops z m s0 x =
    Some (case contents d (key_zset z m) of None \<Rightarrow> (db_null, s0) | Some sc \<Rightarrow> (db_ok, sc))"
  using assms by (simp add: xDataBase_Zget_def Get_eq split: option.split)

end

subsection \<open>Ranges of sorted lists\<close>

lemma takeWhile_sorted:
  fixes xs :: "'a::linorder list"
  shows "sorted_wrt (<) xs \<Longrightarrow> takeWhile (\<lambda>k. k < b) xs = filter (\<lambda>k. k < b) xs"
proof (induction xs)
  case (Cons x xs)
  have "filter (\<lambda>k. k < b) xs = []" if "\<not> x < b"
    using Cons.prems that by (auto simp: filter_empty_conv)
  with Cons show ?case by auto
qed simp

lemma range_sorted:
  fixes xs :: "'a::linorder list"
  assumes "sorted_wrt (<) xs"
  shows "takeWhile (\<lambda>k. k < b) (dropWhile (\<lambda>k. k < a) xs) = filter (\<lambda>k. a \<le> k \<and> k < b) xs"
  using assms
proof (induction xs)
  case (Cons x xs)
  show ?case
  proof (cases "x < a")
    case False
    then have "\<forall>y \<in> set (x # xs). a \<le> y" using Cons.prems by auto
    then have "filter (\<lambda>k. a \<le> k \<and> k < b) (x # xs) = filter (\<lambda>k. k < b) (x # xs)"
      by (intro filter_cong) auto
    then show ?thesis using False takeWhile_sorted [OF Cons.prems] by simp
  qed (use Cons in simp)
qed simp

lemma filter_sorted_list_of_set:
  assumes "finite A"
  shows "filter P (sorted_list_of_set A) = sorted_list_of_set {x \<in> A. P x}"
  using assms sorted_wrt_filter [OF strict_sorted_list_of_set [of A], of P]
  by (intro strict_sorted_equal) auto

lemma sorted_list_of_set_image:
  fixes f :: "'a::linorder \<Rightarrow> 'b::linorder"
  assumes "finite A" "\<And>x y. x \<in> A \<Longrightarrow> y \<in> A \<Longrightarrow> x < y \<Longrightarrow> f x < f y"
  shows "sorted_list_of_set (f ` A) = map f (sorted_list_of_set A)"
proof (rule strict_sorted_equal)
  show "sorted_wrt (<) (map f (sorted_list_of_set A))"
    unfolding sorted_wrt_map
    using strict_sorted_list_of_set [of A] assms
    by (intro sorted_wrt_mono_rel [where P = "(<)" and Q = "\<lambda>x y. f x < f y"]) auto
qed (use assms in auto)

lemma range_keys:
  assumes "finite A"
  shows "takeWhile (\<lambda>k. k < b) (dropWhile (\<lambda>k. k < a) (sorted_list_of_set A)) =
    sorted_list_of_set {x \<in> A. a \<le> x \<and> x < b}"
  using assms by (simp add: range_sorted filter_sorted_list_of_set)

lemma between_prefix:
  fixes k :: string
  assumes "p @ a \<le> k" "k < p @ b"
  shows "prefix p k"
  using assms
proof (induction p arbitrary: k)
  case (Cons c p)
  show ?case
  proof (cases k)
    case Nil
    then show ?thesis using Cons.prems by simp
  next
    case (Cons d ks)
    then have "c = d" "p @ a \<le> ks" "ks < p @ b"
      using Cons.prems by (auto simp: Cons_less_Cons Cons_le_Cons)
    then show ?thesis using Cons.IH [of ks] Cons by simp
  qed
qed simp

subsection \<open>Loops over an iterator\<close>

text \<open>Every scan visits the keys that \<open>Scan\<close> returns.\<close>

lemma Scan_loop_acc: "Scan_loop ops stop limit it n vkey = vkey @ Scan_loop ops stop limit it n []"
proof (induction "nat (limit - n)" arbitrary: it n vkey)
  case 0
  then have "\<not> (it_Valid ops it \<and> it_key ops it < stop \<and> n < limit)" by simp
  then have "Scan_loop ops stop limit it n vk = vk" for vk
    by (subst Scan_loop.simps) (simp only: if_False)
  then show ?case by simp
next
  case (Suc l)
  show ?case
  proof (cases "it_Valid ops it \<and> it_key ops it < stop \<and> n < limit")
    case True
    then have "Scan_loop ops stop limit it n vk =
        Scan_loop ops stop limit (it_Next ops it) (n + 1) (vk @ [it_key ops it])" for vk
      by (subst Scan_loop.simps) (simp only: if_True simp_thms)
    moreover have "l = nat (limit - (n + 1))" using Suc.hyps(2) by simp
    ultimately show ?thesis
      using Suc.hyps(1) [of "n + 1" "it_Next ops it" "vkey @ [it_key ops it]"]
        Suc.hyps(1) [of "n + 1" "it_Next ops it" "[it_key ops it]"] by simp
  next
    case False
    then have "Scan_loop ops stop limit it n vk = vk" for vk
      by (subst Scan_loop.simps) (simp only: if_False)
    then show ?thesis by simp
  qed
qed

lemma Scan_loop_unfold:
  "Scan_loop ops stop limit it n [] =
     (if it_Valid ops it \<and> it_key ops it < stop \<and> n < limit
      then it_key ops it # Scan_loop ops stop limit (it_Next ops it) (n + 1) [] else [])"
  using Scan_loop_acc [of ops stop limit "it_Next ops it" "n + 1" "[it_key ops it]"]
  by (subst Scan_loop.simps) (simp only: append_Cons append_Nil)

definition scanned_key :: "string \<Rightarrow> string \<Rightarrow> string" where
  "scanned_key row strkey = (case DecodeKey row (Some strkey, None, None) of
     (_, Some k, _) \<Rightarrow> k | (_, None, _) \<Rightarrow> strkey)"

lemma ScanKey_loop_fold:
  "ScanKey_loop ops stop limit it n strkey vkey =
     snd (fold (\<lambda>row (sk, vk). let sk = scanned_key row sk in (sk, vk @ [sk]))
       (Scan_loop ops stop limit it n []) (strkey, vkey))"
proof (induction ops stop limit it n strkey vkey rule: ScanKey_loop.induct)
  case (1 ops stop limit it n strkey vkey)
  show ?case
  proof (cases "it_Valid ops it \<and> it_key ops it < stop \<and> n < limit")
    case True
    then show ?thesis using 1 [OF True refl]
      by (subst ScanKey_loop.simps) (simp add: Scan_loop_unfold [of ops stop limit it n] scanned_key_def Let_def)
  next
    case False
    then show ?thesis
      by (subst ScanKey_loop.simps, subst Scan_loop_unfold) (simp only: if_False fold_simps snd_conv id_apply)
  qed
qed

lemma LoadExpirationKeys_loop_fold:
  assumes "length z < 256"
    and "Scan_loop ops stop limit it n [] = map (\<lambda>(s, m). key_zscore z m s) es"
    and "\<forall>(s, m) \<in> set es. is_int64 s"
  shows "LoadExpirationKeys_loop ops stop limit it n member score keylist =
     (db_ok, fold (\<lambda>(s, m) q. snd (SortedSet_add m s q)) es keylist)"
  using assms(2,3)
proof (induction es arbitrary: it n member score keylist)
  case Nil
  then have "\<not> (it_Valid ops it \<and> it_key ops it < stop \<and> n < limit)"
    using Scan_loop_unfold [of ops stop limit it n] by (auto split: if_splits)
  then show ?case by (subst LoadExpirationKeys_loop.simps) (simp only: if_False fold_simps id_apply)
next
  case (Cons e es)
  obtain s m where e: "e = (s, m)" by fastforce
  have step: "it_Valid ops it \<and> it_key ops it < stop \<and> n < limit" "it_key ops it = key_zscore z m s"
      "Scan_loop ops stop limit (it_Next ops it) (n + 1) [] = map (\<lambda>(s, m). key_zscore z m s) es"
    using Cons.prems(1) e Scan_loop_unfold [of ops stop limit it n] by (simp_all split: if_splits)
  have s: "is_int64 s" using Cons.prems(2) e by simp
  have z: "(case key_zscore z m s of [] \<Rightarrow> NUL | c # _ \<Rightarrow> c) = DataTypeFlag_ZSCORE"
    by (simp add: key_zscore_def zscore_prefix_def key_consts)
  show ?case
    using Cons.IH [OF step(3), of m "dec_int s" "snd (SortedSet_add m s keylist)"] Cons.prems(2) step(1) z
    by (subst LoadExpirationKeys_loop.simps)
      (simp add: step(2) DecodeKey_zscore [OF assms(1) s] out_par_def str_to_int64_dec_int [OF s] e)
qed

context rocksdb_scan
begin

lemma Scan_loop_eq:
  "Scan_loop ops stop limit it n [] = take (nat (limit - n)) (takeWhile (\<lambda>k. k < stop) (it_rest it))"
proof (induction "nat (limit - n)" arbitrary: it n)
  case 0
  then show ?case by (subst Scan_loop_unfold) simp
next
  case (Suc l)
  have eq: "nat (limit - n) = Suc l" "nat (limit - (n + 1)) = l" "n < limit" using Suc.hyps(2) by auto
  show ?case
  proof (cases "it_rest it")
    case Nil
    then show ?thesis by (subst Scan_loop_unfold) (simp add: Valid_rest)
  next
    case (Cons k ks)
    then show ?thesis
      using Suc.hyps(1) [of "n + 1" "it_Next ops it"] Next_rest [OF Cons] key_rest [OF Cons] eq
      by (subst Scan_loop_unfold) (simp add: Valid_rest)
  qed
qed

end

subsection \<open>The two indices of a sorted set\<close>

text \<open>The score of a member is what the \<open>s\<close> key holds.\<close>

definition zscore_of :: "(string \<rightharpoonup> string) \<Rightarrow> string \<Rightarrow> string \<rightharpoonup> int64" where
  "zscore_of c z m = map_option str_to_int64 (c (key_zset z m))"

text \<open>The keys under the prefix of the set are those of its members' scores, and no others.\<close>

definition zset_inv :: "string \<Rightarrow> (string \<rightharpoonup> string) \<Rightarrow> bool" where
  "zset_inv z c \<longleftrightarrow>
     (\<forall>k. prefix (zscore_prefix z) k \<longrightarrow>
        (c k \<noteq> None \<longleftrightarrow> (\<exists>m s. zscore_of c z m = Some s \<and> k = key_zscore z m s)))"

lemma zscore_of_int64 [simp]: "zscore_of c z m = Some s \<Longrightarrow> is_int64 s"
  by (auto simp: zscore_of_def)

lemma prefix_key_zscore [simp]: "prefix (zscore_prefix z) (key_zscore z m s)"
  by (simp add: key_zscore_def)

lemma not_prefix_other [simp]:
  "\<not> prefix (zscore_prefix z) (key_kv k)" "\<not> prefix (zscore_prefix z) (key_zset z' m)"
  by (simp_all add: zscore_prefix_def key_kv_def key_zset_def)

definition zset_put :: "string \<Rightarrow> string \<Rightarrow> string \<Rightarrow> (string \<rightharpoonup> string) \<Rightarrow> string \<rightharpoonup> string" where
  "zset_put z m sc c =
     ((case zscore_of c z m of None \<Rightarrow> c | Some old \<Rightarrow> c(key_zscore z m old := None))
       (key_zscore z m (str_to_int64 sc) \<mapsto> [], key_zset z m \<mapsto> sc))"

definition zset_del :: "string \<Rightarrow> string \<Rightarrow> (string \<rightharpoonup> string) \<Rightarrow> string \<rightharpoonup> string" where
  "zset_del z m c =
     (case zscore_of c z m of None \<Rightarrow> c
      | Some old \<Rightarrow> c(key_zscore z m old := None, key_zset z m := None))"

lemma zset_put_kv [simp]: "zset_put z m sc c (key_kv k) = c (key_kv k)"
  by (simp add: zset_put_def split: option.split)

lemma zset_del_kv [simp]: "zset_del z m c (key_kv k) = c (key_kv k)"
  by (simp add: zset_del_def split: option.split)

lemma zscore_of_put: "zscore_of (zset_put z m sc c) z = (zscore_of c z)(m \<mapsto> str_to_int64 sc)"
  by (rule ext) (simp add: zscore_of_def zset_put_def split: option.split)

lemma zscore_of_del: "zscore_of (zset_del z m c) z = (zscore_of c z)(m := None)"
  by (rule ext) (auto simp: zscore_of_def zset_del_def split: option.split)

lemma zscore_of_kv [simp]: "zscore_of (c(key_kv k := v)) z = zscore_of c z"
  by (rule ext) (simp add: zscore_of_def)

lemma zset_inv_kv [inv_intros]: "zset_inv z c \<Longrightarrow> zset_inv z (c(key_kv k := v))"
  by (auto simp: zset_inv_def)

lemma zset_inv_empty [inv_intros]: "zset_inv z Map.empty"
  by (simp add: zset_inv_def zscore_of_def)

lemma zset_put_row:
  "prefix (zscore_prefix z) k \<Longrightarrow> zset_put z m sc c k \<noteq> None \<longleftrightarrow>
     k = key_zscore z m (str_to_int64 sc) \<or> (c k \<noteq> None \<and> (\<forall>old. zscore_of c z m = Some old \<longrightarrow> k \<noteq> key_zscore z m old))"
  by (auto simp: zset_put_def split: option.splits)

lemma zset_inv_put [inv_intros]:
  assumes "zset_inv z c"
  shows "zset_inv z (zset_put z m sc c)"
  unfolding zset_inv_def
proof (intro allI impI)
  fix k assume k: "prefix (zscore_prefix z) k"
  have inv: "c k \<noteq> None \<longleftrightarrow> (\<exists>m s. zscore_of c z m = Some s \<and> k = key_zscore z m s)"
    using assms k by (simp add: zset_inv_def)
  have "zset_put z m sc c k \<noteq> None \<longleftrightarrow> k = key_zscore z m (str_to_int64 sc) \<or>
      (\<exists>m' s. m' \<noteq> m \<and> zscore_of c z m' = Some s \<and> k = key_zscore z m' s)"
    unfolding zset_put_row [OF k] inv by (metis key_zscore_eq_iff zscore_of_int64)
  also have "\<dots> \<longleftrightarrow> (\<exists>m' s. zscore_of (zset_put z m sc c) z m' = Some s \<and> k = key_zscore z m' s)"
    unfolding zscore_of_put by auto
  finally show "zset_put z m sc c k \<noteq> None \<longleftrightarrow>
      (\<exists>m' s. zscore_of (zset_put z m sc c) z m' = Some s \<and> k = key_zscore z m' s)" .
qed

lemma zset_inv_del [inv_intros]:
  assumes "zset_inv z c"
  shows "zset_inv z (zset_del z m c)"
proof (cases "zscore_of c z m")
  case None
  then show ?thesis using assms by (simp add: zset_del_def)
next
  case (Some old)
  show ?thesis
    unfolding zset_inv_def
  proof (intro allI impI)
    fix k assume k: "prefix (zscore_prefix z) k"
    have inv: "c k \<noteq> None \<longleftrightarrow> (\<exists>m s. zscore_of c z m = Some s \<and> k = key_zscore z m s)"
      using assms k by (simp add: zset_inv_def)
    have "zset_del z m c k \<noteq> None \<longleftrightarrow> c k \<noteq> None \<and> k \<noteq> key_zscore z m old"
      using k Some by (auto simp: zset_del_def)
    also have "\<dots> \<longleftrightarrow> (\<exists>m' s. m' \<noteq> m \<and> zscore_of c z m' = Some s \<and> k = key_zscore z m' s)"
      unfolding inv using Some by (metis key_zscore_eq_iff zscore_of_int64 option.inject)
    also have "\<dots> \<longleftrightarrow> (\<exists>m' s. zscore_of (zset_del z m c) z m' = Some s \<and> k = key_zscore z m' s)"
      unfolding zscore_of_del by auto
    finally show "zset_del z m c k \<noteq> None \<longleftrightarrow>
        (\<exists>m' s. zscore_of (zset_del z m c) z m' = Some s \<and> k = key_zscore z m' s)" .
  qed
qed

lemma values_stamped_zset [inv_intros]:
  "values_stamped c \<Longrightarrow> values_stamped (zset_put z m sc c)"
  "values_stamped c \<Longrightarrow> values_stamped (zset_del z m c)"
  by (simp_all add: values_stamped_def)

subsection \<open>The pending entries\<close>

definition pending :: "(string \<rightharpoonup> int64) \<Rightarrow> (int64 \<times> string) set" where
  "pending zs = {(s, m). zs m = Some s \<and> 0 \<le> s \<and> s < INT64_MAX}"

lemma pending_rows:
  assumes "zset_inv z c"
  shows "{k \<in> dom c. key_zscore z [] 0 \<le> k \<and> k < key_zscore z [] INT64_MAX} =
    (\<lambda>(s, m). key_zscore z m s) ` pending (zscore_of c z)" (is "?L = ?R")
proof (intro equalityI subsetI)
  fix k assume k: "k \<in> ?L"
  have "prefix (zscore_prefix z) k"
    using k between_prefix [of "zscore_prefix z" _ k] by (auto simp: key_zscore_def)
  then obtain m s where ms: "zscore_of c z m = Some s" "k = key_zscore z m s"
    using assms k unfolding zset_inv_def by blast
  have max: "is_int64 INT64_MAX" "0 \<le> INT64_MAX" by (simp_all add: is_int64_def INT64_MIN_def INT64_MAX_def)
  have s: "is_int64 s" using ms(1) by simp
  have "0 \<le> s"
  proof (rule ccontr)
    assume "\<not> 0 \<le> s"
    then have "score_bytes INT64_MAX < score_bytes s"
      using score_bytes_negative [of s INT64_MAX] s max by (simp add: score_bytes_def)
    then show False using k ms(2) by (auto simp: key_zscore_less_iff)
  qed
  then have "s < INT64_MAX" using k ms(2) key_zscore_less [of s INT64_MAX z m "[]"] s max by auto
  with \<open>0 \<le> s\<close> ms show "k \<in> ?R" by (force simp: pending_def)
next
  fix k assume "k \<in> ?R"
  then obtain s m where sm: "zscore_of c z m = Some s" "0 \<le> s" "s < INT64_MAX" "k = key_zscore z m s"
    by (auto simp: pending_def)
  have i: "is_int64 s" "is_int64 0" "is_int64 INT64_MAX"
    using zscore_of_int64 [OF sm(1)] by (simp_all add: is_int64_def INT64_MIN_def INT64_MAX_def)
  have "k \<in> dom c" using assms sm(1,4) prefix_key_zscore [of z m s] unfolding zset_inv_def by blast
  moreover have "key_zscore z [] 0 \<le> k"
    using key_zscore_less [of s 0 z m "[]"] i sm by (auto simp: not_less [symmetric])
  moreover have "k < key_zscore z [] INT64_MAX"
    using key_zscore_less [of s INT64_MAX z m "[]"] i sm by simp
  ultimately show "k \<in> ?L" by simp
qed

lemma pending_sorted_rows:
  assumes "finite (pending zs)"
  shows "sorted_list_of_set ((\<lambda>(s, m). key_zscore z m s) ` pending zs) =
    map (\<lambda>(s, m). key_zscore z m s) (sorted_list_of_set (pending zs))"
proof (rule sorted_list_of_set_image [OF assms])
  fix x y assume "x \<in> pending zs" "y \<in> pending zs" "x < y"
  then show "(case x of (s, m) \<Rightarrow> key_zscore z m s) < (case y of (s, m) \<Rightarrow> key_zscore z m s)"
    by (auto simp: pending_def key_zscore_less is_int64_def INT64_MIN_def INT64_MAX_def less_prod_def)
qed

lemma score_limits: "str_to_int64 SCORE_MIN = 0" "str_to_int64 SCORE_MAX = INT64_MAX"
proof -
  have "dec_int 0 = SCORE_MIN" "dec_int INT64_MAX = SCORE_MAX"
    by (simp_all add: dec_int_def dec_nat.simps SCORE_MIN_def SCORE_MAX_def INT64_MAX_def)
  then show "str_to_int64 SCORE_MIN = 0" "str_to_int64 SCORE_MAX = INT64_MAX"
    using str_to_int64_dec_int [of 0] str_to_int64_dec_int [of INT64_MAX]
    by (simp_all add: is_int64_def INT64_MIN_def INT64_MAX_def)
qed

subsection \<open>The remaining operations\<close>

context rocksdb_reliable
begin

lemma Zset_same:
  assumes "dbp x = Some d" "contents d (key_zset z m) = Some sc"
  shows "xDataBase_Zset ops z m sc x = Some (db_err, x)"
  using assms by (simp add: xDataBase_Zset_def Zget_eq [OF assms(1)])

lemma Zset_eq:
  assumes "dbp x = Some d" "z \<noteq> []" "m \<noteq> []" "contents d (key_zset z m) \<noteq> Some sc"
  shows "\<exists>d'. xDataBase_Zset ops z m sc x = Some (db_ok, x\<lparr>dbp := Some d'\<rparr>) \<and>
    contents d' = zset_put z m sc (contents d)"
proof -
  define d1 where "d1 = (case contents d (key_zset z m) of None \<Rightarrow> d
    | Some old \<Rightarrow> snd (rocks_Delete ops d (key_zscore z m (str_to_int64 old))))"
  have d1: "contents d1 = (case zscore_of (contents d) z m of None \<Rightarrow> contents d
      | Some old \<Rightarrow> (contents d)(key_zscore z m old := None))"
  proof (cases "contents d (key_zset z m)")
    case (Some old)
    then show ?thesis using Delete_eq [of d "key_zscore z m (str_to_int64 old)"]
      by (auto simp: d1_def zscore_of_def)
  qed (simp add: d1_def zscore_of_def)
  obtain d2 where d2: "rocks_Put ops d1 (key_zscore z m (str_to_int64 sc)) [] = (S_OK, d2)"
      "contents d2 = (contents d1)(key_zscore z m (str_to_int64 sc) \<mapsto> [])"
    using Put_eq [of d1] by blast
  obtain d3 where d3: "rocks_Put ops d2 (key_zset z m) sc = (S_OK, d3)"
      "contents d3 = (contents d2)(key_zset z m \<mapsto> sc)"
    using Put_eq [of d2] by blast
  have "xDataBase_Zset ops z m sc x = Some (db_ok, x\<lparr>dbp := Some d3\<rparr>)"
    using assms d2(1) d3(1)
    by (cases "contents d (key_zset z m)") (auto simp: xDataBase_Zset_def Zget_eq [OF assms(1)] d1_def)
  then show ?thesis using d1 d2(2) d3(2) by (auto simp: zset_put_def)
qed

lemma Zdel_none:
  assumes "dbp x = Some d" "contents d (key_zset z m) = None"
  shows "xDataBase_Zdel ops z m x = Some (db_err, x)"
  using assms by (simp add: xDataBase_Zdel_def Zget_eq [OF assms(1)])

lemma Zdel_eq:
  assumes "dbp x = Some d" "z \<noteq> []" "m \<noteq> []" "contents d (key_zset z m) = Some sc"
  shows "\<exists>d'. xDataBase_Zdel ops z m x = Some (db_ok, x\<lparr>dbp := Some d'\<rparr>) \<and>
    contents d' = zset_del z m (contents d)"
proof -
  obtain d1 where d1: "rocks_Delete ops d (key_zscore z m (str_to_int64 sc)) = (S_OK, d1)"
      "contents d1 = (contents d)(key_zscore z m (str_to_int64 sc) := None)"
    using Delete_eq [of d] by blast
  obtain d2 where d2: "rocks_Delete ops d1 (key_zset z m) = (S_OK, d2)"
      "contents d2 = (contents d1)(key_zset z m := None)"
    using Delete_eq [of d1] by blast
  have "xDataBase_Zdel ops z m x = Some (db_ok, x\<lparr>dbp := Some d2\<rparr>)"
    using assms d1(1) d2(1) by (simp add: xDataBase_Zdel_def Zget_eq [OF assms(1)])
  then show ?thesis using d1(2) d2(2) assms(4) by (auto simp: zset_del_def zscore_of_def)
qed

lemma Scan_eq:
  assumes "dbp x = Some d"
  shows "xDataBase_Scan ops start stop limit vkey x =
    Some (db_ok, vkey @ take (nat limit) (sorted_list_of_set {k \<in> dom (contents d). start \<le> k \<and> k < stop}))"
  using assms
  by (simp add: xDataBase_Scan_def New_no_error Scan_loop_acc [of _ _ _ _ _ vkey] Scan_loop_eq Seek_rest New_all
      range_keys finite_contents)

lemma ScanKey_eq:
  assumes "dbp x = Some d"
  shows "xDataBase_ScanKey ops start stop limit vkey x =
    Some (db_ok, vkey @ take (nat limit) (sorted_list_of_set
      {k. contents d (key_kv k) \<noteq> None \<and> start \<le> k \<and> k < stop}))"
proof -
  let ?S = "{k. contents d (key_kv k) \<noteq> None \<and> start \<le> k \<and> k < stop}"
  have rows: "{k \<in> dom (contents d). key_kv start \<le> k \<and> k < key_kv stop} = key_kv ` ?S"
  proof (intro equalityI subsetI)
    fix k assume k: "k \<in> {k \<in> dom (contents d). key_kv start \<le> k \<and> k < key_kv stop}"
    then have "prefix ''k'' k" using between_prefix [of "''k''" start k stop] by (simp add: key_kv_def)
    then obtain k' where "k = key_kv k'" by (auto simp: key_kv_def prefix_def)
    with k show "k \<in> key_kv ` ?S" by (auto simp: not_less [symmetric])
  qed (auto simp: not_less [symmetric])
  have "finite (key_kv ` ?S)" unfolding rows [symmetric] by (simp add: finite_contents)
  then have fin: "finite ?S" by (rule finite_imageD) (auto intro: inj_onI)
  have loop: "Scan_loop ops (key_kv stop) limit (it_Seek ops (rocks_NewIterator ops d) (key_kv start)) 0 [] =
      map key_kv (take (nat limit) (sorted_list_of_set ?S))"
  proof -
    have "sorted_list_of_set (key_kv ` ?S) = map key_kv (sorted_list_of_set ?S)"
      by (rule sorted_list_of_set_image [OF fin]) simp
    then show ?thesis
      by (simp only: Scan_loop_eq Seek_rest New_all New_no_error range_keys finite_contents rows take_map diff_zero)
  qed
  have fold: "snd (fold (\<lambda>row (sk, vk). let sk = scanned_key row sk in (sk, vk @ [sk])) (map key_kv ks) (sk, vk)) =
      vk @ ks" for ks sk vk
    by (induction ks arbitrary: sk vk) (simp_all add: scanned_key_def DecodeKey_kv out_par_def)
  show ?thesis
    using assms by (simp add: xDataBase_ScanKey_def New_no_error ScanKey_loop_fold loop fold)
qed

lemma finite_zscore_of: "finite (pending (zscore_of (contents d) z))"
proof -
  let ?M = "{m. contents d (key_zset z m) \<noteq> None}"
  have "finite (key_zset z ` ?M)"
    by (rule finite_subset [OF _ finite_contents [of d]]) auto
  then have "finite ?M" by (rule finite_imageD) (auto intro: inj_onI)
  then have "finite ((\<lambda>m. (the (zscore_of (contents d) z m), m)) ` ?M)" by (rule finite_imageI)
  moreover have "pending (zscore_of (contents d) z) \<subseteq> (\<lambda>m. (the (zscore_of (contents d) z m), m)) ` ?M"
  proof
    fix e assume "e \<in> pending (zscore_of (contents d) z)"
    then have "zscore_of (contents d) z (snd e) = Some (fst e)" by (auto simp: pending_def)
    then show "e \<in> (\<lambda>m. (the (zscore_of (contents d) z m), m)) ` ?M"
      by (intro image_eqI [of _ _ "snd e"]) (auto simp: zscore_of_def)
  qed
  ultimately show ?thesis by (rule finite_subset [rotated])
qed

lemma Load_eq:
  assumes "dbp x = Some d" "zset_inv z (contents d)" "length z < 256"
  shows "xDataBase_LoadExpirationKeys ops z q limit x =
    Some (db_ok, fold (\<lambda>(s, m) q. snd (SortedSet_add m s q))
      (take (nat limit) (sorted_list_of_set (pending (zscore_of (contents d) z)))) q)"
proof -
  let ?es = "take (nat limit) (sorted_list_of_set (pending (zscore_of (contents d) z)))"
  have min: "str_to_int64 SCORE_MIN = 0" and max: "str_to_int64 SCORE_MAX = INT64_MAX"
    using score_limits by simp_all
  have loop: "Scan_loop ops (key_zscore z [] INT64_MAX) limit
      (it_Seek ops (rocks_NewIterator ops d) (key_zscore z [] 0)) 0 [] = map (\<lambda>(s, m). key_zscore z m s) ?es"
    by (simp only: Scan_loop_eq Seek_rest New_all New_no_error range_keys finite_contents
        pending_rows [OF assms(2)] pending_sorted_rows [OF finite_zscore_of] take_map diff_zero)
  have "\<forall>(s, m) \<in> set ?es. is_int64 s"
    using finite_zscore_of [of d z] by (auto simp: pending_def dest!: in_set_takeD)
  from LoadExpirationKeys_loop_fold [OF assms(3) loop this] show ?thesis
    using assms(1) by (simp add: xDataBase_LoadExpirationKeys_def New_no_error min max)
qed

lemma Flushall_loop_eq:
  "\<exists>d'. Flushall_loop ops it d = Some d' \<and> contents d' = contents d |` (- set (it_rest it))"
proof (induction "it_rest it" arbitrary: it d)
  case Nil
  then show ?case by (subst Flushall_loop.simps) (simp add: Valid_rest restrict_map_def)
next
  case (Cons k ks)
  obtain d1 where d1: "rocks_Delete ops d k = (S_OK, d1)" "contents d1 = (contents d)(k := None)"
    using Delete_eq [of d k] by blast
  have it: "it_Valid ops it" "it_key ops it = k" "it_rest (it_Next ops it) = ks"
    using Cons.hyps(2) [symmetric] key_rest [of it k ks] Next_rest [of it k ks] by (simp_all add: Valid_rest)
  obtain d' where "Flushall_loop ops (it_Next ops it) d1 = Some d'" "contents d' = contents d1 |` (- set ks)"
    using Cons.hyps(1) [of "it_Next ops it" d1] it(3) by auto
  then show ?case using it d1 Cons.hyps(2) [symmetric]
    by (subst Flushall_loop.simps) (auto simp: restrict_map_def fun_eq_iff)
qed

lemma Flushall_eq:
  assumes "dbp x = Some d"
  shows "\<exists>d'. xDataBase_Flushall ops x = Some (db_ok, x\<lparr>dbp := Some d'\<rparr>) \<and> contents d' = Map.empty"
proof -
  obtain d' where d': "Flushall_loop ops (it_SeekToFirst ops (rocks_NewIterator ops d)) d = Some d'"
    "contents d' = contents d |` (- dom (contents d))"
    using Flushall_loop_eq [of "it_SeekToFirst ops (rocks_NewIterator ops d)" d]
    by (auto simp: First_rest New_all New_no_error finite_contents)
  have "contents d |` (- dom (contents d)) = Map.empty" by (auto simp: restrict_map_def fun_eq_iff)
  with d' assms show ?thesis by (intro exI [of _ d']) (simp add: xDataBase_Flushall_def New_no_error)
qed

end

section \<open>Properties\<close>

text \<open>The operations that write, and the two maps they are meant to maintain.\<close>

datatype db_op = DSet u64 string string | DDel string | DZset string string | DZdel string | DFlush

primrec db_exec :: "('db, 'it) rocksdb_ops \<Rightarrow> db_op \<Rightarrow> 'db xDataBase \<Rightarrow> (ret_code \<times> 'db xDataBase) ub" where
  "db_exec ops (DSet now key val) x = xDataBase_Set ops now key val x"
| "db_exec ops (DDel key) x = xDataBase_Del ops key x"
| "db_exec ops (DZset m sc) x = xDataBase_Zset ops ''expire'' m sc x"
| "db_exec ops (DZdel m) x = xDataBase_Zdel ops ''expire'' m x"
| "db_exec ops DFlush x = xDataBase_Flushall ops x"

primrec db_run :: "('db, 'it) rocksdb_ops \<Rightarrow> db_op list \<Rightarrow> 'db xDataBase \<Rightarrow> (ret_code list \<times> 'db xDataBase) ub" where
  "db_run ops [] x = Some ([], x)"
| "db_run ops (op # os) x = do {
     (r, x) \<leftarrow> db_exec ops op x;
     (rs, x) \<leftarrow> db_run ops os x;
     Some (r # rs, x)
   }"

type_synonym db_maps = "(string \<rightharpoonup> u64 \<times> string) \<times> (string \<rightharpoonup> string)"

fun spec_exec :: "db_op \<Rightarrow> db_maps \<Rightarrow> ret_code \<times> db_maps" where
  "spec_exec (DSet now key val) (p, z) = (db_ok, p(key \<mapsto> (now, val)), z)"
| "spec_exec (DDel key) (p, z) = (db_ok, p(key := None), z)"
| "spec_exec (DZset m sc) (p, z) =
     (if m = [] \<or> z m = Some sc then (db_err, p, z) else (db_ok, p, z(m \<mapsto> sc)))"
| "spec_exec (DZdel m) (p, z) =
     (if m = [] \<or> z m = None then (db_err, p, z) else (db_ok, p, z(m := None)))"
| "spec_exec DFlush (p, z) = (db_ok, Map.empty, Map.empty)"

fun spec_run :: "db_op list \<Rightarrow> db_maps \<Rightarrow> ret_code list \<times> db_maps" where
  "spec_run [] pz = ([], pz)"
| "spec_run (op # os) pz = (let (r, pz) = spec_exec op pz; (rs, pz) = spec_run os pz in (r # rs, pz))"

text \<open>The maps that the contents of the store represent.\<close>

definition value_parts :: "string \<Rightarrow> u64 \<times> string" where
  "value_parts v = (of_le_bytes (take 8 v), drop 8 v)"

definition abs_db :: "(string \<rightharpoonup> string) \<Rightarrow> db_maps" where
  "abs_db c = ((\<lambda>key. map_option value_parts (c (key_kv key))), (\<lambda>m. c (key_zset ''expire'' m)))"

definition db_inv :: "(string \<rightharpoonup> string) \<Rightarrow> bool" where
  "db_inv c \<longleftrightarrow> values_stamped c \<and> zset_inv ''expire'' c"

lemma db_invI [inv_intros]: "values_stamped c \<Longrightarrow> zset_inv ''expire'' c \<Longrightarrow> db_inv c"
  by (simp add: db_inv_def)

lemma db_inv_empty: "db_inv Map.empty"
  by (simp add: db_inv_def values_stamped_def zset_inv_empty)

lemma value_parts_stamped [simp]: "value_parts (stamped ts val) = (ts, val)"
  by (simp add: value_parts_def stamped_def of_le_bytes_le_bytes take_bit_word_eq_self)

lemma abs_db_upd:
  "abs_db (c(key_kv k \<mapsto> stamped ts val)) = (case abs_db c of (p, z) \<Rightarrow> (p(k \<mapsto> (ts, val)), z))"
  "abs_db (c(key_kv k := None)) = (case abs_db c of (p, z) \<Rightarrow> (p(k := None), z))"
  "abs_db (zset_put ''expire'' m sc c) = (case abs_db c of (p, z) \<Rightarrow> (p, z(m \<mapsto> sc)))"
  "abs_db (zset_del ''expire'' m c) = (case abs_db c of (p, z) \<Rightarrow> (p, z(m := None)))"
  "abs_db Map.empty = (Map.empty, Map.empty)"
  by (auto simp: abs_db_def fun_eq_iff zset_put_def zset_del_def zscore_of_def split: option.split)

context rocksdb_reliable
begin

lemma db_exec_ok:
  assumes "dbp x = Some d" "etag_ready x" "db_inv (contents d)"
  shows "\<exists>r x' d'. db_exec ops op x = Some (r, x') \<and> dbp x' = Some d' \<and> etag_ready x' \<and> db_inv (contents d') \<and>
    (r, abs_db (contents d')) = spec_exec op (abs_db (contents d))"
proof -
  note inv = assms(3) [unfolded db_inv_def]
  show ?thesis
  proof (cases op)
    case (DSet now key val)
    then show ?thesis using Set_eq [OF assms(1,2), of now key val] inv
      by (auto simp: abs_db_upd intro!: inv_intros split: prod.split)
  next
    case (DDel key)
    then show ?thesis using Del_eq [OF assms(1), of key] assms(2) inv
      by (auto simp: abs_db_upd intro!: inv_intros split: prod.split)
  next
    case (DZset m sc)
    consider (empty) "m = []" | (same) "m \<noteq> []" "contents d (key_zset ''expire'' m) = Some sc"
      | (put) "m \<noteq> []" "contents d (key_zset ''expire'' m) \<noteq> Some sc" by auto
    then show ?thesis
    proof cases
      case empty
      then show ?thesis using DZset assms by (auto simp: xDataBase_Zset_def abs_db_def)
    next
      case same
      then show ?thesis using DZset assms Zset_same [OF assms(1) same(2)] by (auto simp: abs_db_def)
    next
      case put
      have "spec_exec op (abs_db (contents d)) =
          (db_ok, abs_db (zset_put ''expire'' m sc (contents d)))"
        unfolding abs_db_upd using DZset put by (simp add: abs_db_def)
      then show ?thesis using DZset assms Zset_eq [OF assms(1) _ put, of ] inv
        by (auto intro!: inv_intros)
    qed
  next
    case (DZdel m)
    consider (empty) "m = []" | (none) "contents d (key_zset ''expire'' m) = None"
      | (del) sc where "m \<noteq> []" "contents d (key_zset ''expire'' m) = Some sc" by (cases "contents d (key_zset ''expire'' m)") auto
    then show ?thesis
    proof cases
      case empty
      then show ?thesis using DZdel assms by (auto simp: xDataBase_Zdel_def abs_db_def)
    next
      case none
      then show ?thesis using DZdel assms Zdel_none [OF assms(1) none] by (auto simp: abs_db_def)
    next
      case del
      have "spec_exec op (abs_db (contents d)) =
          (db_ok, abs_db (zset_del ''expire'' m (contents d)))"
        unfolding abs_db_upd using DZdel del by (simp add: abs_db_def)
      then show ?thesis using DZdel assms Zdel_eq [OF assms(1) _ del] inv
        by (auto intro!: inv_intros)
    qed
  next
    case DFlush
    then show ?thesis using Flushall_eq [OF assms(1)] assms(2) db_inv_empty
      by (cases "abs_db (contents d)") (auto simp: abs_db_upd)
  qed
qed

lemma db_run_ok:
  assumes "dbp x = Some d" "etag_ready x" "db_inv (contents d)"
  shows "\<exists>rs x' d'. db_run ops os x = Some (rs, x') \<and> dbp x' = Some d' \<and> etag_ready x' \<and> db_inv (contents d') \<and>
    (rs, abs_db (contents d')) = spec_run os (abs_db (contents d))"
  using assms
proof (induction os arbitrary: x d)
  case (Cons op os)
  from db_exec_ok [OF Cons.prems, of op] obtain r x1 d1 where 1: "db_exec ops op x = Some (r, x1)"
    "dbp x1 = Some d1" "etag_ready x1" "db_inv (contents d1)"
    "spec_exec op (abs_db (contents d)) = (r, abs_db (contents d1))" by metis
  from Cons.IH [OF 1(2-4)] obtain rs x' d' where 2: "db_run ops os x1 = Some (rs, x')" "dbp x' = Some d'"
    "etag_ready x'" "db_inv (contents d')" "spec_run os (abs_db (contents d1)) = (rs, abs_db (contents d'))" by metis
  then show ?case using 1 by simp
qed simp

lemma db_run_empty:
  assumes "dbp x = Some d" "contents d = Map.empty" "etag_ready x"
  shows "\<exists>rs x' d'. db_run ops os x = Some (rs, x') \<and> dbp x' = Some d' \<and> etag_ready x' \<and> db_inv (contents d') \<and>
    spec_run os (Map.empty, Map.empty) = (rs, abs_db (contents d'))"
  using db_run_ok [OF assms(1,3), of os] db_inv_empty by (auto simp: assms(2) abs_db_upd(5))

lemma Get_abs:
  assumes "dbp x = Some d" "etag_ready x" "db_inv (contents d)"
  shows "\<exists>x'. xDataBase_Get ops key v0 x = Some (case fst (abs_db (contents d)) key of
      None \<Rightarrow> (db_null, v0, x') | Some (ts, val) \<Rightarrow> (db_ok, \<lparr>timestamp = ts, strValue = val\<rparr>, x'))"
proof (cases "contents d (key_kv key)")
  case None
  then show ?thesis using Get_null [OF assms(1) None, of v0] by (auto simp: abs_db_def)
next
  case (Some v)
  then obtain ts val where "v = stamped ts val"
    using values_stampedD assms(3) unfolding db_inv_def by blast
  with Some Get_value [OF assms(1) _ assms(2), of key ts val v0] show ?thesis by (auto simp: abs_db_def)
qed

lemma dom_abs_db: "dom (fst (abs_db c)) = {k. c (key_kv k) \<noteq> None}"
  by (auto simp: abs_db_def)

end

text \<open>
  C1: The database behaves as two maps. On a store that does not fail, after any sequence of
  \<open>Set\<close>, \<open>Del\<close>, \<open>Zset\<close>, \<open>Zdel\<close> (on the set of expiry times) and \<open>Flushall\<close> calls on an empty
  store, every call has returned the code the specification gives, \<open>Get\<close> returns the value last
  set with the time it was set at, or \<open>db_null\<close>, and \<open>Zget\<close> the score last set, or \<open>db_null\<close>.
\<close>

theorem database_refines_maps:
  assumes "rocksdb_reliable ops contents it_all it_rest"
    and "dbp x = Some d" "contents d = Map.empty" "etag_ready x"
  shows "\<exists>rs x' p z. db_run ops os x = Some (rs, x') \<and> spec_run os (Map.empty, Map.empty) = (rs, p, z) \<and>
    (\<forall>key v0. \<exists>x''. xDataBase_Get ops key v0 x' = Some (case p key of
       None \<Rightarrow> (db_null, v0, x'') | Some (ts, val) \<Rightarrow> (db_ok, \<lparr>timestamp = ts, strValue = val\<rparr>, x''))) \<and>
    (\<forall>m s0. xDataBase_Zget ops ''expire'' m s0 x' = Some (case z m of
       None \<Rightarrow> (db_null, s0) | Some sc \<Rightarrow> (db_ok, sc)))"
proof -
  obtain rs x' d' where run: "db_run ops os x = Some (rs, x')" "dbp x' = Some d'" "etag_ready x'"
      "db_inv (contents d')" "spec_run os (Map.empty, Map.empty) = (rs, abs_db (contents d'))"
    using rocksdb_reliable.db_run_empty [OF assms, of os] by blast
  then show ?thesis
    using rocksdb_reliable.Get_abs [OF assms(1) run(2-4)] rocksdb_reliable.Zget_eq [OF assms(1) run(2)]
    by (intro exI [of _ rs] exI [of _ x'] exI [of _ "fst (abs_db (contents d'))"] exI [of _ "snd (abs_db (contents d'))"])
      (simp add: abs_db_def)
qed

definition mem_db :: "(string \<times> string) list xDataBase" where
  "mem_db = \<lparr>dbp = Some [],
     options = \<lparr>opt_create_if_missing = True, opt_max_open_files = 100, opt_write_buffer_size = 0,
                opt_db_log_dir = [], opt_snappy = False\<rparr>,
     xEtag = None, bEtag = False\<rparr>"

theorem database_refines_maps_witness:
  "\<exists>rs x' p z. db_run mem_ops [DSet 5 ''a'' ''1'', DZset ''a'' ''900'', DSet 6 ''a'' ''2'', DDel ''b''] mem_db = Some (rs, x') \<and>
    spec_run [DSet 5 ''a'' ''1'', DZset ''a'' ''900'', DSet 6 ''a'' ''2'', DDel ''b''] (Map.empty, Map.empty) = (rs, p, z) \<and>
    (\<forall>key v0. \<exists>x''. xDataBase_Get mem_ops key v0 x' = Some (case p key of
       None \<Rightarrow> (db_null, v0, x'') | Some (ts, val) \<Rightarrow> (db_ok, \<lparr>timestamp = ts, strValue = val\<rparr>, x''))) \<and>
    (\<forall>m s0. xDataBase_Zget mem_ops ''expire'' m s0 x' = Some (case z m of
       None \<Rightarrow> (db_null, s0) | Some sc \<Rightarrow> (db_ok, sc)))"
  by (rule database_refines_maps [OF mem.rocksdb_reliable_axioms]) (simp_all add: mem_db_def etag_ready_def)

text \<open>
  C13: A scan returns exactly the keys of a range. After any such sequence of calls, \<open>ScanKey\<close>
  returns the first \<open>limit\<close> of the keys that hold a value and lie in \<open>[start, end)\<close>, in byte
  order: neither expiry bookkeeping nor deleted keys show up, and no key is left out before the
  limit.
\<close>

theorem scankey_exact:
  assumes "rocksdb_reliable ops contents it_all it_rest"
    and "dbp x = Some d" "contents d = Map.empty" "etag_ready x"
  shows "\<exists>rs x' p z. db_run ops os x = Some (rs, x') \<and> spec_run os (Map.empty, Map.empty) = (rs, p, z) \<and>
    xDataBase_ScanKey ops start stop limit [] x' =
      Some (db_ok, take (nat limit) (sorted_list_of_set {k \<in> dom p. start \<le> k \<and> k < stop}))"
proof -
  obtain rs x' d' where run: "db_run ops os x = Some (rs, x')" "dbp x' = Some d'" "etag_ready x'"
      "db_inv (contents d')" "spec_run os (Map.empty, Map.empty) = (rs, abs_db (contents d'))"
    using rocksdb_reliable.db_run_empty [OF assms, of os] by blast
  then show ?thesis
    using rocksdb_reliable.ScanKey_eq [OF assms(1) run(2), of start stop limit "[]"]
    by (intro exI [of _ rs] exI [of _ x'] exI [of _ "fst (abs_db (contents d'))"] exI [of _ "snd (abs_db (contents d'))"])
      (simp add: rocksdb_reliable.dom_abs_db [OF assms(1)])
qed

theorem scankey_exact_witness:
  "\<exists>rs x' p z. db_run mem_ops [DSet 5 ''b'' ''1'', DSet 6 ''a'' ''2'', DZset ''a'' ''900''] mem_db = Some (rs, x') \<and>
    spec_run [DSet 5 ''b'' ''1'', DSet 6 ''a'' ''2'', DZset ''a'' ''900''] (Map.empty, Map.empty) = (rs, p, z) \<and>
    xDataBase_ScanKey mem_ops ''a'' ''z'' 10 [] x' =
      Some (db_ok, take (nat 10) (sorted_list_of_set {k \<in> dom p. ''a'' \<le> k \<and> k < ''z''}))"
  by (rule scankey_exact [OF mem.rocksdb_reliable_axioms]) (simp_all add: mem_db_def etag_ready_def)

text \<open>
  C14: The expiry times are loaded in order. After any such sequence of calls,
  \<open>LoadExpirationKeys\<close> adds to the queue the first \<open>limit\<close> of the members whose score \<open>s\<close> is
  \<open>0 \<le> s < INT64_MAX\<close>, in the order of score and member, with their scores, and returns \<open>db_ok\<close>.
\<close>

theorem load_expiration_exact:
  assumes "rocksdb_reliable ops contents it_all it_rest"
    and "dbp x = Some d" "contents d = Map.empty" "etag_ready x"
  shows "\<exists>rs x' p z. db_run ops os x = Some (rs, x') \<and> spec_run os (Map.empty, Map.empty) = (rs, p, z) \<and>
    xDataBase_LoadExpirationKeys ops ''expire'' q limit x' =
      Some (db_ok, fold (\<lambda>(s, m) q. snd (SortedSet_add m s q))
        (take (nat limit) (sorted_list_of_set
          {(s, m). map_option str_to_int64 (z m) = Some s \<and> 0 \<le> s \<and> s < INT64_MAX})) q)"
proof -
  obtain rs x' d' where run: "db_run ops os x = Some (rs, x')" "dbp x' = Some d'" "etag_ready x'"
      "db_inv (contents d')" "spec_run os (Map.empty, Map.empty) = (rs, abs_db (contents d'))"
    using rocksdb_reliable.db_run_empty [OF assms, of os] by blast
  have "zset_inv ''expire'' (contents d')" using run(4) by (simp add: db_inv_def)
  from rocksdb_reliable.Load_eq [OF assms(1) run(2) this, of q limit] run(1,5) show ?thesis
    by (intro exI [of _ rs] exI [of _ x'] exI [of _ "fst (abs_db (contents d'))"] exI [of _ "snd (abs_db (contents d'))"])
      (simp add: abs_db_def pending_def zscore_of_def)
qed

theorem load_expiration_exact_witness:
  "\<exists>rs x' p z. db_run mem_ops [DZset ''b'' ''900'', DZset ''a'' ''1000'', DZset ''a'' ''7''] mem_db = Some (rs, x') \<and>
    spec_run [DZset ''b'' ''900'', DZset ''a'' ''1000'', DZset ''a'' ''7''] (Map.empty, Map.empty) = (rs, p, z) \<and>
    xDataBase_LoadExpirationKeys mem_ops ''expire'' SortedSet_new 1000 x' =
      Some (db_ok, fold (\<lambda>(s, m) q. snd (SortedSet_add m s q))
        (take (nat 1000) (sorted_list_of_set
          {(s, m). map_option str_to_int64 (z m) = Some s \<and> 0 \<le> s \<and> s < INT64_MAX})) SortedSet_new)"
  by (rule load_expiration_exact [OF mem.rocksdb_reliable_axioms]) (simp_all add: mem_db_def etag_ready_def)

fun set_many :: "('db, 'it) rocksdb_ops \<Rightarrow> (u64 \<times> string \<times> string) list \<Rightarrow> 'db xDataBase \<Rightarrow> 'db xDataBase ub" where
  "set_many ops [] x = Some x"
| "set_many ops ((now, key, val) # kvs) x = do {
     (_, x) \<leftarrow> xDataBase_Set ops now key val x;
     set_many ops kvs x
   }"

lemma set_many_frame:
  assumes "rocksdb ops contents" "key \<notin> (fst \<circ> snd) ` set kvs" "set_many ops kvs x = Some x'"
    "dbp x = Some d"
  shows "\<exists>d'. dbp x' = Some d' \<and> contents d' (key_kv key) = contents d (key_kv key)"
  using assms(2-)
proof (induction kvs arbitrary: x d)
  case (Cons kv kvs)
  obtain now k val where kv: "kv = (now, k, val)" by (metis prod_cases3)
  obtain r x1 where 1: "xDataBase_Set ops now k val x = Some (r, x1)" "set_many ops kvs x1 = Some x'"
    using Cons.prems(2) kv by (auto split: bind_splits)
  have "key_kv key \<noteq> key_kv k" using Cons.prems(1) kv by auto
  from rocksdb.Set_frame [OF assms(1) 1(1) Cons.prems(3) this] obtain d1 where
    "dbp x1 = Some d1" "contents d1 (key_kv key) = contents d (key_kv key)" by auto
  with Cons.IH [of x1 d1] 1(2) Cons.prems(1) show ?case by auto
qed auto





end
