(* ===== verification/Xhc_Config.thy ===== *)
theory Xhc_Config
  imports Xhc_IniFile Xhc_DataBase
begin


text \<open>
  \<open>src/xConfig.cpp\<close>: the settings of the process, read from the configuration file with
  \<open>CIniFile\<close>. The settings are one object with static storage, so the fields the file does not
  set are zero or empty at first and keep their value on a later \<open>Load\<close>. \<open>Debug\<close> only writes
  to the log and is left out. The product in \<open>max_upload_file_size\<close> is one of type \<open>int\<close>
  and undefined when it overflows.
\<close>

section \<open>Definitions\<close>

record CACHE_CONFIG =
  log_filename :: string
  log_filesize :: u64
  log_level :: string
  run_daemonize :: int
  run_guard :: int
  cfg_debug :: int
  redis_ip :: string
  redis_port :: int
  redis_passwd :: string

record HTTP_FRONTEND_CONFIG =
  fe_ip :: string
  fe_port :: int
  fe_threads :: int
  fe_timeout :: int
  fe_gzip :: int
  fe_etag :: int
  etag_cache_count :: int
  etag_cache_size :: int
  fe_pemfile :: string
  fe_privfile :: string
  fe_ssl_timeout :: int
  default_index :: string

record HTTP_BACKEND_CONFIG =
  be_ip :: string
  be_port :: int
  be_threads :: int
  be_timeout :: int
  username :: string
  password :: string
  be_encode_pass :: string
  be_pemfile :: string
  be_privfile :: string
  be_ssl_timeout :: int
  max_upload_file_size :: int

record xConfig =
  app :: CACHE_CONFIG
  frontend :: HTTP_FRONTEND_CONFIG
  backend :: HTTP_BACKEND_CONFIG
  db :: ROCKSDB_CONFIG

definition LoadxHttpdAppConfig :: "CIniFile \<Rightarrow> xConfig \<Rightarrow> (bool \<times> xConfig) ub" where
  "LoadxHttpdAppConfig iniFile cfg = do {
     redis_ip' \<leftarrow> GetValue ''xhttpcache'' ''redis_ip'' [] iniFile;
     redis_port' \<leftarrow> GetValueI ''xhttpcache'' ''redis_port'' 0 iniFile;
     debug' \<leftarrow> GetValueI ''xhttpcache'' ''debug'' 0 iniFile;
     log_filename' \<leftarrow> GetValue ''xhttpcache'' ''log_filename'' [] iniFile;
     log_filesize' \<leftarrow> GetValueI ''xhttpcache'' ''log_filesize'' 0 iniFile;
     log_level' \<leftarrow> GetValue ''xhttpcache'' ''log_level'' [] iniFile;
     daemonize' \<leftarrow> GetValueI ''xhttpcache'' ''daemonize'' 0 iniFile;
     guard' \<leftarrow> GetValueI ''xhttpcache'' ''guard'' 0 iniFile;
     let a = (app cfg)\<lparr>redis_ip := redis_ip', redis_port := redis_port', cfg_debug := debug',
                log_filename := log_filename', log_filesize := word_of_int log_filesize',
                log_level := map toupper log_level', run_daemonize := daemonize', run_guard := guard'\<rparr>;
     ip \<leftarrow> GetValue ''xhttpd_frontend'' ''ip'' [] iniFile;
     port \<leftarrow> GetValueI ''xhttpd_frontend'' ''port'' 0 iniFile;
     threads \<leftarrow> GetValueI ''xhttpd_frontend'' ''threads'' 0 iniFile;
     timeout \<leftarrow> GetValueI ''xhttpd_frontend'' ''timeout'' 0 iniFile;
     gzip \<leftarrow> GetValueI ''xhttpd_frontend'' ''gzip'' 0 iniFile;
     etag \<leftarrow> GetValueI ''xhttpd_frontend'' ''etag'' 1 iniFile;
     count \<leftarrow> GetValueI ''xhttpcache'' ''etag_cache_count'' 4 iniFile;
     size \<leftarrow> GetValueI ''xhttpcache'' ''etag_cache_size'' 1000 iniFile;
     pemfile \<leftarrow> GetValue ''xhttpd_frontend'' ''pemfile'' [] iniFile;
     privfile \<leftarrow> GetValue ''xhttpd_frontend'' ''privfile'' [] iniFile;
     ssl_timeout \<leftarrow> GetValueI ''xhttpd_frontend'' ''ssl_timeout'' 5 iniFile;
     index \<leftarrow> GetValue ''xhttpd_frontend'' ''default_index'' [] iniFile;
     let f = \<lparr>fe_ip = ip, fe_port = port, fe_threads = threads, fe_timeout = timeout, fe_gzip = gzip,
              fe_etag = etag, etag_cache_count = count,
              etag_cache_size = (if size = 0 then 1000 else size),
              fe_pemfile = pemfile, fe_privfile = privfile, fe_ssl_timeout = ssl_timeout, default_index = index\<rparr>;
     ip \<leftarrow> GetValue ''xhttpd_backend'' ''ip'' [] iniFile;
     port \<leftarrow> GetValueI ''xhttpd_backend'' ''port'' 0 iniFile;
     threads \<leftarrow> GetValueI ''xhttpd_backend'' ''threads'' 0 iniFile;
     timeout \<leftarrow> GetValueI ''xhttpd_backend'' ''timeout'' 0 iniFile;
     user \<leftarrow> GetValue ''xhttpd_backend'' ''username'' [] iniFile;
     pass \<leftarrow> GetValue ''xhttpd_backend'' ''password'' [] iniFile;
     pemfile \<leftarrow> GetValue ''xhttpd_backend'' ''pemfile'' [] iniFile;
     privfile \<leftarrow> GetValue ''xhttpd_backend'' ''privfile'' [] iniFile;
     ssl_timeout \<leftarrow> GetValueI ''xhttpd_backend'' ''ssl_timeout'' 5 iniFile;
     upload \<leftarrow> GetValueI ''xhttpd_backend'' ''max_upload_file_size'' 10 iniFile;
     upload \<leftarrow> (if 0 < upload then if upload * 1024 \<le> INT_MAX then Some (upload * 1024) else None
                else Some (128 * 1024));
     let b = \<lparr>be_ip = ip, be_port = port, be_threads = threads, be_timeout = timeout, username = user, password = pass,
              be_encode_pass = (if 0 < length user \<and> 0 < length pass then encode_pass user pass
                                else be_encode_pass (backend cfg)),
              be_pemfile = pemfile, be_privfile = privfile, be_ssl_timeout = ssl_timeout, max_upload_file_size = upload\<rparr>;
     Some (True, cfg\<lparr>app := a, frontend := f, backend := b\<rparr>)
   }"

definition LoadxDBConfig :: "CIniFile \<Rightarrow> xConfig \<Rightarrow> (bool \<times> xConfig) ub" where
  "LoadxDBConfig iniFile cfg = do {
     base_dir \<leftarrow> GetValue ''rocksdb'' ''db_base_dir'' [] iniFile;
     create \<leftarrow> GetValueB ''rocksdb'' ''create_if_missing'' False iniFile;
     open_files \<leftarrow> GetValueI ''rocksdb'' ''max_open_files'' 0 iniFile;
     opening_threads \<leftarrow> GetValueI ''rocksdb'' ''max_file_opening_threads'' 0 iniFile;
     wal_size \<leftarrow> GetValueI ''rocksdb'' ''max_total_wal_size'' 0 iniFile;
     log_dir \<leftarrow> GetValue ''rocksdb'' ''db_log_dir'' [] iniFile;
     buffer_size \<leftarrow> GetValueI ''rocksdb'' ''write_buffer_size'' 0 iniFile;
     compress \<leftarrow> GetValueB ''rocksdb'' ''compression'' False iniFile;
     ttl \<leftarrow> GetValueB ''rocksdb'' ''ttl'' False iniFile;
     Some (True, cfg\<lparr>db := \<lparr>db_base_dir = base_dir, create_if_missing = create, max_open_files = open_files,
       max_file_opening_threads = opening_threads, max_total_wal_size = word_of_int wal_size, db_log_dir = log_dir,
       write_buffer_size = word_of_int buffer_size, compression = compress, cfg_ttl = (if ttl then 1 else 0)\<rparr>\<rparr>)
   }"

definition xConfig_Load :: "string option \<Rightarrow> string \<Rightarrow> xConfig \<Rightarrow> (bool \<times> xConfig) ub" where
  "xConfig_Load file IniFile cfg = do {
     (ok, iniFile) \<leftarrow> ReadFile file (CIniFile_new IniFile);
     if ok then do {
       (_, cfg) \<leftarrow> LoadxHttpdAppConfig iniFile cfg;
       (_, cfg) \<leftarrow> LoadxDBConfig iniFile cfg;
       Some (True, cfg)
     } else Some (False, cfg)
   }"

section \<open>Lemmas\<close>

text \<open>What the getters return for a name, with a default value.\<close>

definition ini_str :: "CIniFile \<Rightarrow> string \<Rightarrow> string \<Rightarrow> string" where
  "ini_str c kn n = (case ini_lookup c kn n of None \<Rightarrow> [] | Some v \<Rightarrow> v)"

definition ini_int :: "CIniFile \<Rightarrow> string \<Rightarrow> string \<Rightarrow> int \<Rightarrow> int" where
  "ini_int c kn n d = (case ini_lookup c kn n of None \<Rightarrow> d | Some v \<Rightarrow> atoi v)"

definition upload_setting :: "CIniFile \<Rightarrow> int" where
  "upload_setting c = ini_int c ''xhttpd_backend'' ''max_upload_file_size'' 10"

lemma getters:
  assumes "ini_inv c"
  shows "GetValue kn n [] c = Some (ini_str c kn n)"
    "INT_MIN \<le> i \<Longrightarrow> i \<le> INT_MAX \<Longrightarrow> GetValueI kn n i c = Some (ini_int c kn n i)"
    "GetValueB kn n b c = Some (ini_int c kn n (if b then 1 else 0) \<noteq> 0)"
proof -
  show "GetValue kn n [] c = Some (ini_str c kn n)" by (simp add: GetValue_lookup [OF assms] ini_str_def)
  show *: "GetValueI kn n i c = Some (ini_int c kn n i)" if "INT_MIN \<le> i" "i \<le> INT_MAX" for i
    using atoi_dec_int [OF that] by (simp add: GetValueI_def GetValue_lookup [OF assms] ini_int_def split: option.split)
  show "GetValueB kn n b c = Some (ini_int c kn n (if b then 1 else 0) \<noteq> 0)"
    using * [of 1] * [of 0] by (simp add: GetValueB_def INT_MIN_def INT_MAX_def)
qed

lemma LoadxHttpdAppConfig_eq:
  assumes "ini_inv c"
  shows "LoadxHttpdAppConfig c cfg =
    (if upload_setting c * 1024 \<le> INT_MAX then
       Some (True, cfg\<lparr>
         app := (app cfg)\<lparr>redis_ip := ini_str c ''xhttpcache'' ''redis_ip'', redis_port := ini_int c ''xhttpcache'' ''redis_port'' 0,
           cfg_debug := ini_int c ''xhttpcache'' ''debug'' 0, log_filename := ini_str c ''xhttpcache'' ''log_filename'',
           log_filesize := word_of_int (ini_int c ''xhttpcache'' ''log_filesize'' 0),
           log_level := map toupper (ini_str c ''xhttpcache'' ''log_level''),
           run_daemonize := ini_int c ''xhttpcache'' ''daemonize'' 0, run_guard := ini_int c ''xhttpcache'' ''guard'' 0\<rparr>,
         frontend := \<lparr>fe_ip = ini_str c ''xhttpd_frontend'' ''ip'', fe_port = ini_int c ''xhttpd_frontend'' ''port'' 0,
           fe_threads = ini_int c ''xhttpd_frontend'' ''threads'' 0, fe_timeout = ini_int c ''xhttpd_frontend'' ''timeout'' 0,
           fe_gzip = ini_int c ''xhttpd_frontend'' ''gzip'' 0, fe_etag = ini_int c ''xhttpd_frontend'' ''etag'' 1,
           etag_cache_count = ini_int c ''xhttpcache'' ''etag_cache_count'' 4,
           etag_cache_size = (let n = ini_int c ''xhttpcache'' ''etag_cache_size'' 1000 in if n = 0 then 1000 else n),
           fe_pemfile = ini_str c ''xhttpd_frontend'' ''pemfile'', fe_privfile = ini_str c ''xhttpd_frontend'' ''privfile'',
           fe_ssl_timeout = ini_int c ''xhttpd_frontend'' ''ssl_timeout'' 5,
           default_index = ini_str c ''xhttpd_frontend'' ''default_index''\<rparr>,
         backend := \<lparr>be_ip = ini_str c ''xhttpd_backend'' ''ip'', be_port = ini_int c ''xhttpd_backend'' ''port'' 0,
           be_threads = ini_int c ''xhttpd_backend'' ''threads'' 0, be_timeout = ini_int c ''xhttpd_backend'' ''timeout'' 0,
           username = ini_str c ''xhttpd_backend'' ''username'', password = ini_str c ''xhttpd_backend'' ''password'',
           be_encode_pass = (if ini_str c ''xhttpd_backend'' ''username'' = [] \<or> ini_str c ''xhttpd_backend'' ''password'' = []
             then be_encode_pass (backend cfg)
             else encode_pass (ini_str c ''xhttpd_backend'' ''username'') (ini_str c ''xhttpd_backend'' ''password'')),
           be_pemfile = ini_str c ''xhttpd_backend'' ''pemfile'', be_privfile = ini_str c ''xhttpd_backend'' ''privfile'',
           be_ssl_timeout = ini_int c ''xhttpd_backend'' ''ssl_timeout'' 5,
           max_upload_file_size = (if 0 < upload_setting c then upload_setting c * 1024 else 128 * 1024)\<rparr>\<rparr>)
     else None)"
proof -
  have r: "INT_MIN \<le> 0" "INT_MIN \<le> 1" "INT_MIN \<le> 4" "INT_MIN \<le> 1000" "INT_MIN \<le> 5" "INT_MIN \<le> 10"
    "0 \<le> INT_MAX" "1 \<le> INT_MAX" "4 \<le> INT_MAX" "1000 \<le> INT_MAX" "5 \<le> INT_MAX" "10 \<le> INT_MAX"
    by (simp_all add: INT_MIN_def INT_MAX_def)
  have neg: "upload_setting c * 1024 \<le> INT_MAX" if "\<not> 0 < upload_setting c" using that by (simp add: INT_MAX_def)
  show ?thesis
    unfolding LoadxHttpdAppConfig_def getters(1) [OF assms] getters(2) [OF assms r(1,7)] getters(2) [OF assms r(2,8)]
      getters(2) [OF assms r(3,9)] getters(2) [OF assms r(4,10)] getters(2) [OF assms r(5,11)] getters(2) [OF assms r(6,12)]
      upload_setting_def [symmetric] Let_def bind.bind_lunit
    using neg by (cases "0 < upload_setting c"; cases "upload_setting c * 1024 \<le> INT_MAX") simp_all
qed

lemma LoadxDBConfig_eq:
  assumes "ini_inv c"
  shows "LoadxDBConfig c cfg = Some (True, cfg\<lparr>db := \<lparr>db_base_dir = ini_str c ''rocksdb'' ''db_base_dir'',
      create_if_missing = (ini_int c ''rocksdb'' ''create_if_missing'' 0 \<noteq> 0), max_open_files = ini_int c ''rocksdb'' ''max_open_files'' 0,
      max_file_opening_threads = ini_int c ''rocksdb'' ''max_file_opening_threads'' 0,
      max_total_wal_size = word_of_int (ini_int c ''rocksdb'' ''max_total_wal_size'' 0),
      db_log_dir = ini_str c ''rocksdb'' ''db_log_dir'', write_buffer_size = word_of_int (ini_int c ''rocksdb'' ''write_buffer_size'' 0),
      compression = (ini_int c ''rocksdb'' ''compression'' 0 \<noteq> 0), cfg_ttl = (if ini_int c ''rocksdb'' ''ttl'' 0 \<noteq> 0 then 1 else 0)\<rparr>\<rparr>)"
proof -
  have r: "INT_MIN \<le> 0" "0 \<le> INT_MAX" by (simp_all add: INT_MIN_def INT_MAX_def)
  show ?thesis unfolding LoadxDBConfig_def getters(1,3) [OF assms] getters(2) [OF assms r] by simp
qed

lemma ReadFile_inv: "\<exists>r c. ReadFile f (CIniFile_new p) = Some (r, c) \<and> ini_inv c"
  using ReadFile_loop_inv [OF ini_inv_new, of "getlines (the f)" "[]" p] ini_inv_new [of p]
  by (cases f) (auto simp: ReadFile_def)

lemma toupper_not_lower: "x \<in> set (map toupper s) \<Longrightarrow> \<not> (97 \<le> byte_val x \<and> byte_val x \<le> 122)"
  by (auto simp: toupper_def islower_def split: if_splits)

section \<open>Properties\<close>




definition sample_ini :: CIniFile where
  "sample_ini = \<lparr>caseInsensitive = True, path = [],
     keys = [\<lparr>key_names = [''ip'', ''port''], key_values = [''0.0.0.0'', ''8080''], key_comments = []\<rparr>],
     names = [''xhttpd_frontend''], comments = []\<rparr>"


end
