(* ===== verification/Xhc_Frontend.thy ===== *)
theory Xhc_Frontend
  imports Xhc_Http Xhc_Config
begin


text \<open>
  \<open>src/xevHtpdFrontend.cpp\<close>: the HTTP front end, which serves the values of the database. The
  database is the state shared with the other servers; the settings are those of the configuration.
  The time stamp of a new \<open>xValue\<close> is not initialised; \<open>ts0\<close> is what it happens to hold.

  \<open>AddHeader\<close> asks libevhtp for no copy of a header, so the library reads the buffers \<open>LastModified\<close>
  and \<open>Etag\<close> of \<open>GetCallbackPro\<close> when the reply is sent, after the blocks that declare them. The
  model takes the bytes they were given, as if the library had copied them.
\<close>

section \<open>Definitions\<close>

datatype frontend_callback = IndexCallback_cb | GetCallback_cb

text \<open>
  The callbacks are given to the library in this order; \<open>set_cb\<close> tells whether it accepts one. The
  result is the return value, the time-out and the callbacks set.
\<close>

definition index_paths :: "HTTP_FRONTEND_CONFIG \<Rightarrow> string list" where
  "index_paths cfg = (if 0 < length (default_index cfg) then snd (str2Vect (Some (c_str (default_index cfg))) [] ''|'') else [])"

definition Frontend_SetRouteTable ::
  "(string \<Rightarrow> bool) \<Rightarrow> HTTP_FRONTEND_CONFIG \<Rightarrow> bool \<times> int \<times> (string \<times> frontend_callback) list" where
  "Frontend_SetRouteTable set_cb cfg =
     (let paths = index_paths cfg;
          done = takeWhile (\<lambda>p. set_cb (c_str p)) paths
      in if done \<noteq> paths then (False, fe_timeout cfg, map (\<lambda>p. (c_str p, IndexCallback_cb)) done)
         else if \<not> set_cb ''/*'' then (False, fe_timeout cfg, map (\<lambda>p. (c_str p, IndexCallback_cb)) paths)
         else (True, fe_timeout cfg, map (\<lambda>p. (c_str p, IndexCallback_cb)) paths @ [(''/*'', GetCallback_cb)]))"

text \<open>\<open>erase(0, 1)\<close> and \<open>erase(end() - 1)\<close>: the second is undefined on what is then empty.\<close>

definition strip_quotes :: "string \<Rightarrow> string ub" where
  "strip_quotes s = (let s = drop 1 s in if s = [] then None else Some (butlast s))"

definition last_modified :: "u64 \<Rightarrow> string ub" where
  "last_modified ts =
     (let s = toGMT (c_div (sint ts) 1000) @ '' GMT'' in if 32 \<le> length s then None else Some s)"

definition etag_text :: "u64 \<Rightarrow> string" where
  "etag_text ts = snprintf 22 ([CHR 0x22] @ dec_int (sint ts) @ [CHR 0x22])"

text \<open>The answer to a request for a value that is sent in full.\<close>

definition send_value :: "'z zlib_ops \<Rightarrow> HTTP_FRONTEND_CONFIG \<Rightarrow> string \<Rightarrow> string \<Rightarrow> evhtp_request \<Rightarrow> evhtp_request ub" where
  "send_value zo cfg uri val req =
     (let req = AddHeader ''Content-Type'' (GuessContentType uri) req
      in if fe_gzip cfg = 1 then do {
           (ret, buf) \<leftarrow> gzcompress zo val (length val);
           if ret \<noteq> 0 then Some (SendHttpResphone val req)
           else SendHttpResphone_buf buf (wrap32 (int (length buf))) (AddHeader ''Content-Encoding'' ''gzip'' req)
         }
         else Some (SendHttpResphone val req))"

text \<open>The three tests of what the client already has.\<close>

definition known_tag :: "bool \<Rightarrow> string option \<Rightarrow> string \<Rightarrow> 'db xDataBase \<Rightarrow> (bool \<times> 'db xDataBase) ub" where
  "known_tag etag_enable If_None_Match uri x =
     (case If_None_Match of
        Some h \<Rightarrow>
          if etag_enable then do {
            s \<leftarrow> strip_quotes (c_str h);
            xDataBase_CheckEtag uri (word_of_int (str_to_int64 s)) x
          } else Some (False, x)
      | None \<Rightarrow> Some (False, x))"

definition modified_since :: "string option \<Rightarrow> u64 \<Rightarrow> evhtp_request \<Rightarrow> (bool \<times> evhtp_request) ub" where
  "modified_since If_Modified_Since ts req =
     (case If_Modified_Since of
        None \<Rightarrow> Some (False, req)
      | Some h \<Rightarrow> do {
          l \<leftarrow> last_modified ts;
          Some (strncasecmp_eq (c_str h) l (length l), AddHeader ''Last-Modified'' l req)
        })"

definition none_match :: "bool \<Rightarrow> string option \<Rightarrow> u64 \<Rightarrow> evhtp_request \<Rightarrow> bool \<times> evhtp_request" where
  "none_match etag_enable If_None_Match ts req =
     (case If_None_Match of
        Some h \<Rightarrow>
          if etag_enable then
            let e = etag_text ts in (strncasecmp_eq e (c_str h) (length e), AddHeader ''ETag'' e req)
          else (False, req)
      | None \<Rightarrow> (False, req))"

definition GetCallbackPro ::
  "('db, 'it) rocksdb_ops \<Rightarrow> 'z zlib_ops \<Rightarrow> HTTP_FRONTEND_CONFIG \<Rightarrow> u64 \<Rightarrow> string option \<Rightarrow> evhtp_request \<Rightarrow> 'db xDataBase \<Rightarrow>
   (evhtp_request \<times> 'db xDataBase) ub" where
  "GetCallbackPro ops zo cfg ts0 uri req x =
     (if uri = None \<or> req_method req \<noteq> htp_method_GET then Some (SendStatusResphone EVHTP_RES_BADREQ ''error'' req, x)
      else do {
        uri \<leftarrow> uri;
        let etag_enable = (fe_etag cfg = 1);
        let If_Modified_Since = headers_in req ''If-Modified-Since'';
        let If_None_Match = headers_in req ''If-None-Match'';
        (known, x) \<leftarrow> known_tag etag_enable If_None_Match uri x;
        if known then Some (evhtp_send_reply EVHTP_RES_NOTMOD req, x)
        else do {
          (ret, val, x) \<leftarrow> xDataBase_Get ops uri \<lparr>timestamp = ts0, strValue = []\<rparr> x;
          if ret = db_null then Some (SendStatusResphone EVHTP_RES_NOTFOUND ''NOT FOUND'' req, x)
          else do {
            (Modified, req) \<leftarrow> modified_since If_Modified_Since (timestamp val) req;
            let (etag, req) = none_match etag_enable If_None_Match (timestamp val) req;
            if Modified \<or> etag then Some (evhtp_send_reply EVHTP_RES_NOTMOD req, x)
            else do {
              req \<leftarrow> send_value zo cfg uri (strValue val) req;
              Some (req, x)
            }
          }
        }
      })"

definition IndexCallback ::
  "('db, 'it) rocksdb_ops \<Rightarrow> 'z zlib_ops \<Rightarrow> HTTP_FRONTEND_CONFIG \<Rightarrow> u64 \<Rightarrow> evhtp_request \<Rightarrow> 'db xDataBase \<Rightarrow>
   (evhtp_request \<times> 'db xDataBase) ub" where
  "IndexCallback ops zo cfg ts0 req x = GetCallbackPro ops zo cfg ts0 (Some ''index.html'') req x"

definition GetCallback ::
  "('db, 'it) rocksdb_ops \<Rightarrow> 'z zlib_ops \<Rightarrow> HTTP_FRONTEND_CONFIG \<Rightarrow> u64 \<Rightarrow> evhtp_request \<Rightarrow> 'db xDataBase \<Rightarrow>
   (evhtp_request \<times> 'db xDataBase) ub" where
  "GetCallback ops zo cfg ts0 req x = do {
     uri \<leftarrow> path_key req;
     GetCallbackPro ops zo cfg ts0 (Some uri) req x
   }"

text \<open>The object holds a pointer to the database; \<open>Init\<close> refuses a null pointer.\<close>

definition Frontend_Init :: "'p option \<Rightarrow> 'p option \<Rightarrow> bool \<times> 'p option" where
  "Frontend_Init p xdb = (if p \<noteq> None then (True, p) else (False, xdb))"

text \<open>\<open>Run\<close> starts the thread of the event loop and returns true.\<close>

definition Frontend_Start ::
  "(string \<Rightarrow> bool) \<Rightarrow> HTTP_FRONTEND_CONFIG \<Rightarrow> string \<Rightarrow> int \<Rightarrow> int \<Rightarrow> xevHtpdBase \<Rightarrow>
   bool \<times> (string \<times> frontend_callback) list \<times> xevHtpdBase" where
  "Frontend_Start set_cb cfg ip port threads h =
     (let (ok, h) = BindSocket ip port h
      in if \<not> ok then (False, [], h)
         else let (ok, timeo, cbs) = Frontend_SetRouteTable set_cb cfg
              in (ok, cbs, h))"

section \<open>Lemmas\<close>

text \<open>
  The program never turns the recording of tags on, so the tag cache it sets up stays empty.
\<close>

definition no_tags :: "'db xDataBase \<Rightarrow> bool" where
  "no_tags x \<longleftrightarrow> (\<exists>m cnt sz. xEtag x = Some m \<and> xEtagManager_inv cnt sz m \<and> 0 < cnt \<and> cnt \<le> 2 ^ 31 \<and>
     (\<forall>j < cnt. recent_tags (etag_cache m ! j) = []))"

definition front_ready :: "HTTP_FRONTEND_CONFIG \<Rightarrow> 'db xDataBase \<Rightarrow> bool" where
  "front_ready cfg x \<longleftrightarrow> \<not> bEtag x \<and> (fe_etag cfg = 1 \<longrightarrow> no_tags x)"

lemma front_ready_etag: "front_ready cfg x \<Longrightarrow> etag_ready x"
  by (simp add: front_ready_def etag_ready_def)

lemma CheckEtag_no_tags:
  assumes "no_tags x"
  shows "\<exists>x'. xDataBase_CheckEtag key ts x = Some (False, x') \<and> dbp x' = dbp x \<and> bEtag x' = bEtag x \<and> no_tags x'"
proof -
  obtain m cnt sz where m: "xEtag x = Some m" "xEtagManager_inv cnt sz m" "0 < cnt" "cnt \<le> 2 ^ 31"
      "\<forall>j < cnt. recent_tags (etag_cache m ! j) = []"
    using assms by (auto simp: no_tags_def)
  let ?i = "shard cnt (etag_hashkey key ts)"
  have i: "?i < cnt" by (rule shard_less [OF m(3)])
  have none: "recent_tags (etag_cache m ! ?i) = []" using m(5) i by simp
  obtain c h where raw: "xEtagManager_GetKey key ts m = Some (etag_hashkey key ts \<in> set (recent_tags (etag_cache m ! ?i)),
        m\<lparr>get_hit := h, total_times := total_times m + 1, etag_cache := (etag_cache m)[?i := c]\<rparr>)"
      "EtagCache_inv c" "capacity c = sz"
      "recent_tags c = lru_exec sz (LGet (etag_hashkey key ts)) (recent_tags (etag_cache m ! ?i))"
    using GetKey_ok [OF m(2-4), of key ts] by blast
  then have c: "xEtagManager_GetKey key ts m =
      Some (False, m\<lparr>get_hit := h, total_times := total_times m + 1, etag_cache := (etag_cache m)[?i := c]\<rparr>)"
      "EtagCache_inv c" "capacity c = sz" "recent_tags c = []"
    unfolding none by (simp_all add: lru_get_def)
  let ?m = "m\<lparr>get_hit := h, total_times := total_times m + 1, etag_cache := (etag_cache m)[?i := c]\<rparr>"
  have "xEtagManager_inv cnt sz ?m" using m(2) c i by (auto simp: xEtagManager_inv_def dest!: set_update_subset_insert [THEN subsetD])
  moreover have "\<forall>j < cnt. recent_tags (etag_cache ?m ! j) = []"
    using m(2,5) c i by (auto simp: xEtagManager_inv_def nth_list_update)
  ultimately have "no_tags (x\<lparr>xEtag := Some ?m\<rparr>)" unfolding no_tags_def using m(3,4) by auto
  then show ?thesis using m(1) c(1) by (simp add: xDataBase_CheckEtag_def)
qed

lemma record_off: "\<not> bEtag x \<Longrightarrow> record_etag key ts x = Some x"
  by (simp add: record_etag_def)

text \<open>A request as the library hands it over, and the body of a reply as a client reads it.\<close>

definition fresh_request :: "evhtp_request \<Rightarrow> bool" where
  "fresh_request req \<longleftrightarrow> headers_out req = [] \<and> buffer_out req = [] \<and> replies req = []"

definition decoded :: "(string \<Rightarrow> string option) \<Rightarrow> http_headers \<Rightarrow> string \<Rightarrow> string option" where
  "decoded gunzip hdrs body = (if (''Content-Encoding'', ''gzip'') \<in> set hdrs then gunzip body else Some body)"

definition client_current :: "HTTP_FRONTEND_CONFIG \<Rightarrow> evhtp_request \<Rightarrow> u64 \<Rightarrow> bool" where
  "client_current cfg req ts \<longleftrightarrow>
     (case (headers_in req ''If-Modified-Since'', last_modified ts) of
        (Some h, Some l) \<Rightarrow> strncasecmp_eq (c_str h) l (length l) | _ \<Rightarrow> False) \<or>
     (fe_etag cfg = 1 \<and> (case headers_in req ''If-None-Match'' of
        Some h \<Rightarrow> strncasecmp_eq (etag_text ts) (c_str h) (length (etag_text ts)) | None \<Rightarrow> False))"

definition validators_ok :: "HTTP_FRONTEND_CONFIG \<Rightarrow> evhtp_request \<Rightarrow> u64 \<Rightarrow> bool" where
  "validators_ok cfg req ts \<longleftrightarrow>
     (headers_in req ''If-Modified-Since'' \<noteq> None \<longrightarrow> last_modified ts \<noteq> None)"

definition tag_header_ok :: "HTTP_FRONTEND_CONFIG \<Rightarrow> evhtp_request \<Rightarrow> bool" where
  "tag_header_ok cfg req \<longleftrightarrow>
     (fe_etag cfg = 1 \<longrightarrow> (\<forall>h. headers_in req ''If-None-Match'' = Some h \<longrightarrow> 2 \<le> length (c_str h)))"

lemma strip_quotes_ok: "2 \<le> length s \<Longrightarrow> strip_quotes s = Some (butlast (drop 1 s))"
  by (cases s) (auto simp: strip_quotes_def)

text \<open>The state after the lookup of the client's tag: nothing changes that the rest depends on.\<close>

lemma tag_lookup:
  assumes "front_ready cfg x" "tag_header_ok cfg req"
  shows "\<exists>x'. known_tag (fe_etag cfg = 1) (headers_in req ''If-None-Match'') uri x = Some (False, x') \<and>
    dbp x' = dbp x \<and> front_ready cfg x'"
proof (cases "headers_in req ''If-None-Match''")
  case (Some h)
  show ?thesis
  proof (cases "fe_etag cfg = 1")
    case True
    then have "no_tags x" "2 \<le> length (c_str h)" using assms Some by (auto simp: front_ready_def tag_header_ok_def)
    from CheckEtag_no_tags [OF this(1)] strip_quotes_ok [OF this(2)] show ?thesis
      using Some True assms(1) by (fastforce simp: front_ready_def known_tag_def)
  qed (use Some assms in \<open>simp add: known_tag_def\<close>)
qed (use assms in \<open>simp add: known_tag_def\<close>)

context zlib
begin

lemma send_value_ok:
  assumes "length val < 2 ^ 31" "buffer_out req = []" "replies req = []" "(''Content-Encoding'', ''gzip'') \<notin> set (headers_out req)"
  shows "\<exists>req' hdrs body. send_value zo cfg uri val req = Some req' \<and> replies req' = [(EVHTP_RES_OK, hdrs, body)] \<and>
    (''Content-Type'', GuessContentType uri) \<in> set hdrs \<and> decoded gunzip hdrs body = Some val"
proof -
  have plain: "\<exists>hdrs body. replies (SendHttpResphone val (AddHeader ''Content-Type'' t req)) = [(EVHTP_RES_OK, hdrs, body)] \<and>
      (''Content-Type'', t) \<in> set hdrs \<and> decoded gunzip hdrs body = Some val" for t
    using assms(2-4) by (simp add: SendHttpResphone_def evhtp_send_reply_def evbuffer_add_def AddHeader_def decoded_def)
  obtain ret out where gz: "gzcompress zo val (length val) = Some (ret, out)"
      "ret = 0 \<Longrightarrow> gunzip out = Some val \<and> length out \<le> length val"
    using gzcompress_ok [of val "length val"] assms(1) by auto
  show ?thesis
  proof (cases "fe_gzip cfg = 1 \<and> ret = 0")
    case True
    then have len: "length out < 2 ^ 31" using gz(2) assms(1) by linarith
    then have "wrap32 (int (length out)) = int (length out)" by (simp add: wrap32_id INT_MIN_def INT_MAX_def)
    then show ?thesis using True gz assms(2,3)
      by (simp add: send_value_def SendHttpResphone_buf_def evhtp_send_reply_def evbuffer_add_def AddHeader_def decoded_def)
  next
    case False
    then show ?thesis using plain [of "GuessContentType uri"] gz(1) by (auto simp: send_value_def Let_def)
  qed
qed

end

text \<open>The libraries the servers run on: a database that does not fail and zlib.\<close>

locale http_env = rocksdb_reliable ops contents it_all it_rest + zlib zo gunzip zs
  for ops :: "('db, 'it) rocksdb_ops" and contents :: "'db \<Rightarrow> string \<rightharpoonup> string"
    and it_all it_rest :: "'it \<Rightarrow> string list"
    and zo :: "'z zlib_ops" and gunzip :: "string \<Rightarrow> string option" and zs :: "'z \<Rightarrow> string \<Rightarrow> string \<Rightarrow> bool"
begin

lemma GetCallbackPro_null:
  assumes "dbp x = Some d" "front_ready cfg x" "tag_header_ok cfg req" "req_method req = htp_method_GET" "fresh_request req"
    "contents d (key_kv uri) = None"
  shows "\<exists>req' x'. GetCallbackPro ops zo cfg ts0 (Some uri) req x = Some (req', x') \<and> dbp x' = Some d \<and> front_ready cfg x' \<and>
    replies req' = [(EVHTP_RES_NOTFOUND, [], ''NOT FOUND'')]"
proof -
  obtain x' where x': "known_tag (fe_etag cfg = 1) (headers_in req ''If-None-Match'') uri x = Some (False, x')"
      "dbp x' = Some d" "front_ready cfg x'"
    using tag_lookup [OF assms(2,3)] assms(1) by auto
  have "GetCallbackPro ops zo cfg ts0 (Some uri) req x = Some (SendStatusResphone EVHTP_RES_NOTFOUND ''NOT FOUND'' req, x')"
    using x'(1) assms(4) Get_null [OF x'(2) assms(6)] by (simp add: GetCallbackPro_def)
  then show ?thesis using x'(2,3) assms(5)
    by (simp add: SendStatusResphone_def evhtp_send_reply_def evbuffer_add_def fresh_request_def snprintf_def c_str_def)
qed

lemma GetCallbackPro_value:
  assumes "dbp x = Some d" "front_ready cfg x" "tag_header_ok cfg req" "req_method req = htp_method_GET" "fresh_request req"
    "contents d (key_kv uri) = Some (stamped ts val)" "validators_ok cfg req ts" "length val < 2 ^ 31"
  shows "\<exists>req' x' st hdrs body. GetCallbackPro ops zo cfg ts0 (Some uri) req x = Some (req', x') \<and> dbp x' = Some d \<and> front_ready cfg x' \<and>
    replies req' = [(st, hdrs, body)] \<and>
    (if client_current cfg req ts then st = EVHTP_RES_NOTMOD \<and> body = []
     else st = EVHTP_RES_OK \<and> (''Content-Type'', GuessContentType uri) \<in> set hdrs \<and> decoded gunzip hdrs body = Some val)"
proof -
  obtain x' where x': "known_tag (fe_etag cfg = 1) (headers_in req ''If-None-Match'') uri x = Some (False, x')"
      "dbp x' = Some d" "front_ready cfg x'"
    using tag_lookup [OF assms(2,3)] assms(1) by auto
  have off: "record_etag uri ts x' = Some x'" using x'(3) by (simp add: record_off front_ready_def)
  have get: "xDataBase_Get ops uri \<lparr>timestamp = ts0, strValue = []\<rparr> x' = Some (db_ok, \<lparr>timestamp = ts, strValue = val\<rparr>, x')"
    using x'(2) assms(6) off by (simp add: xDataBase_Get_def Get_eq)
  obtain M req1 where r1: "modified_since (headers_in req ''If-Modified-Since'') ts req = Some (M, req1)"
      "M \<longleftrightarrow> (case (headers_in req ''If-Modified-Since'', last_modified ts) of
        (Some h, Some l) \<Rightarrow> strncasecmp_eq (c_str h) l (length l) | _ \<Rightarrow> False)"
      "buffer_out req1 = []" "replies req1 = []" "(''Content-Encoding'', ''gzip'') \<notin> set (headers_out req1)"
    using assms(5,7) by (cases "headers_in req ''If-Modified-Since''"; cases "last_modified ts")
      (auto simp: modified_since_def fresh_request_def validators_ok_def AddHeader_def)
  obtain E req2 where r2: "none_match (fe_etag cfg = 1) (headers_in req ''If-None-Match'') ts req1 = (E, req2)"
      "E \<longleftrightarrow> fe_etag cfg = 1 \<and> (case headers_in req ''If-None-Match'' of
        Some h \<Rightarrow> strncasecmp_eq (etag_text ts) (c_str h) (length (etag_text ts)) | None \<Rightarrow> False)"
      "buffer_out req2 = []" "replies req2 = []" "(''Content-Encoding'', ''gzip'') \<notin> set (headers_out req2)"
    using r1(3-5) by (cases "headers_in req ''If-None-Match''"; cases "fe_etag cfg = 1") (auto simp: none_match_def AddHeader_def Let_def)
  have ME: "M \<or> E \<longleftrightarrow> client_current cfg req ts" by (simp add: client_current_def r1(2) r2(2))
  obtain req3 hdrs body where send: "send_value zo cfg uri val req2 = Some req3" "replies req3 = [(EVHTP_RES_OK, hdrs, body)]"
      "(''Content-Type'', GuessContentType uri) \<in> set hdrs" "decoded gunzip hdrs body = Some val"
    using send_value_ok [OF assms(8) r2(3-5)] by blast
  have "GetCallbackPro ops zo cfg ts0 (Some uri) req x =
      (if M \<or> E then Some (evhtp_send_reply EVHTP_RES_NOTMOD req2, x') else Some (req3, x'))"
    using x'(1) assms(4) get r1(1) r2(1) send(1) by (simp add: GetCallbackPro_def)
  then show ?thesis using send x'(2,3) r2(3,4) unfolding ME by (auto simp: evhtp_send_reply_def)
qed

end

interpretation http_mem: http_env mem_ops map_of fst snd stored_ops Some "\<lambda>z c p. c = p"
  by unfold_locales

section \<open>Properties\<close>


text \<open>A page of a database with one page, served with compression on and tags off.\<close>

definition page_cfg :: HTTP_FRONTEND_CONFIG where
  "page_cfg = \<lparr>fe_ip = ''0.0.0.0'', fe_port = 8080, fe_threads = 4, fe_timeout = 30, fe_gzip = 1, fe_etag = 0, etag_cache_count = 4,
     etag_cache_size = 1000, fe_pemfile = [], fe_privfile = [], fe_ssl_timeout = 5, default_index = ''/''\<rparr>"

definition get_request :: "string \<Rightarrow> (string \<times> string) list \<Rightarrow> evhtp_request" where
  "get_request full hs = \<lparr>req_method = htp_method_GET, path_full = full, query = None, headers_in = map_of hs,
     buffer_in = [], server_name = SERVER_SIGNATURE, headers_out = [], buffer_out = [], replies = []\<rparr>"

definition page_db :: "(string \<times> string) list xDataBase" where
  "page_db = mem_db\<lparr>dbp := Some [(key_kv ''a.css'', stamped 5 ''p{}'')]\<rparr>"


end
