(* ===== verification/Xhc_Multipart.thy ===== *)
theory Xhc_Multipart
  imports Xhc_Util "HOL-Library.Sublist"
begin

text \<open>
  \<open>common/Field.cpp\<close> and \<open>common/Parser.cpp\<close>: the parser of multipart form data. The parser
  collects bytes, looks for the boundary, for the end of the headers of a part and for the next
  boundary in turn, and keeps a map from field names to fields.

  An exception is the left value of a sum; a parser that has thrown is not used again by the
  program, so its state is not kept. The buffers \<open>FieldContent\<close> and \<open>DataCollector\<close> are
  the strings of their bytes, with the null pointer for the empty string. The storage mode of a
  field is not initialised by its constructor: reading it before it is set is undefined. The file
  system, where uploads can be kept, is a parameter of four operations.

  The lemmas show that the loop ends, that a body may be handed over in any pieces, that a form
  parses to what was sent and that no input takes the parser outside its defined behaviour.
\<close>

section \<open>Definitions\<close>

subsection \<open>Strings and maps\<close>

text \<open>\<open>std::string::find\<close>, from the start and from a position.\<close>

fun str_find :: "string \<Rightarrow> string \<Rightarrow> nat option" where
  "str_find pat [] = (if pat = [] then Some 0 else None)"
| "str_find pat (c # s) = (if prefix pat (c # s) then Some 0 else map_option Suc (str_find pat s))"

definition str_find_from :: "string \<Rightarrow> nat \<Rightarrow> string \<Rightarrow> nat option" where
  "str_find_from pat p s = (if length s < p then None else map_option (\<lambda>i. p + i) (str_find pat (drop p s)))"

subsection \<open>Fields\<close>

datatype mpfd_error =
    TypeIncorrect | NoTypeSet | NotFileType | NotTextType | StoredInFilesystem | StoredInMemory | NoTempDir
  | CannotWrite string | NotMultipart string | NoBoundary string | CollectorFull | ContentTypeNotSet
  | NoFormData string | NoName string | NoNameQuote string | NoFilenameQuote string

type_synonym 'a mpfd = "(mpfd_error + 'a) ub"

definition mpfd_map :: "('a \<Rightarrow> 'b) \<Rightarrow> 'a mpfd \<Rightarrow> 'b mpfd" where
  "mpfd_map f r = (case r of None \<Rightarrow> None | Some (Inl e) \<Rightarrow> Some (Inl e) | Some (Inr x) \<Rightarrow> Some (Inr (f x)))"

definition TextType :: int where "TextType = 1"
definition FileType :: int where "FileType = 2"
definition StoreUploadedFilesInFilesystem :: int where "StoreUploadedFilesInFilesystem = 1"
definition StoreUploadedFilesInMemory :: int where "StoreUploadedFilesInMemory = 2"

record Field =
  ftype :: int
  WhereToStore :: "int option"
  TempDir :: string
  TempFile :: string
  FileContentType :: string
  FileName :: string
  FieldContent :: string
  file_open :: bool

definition Field_new :: Field where
  "Field_new = \<lparr>ftype = 0, WhereToStore = None, TempDir = [], TempFile = [], FileContentType = [], FileName = [],
     FieldContent = [], file_open = False\<rparr>"

record 'fs file_ops =
  fs_readable :: "'fs \<Rightarrow> string \<Rightarrow> bool"
  fs_create :: "'fs \<Rightarrow> string \<Rightarrow> 'fs option"
  fs_write :: "'fs \<Rightarrow> string \<Rightarrow> string \<Rightarrow> 'fs"
  fs_remove :: "'fs \<Rightarrow> string \<Rightarrow> 'fs"

definition Field_delete :: "'fs file_ops \<Rightarrow> Field \<Rightarrow> 'fs \<Rightarrow> 'fs" where
  "Field_delete fo f fs =
     (if ftype f = FileType \<and> file_open f then fs_remove fo fs (TempDir f @ ''/'' @ TempFile f) else fs)"

definition SetType :: "int \<Rightarrow> Field \<Rightarrow> mpfd_error + Field" where
  "SetType t f = (if t = TextType \<or> t = FileType then Inr (f\<lparr>ftype := t\<rparr>) else Inl TypeIncorrect)"

definition GetType :: "Field \<Rightarrow> mpfd_error + int" where
  "GetType f = (if 0 < ftype f then Inr (ftype f) else Inl NoTypeSet)"

text \<open>The first name \<open>MPFD_Temp_<i>\<close> that cannot be opened for reading. The counter is an \<open>int\<close>.\<close>

function temp_file :: "'fs file_ops \<Rightarrow> 'fs \<Rightarrow> string \<Rightarrow> int \<Rightarrow> string ub" where
  "temp_file fo fs dir i =
     (if INT_MAX \<le> i then None
      else let t = ''MPFD_Temp_'' @ dec_int i
           in if fs_readable fo fs (dir @ ''/'' @ t) then temp_file fo fs dir (i + 1) else Some t)"
  by pat_completeness auto
termination by (relation "measure (\<lambda>(fo, fs, dir, i). nat (INT_MAX - i))") auto

declare temp_file.simps [simp del]

definition AcceptFile :: "'fs file_ops \<Rightarrow> string \<Rightarrow> Field \<Rightarrow> 'fs \<Rightarrow> (Field \<times> 'fs) mpfd" where
  "AcceptFile fo data f fs =
     (if TempDir f = [] then Some (Inl NoTempDir)
      else do {
        (f, fs, opened) \<leftarrow>
          (if file_open f then Some (f, fs, True)
           else do {
             t \<leftarrow> temp_file fo fs (TempDir f) 1;
             case fs_create fo fs (TempDir f @ ''/'' @ t) of
               None \<Rightarrow> Some (f\<lparr>TempFile := t\<rparr>, fs, False)
             | Some fs \<Rightarrow> Some (f\<lparr>TempFile := t, file_open := True\<rparr>, fs, True)
           });
        if opened then Some (Inr (f, fs_write fo fs (TempDir f @ ''/'' @ TempFile f) data))
        else Some (Inl (CannotWrite (TempDir f @ ''/'' @ TempFile f)))
      })"

definition Field_AcceptSomeData :: "'fs file_ops \<Rightarrow> string \<Rightarrow> Field \<Rightarrow> 'fs \<Rightarrow> (Field \<times> 'fs) mpfd" where
  "Field_AcceptSomeData fo data f fs =
     (if ftype f = TextType then Some (Inr (f\<lparr>FieldContent := FieldContent f @ data\<rparr>, fs))
      else if ftype f = FileType then
        case WhereToStore f of
          None \<Rightarrow> None
        | Some w \<Rightarrow>
            if w = StoreUploadedFilesInFilesystem then AcceptFile fo data f fs
            else Some (Inr (f\<lparr>FieldContent := FieldContent f @ data\<rparr>, fs))
      else Some (Inl NoTypeSet))"

definition SetTempDir :: "string \<Rightarrow> Field \<Rightarrow> Field" where
  "SetTempDir dir f = f\<lparr>TempDir := dir\<rparr>"

definition SetFileName :: "string \<Rightarrow> Field \<Rightarrow> Field" where
  "SetFileName name f = f\<lparr>FileName := name\<rparr>"

definition Field_SetUploadedFilesStorage :: "int \<Rightarrow> Field \<Rightarrow> Field" where
  "Field_SetUploadedFilesStorage w f = f\<lparr>WhereToStore := Some w\<rparr>"

definition SetFileContentType :: "string \<Rightarrow> Field \<Rightarrow> Field" where
  "SetFileContentType t f = f\<lparr>FileContentType := t\<rparr>"

definition GetFileContentSize :: "Field \<Rightarrow> nat mpfd" where
  "GetFileContentSize f =
     (if ftype f = 0 then Some (Inl NoTypeSet)
      else if ftype f = FileType then
        map_option (\<lambda>w. if w = StoreUploadedFilesInMemory then Inr (length (FieldContent f)) else Inl StoredInFilesystem)
          (WhereToStore f)
      else Some (Inl NotFileType))"

definition GetFileContent :: "Field \<Rightarrow> string mpfd" where
  "GetFileContent f =
     (if ftype f = 0 then Some (Inl NoTypeSet)
      else if ftype f = FileType then
        map_option (\<lambda>w. if w = StoreUploadedFilesInMemory then Inr (FieldContent f) else Inl StoredInFilesystem)
          (WhereToStore f)
      else Some (Inl NotFileType))"

definition GetTextTypeContent :: "Field \<Rightarrow> mpfd_error + string" where
  "GetTextTypeContent f =
     (if ftype f = 0 then Inl NoTypeSet
      else if ftype f \<noteq> TextType then Inl NotTextType
      else Inr (c_str (FieldContent f)))"

definition GetTempFileName :: "Field \<Rightarrow> string mpfd" where
  "GetTempFileName f =
     (if ftype f = 0 then Some (Inl NoTypeSet)
      else if ftype f = FileType then
        map_option (\<lambda>w. if w = StoreUploadedFilesInFilesystem then Inr (TempDir f @ ''/'' @ TempFile f) else Inl StoredInMemory)
          (WhereToStore f)
      else Some (Inl NotFileType))"

definition GetFileName :: "Field \<Rightarrow> mpfd_error + string" where
  "GetFileName f =
     (if ftype f = 0 then Inl NoTypeSet else if ftype f = FileType then Inr (FileName f) else Inl NotFileType)"

definition GetFileMimeType :: "Field \<Rightarrow> mpfd_error + string" where
  "GetFileMimeType f =
     (if ftype f = 0 then Inl NoTypeSet else if ftype f \<noteq> FileType then Inl NotFileType else Inr (FileContentType f))"

subsection \<open>The parser\<close>

datatype parser_status = LookingForStartingBoundary | ProcessingHeaders | ProcessingContentOfTheField

record 'fs Parser =
  PWhereToStore :: int
  Fields :: "(string \<times> Field) list"
  TempDirForFileUpload :: string
  CurrentStatus :: parser_status
  Boundary :: string
  ProcessingFieldName :: string
  DataCollector :: string
  MaxDataCollectorLength :: int
  disk :: 'fs

definition Parser_new :: "'fs \<Rightarrow> 'fs Parser" where
  "Parser_new fs = \<lparr>PWhereToStore = StoreUploadedFilesInFilesystem, Fields = [], TempDirForFileUpload = [],
     CurrentStatus = LookingForStartingBoundary, Boundary = [], ProcessingFieldName = [], DataCollector = [],
     MaxDataCollectorLength = 16 * 1024 * 1024, disk = fs\<rparr>"

definition Parser_delete :: "'fs file_ops \<Rightarrow> 'fs Parser \<Rightarrow> 'fs" where
  "Parser_delete fo p = foldl (\<lambda>fs f. Field_delete fo (snd f) fs) (disk p) (Fields p)"

definition GetField :: "string \<Rightarrow> 'fs Parser \<Rightarrow> Field option" where
  "GetField name p = map_of (Fields p) name"

definition SetUploadedFilesStorage :: "int \<Rightarrow> 'fs Parser \<Rightarrow> 'fs Parser" where
  "SetUploadedFilesStorage w p = p\<lparr>PWhereToStore := w\<rparr>"

definition SetTempDirForFileUpload :: "string \<Rightarrow> 'fs Parser \<Rightarrow> 'fs Parser" where
  "SetTempDirForFileUpload dir p = p\<lparr>TempDirForFileUpload := dir\<rparr>"

definition SetMaxCollectedDataLength :: "int \<Rightarrow> 'fs Parser \<Rightarrow> 'fs Parser" where
  "SetMaxCollectedDataLength n p = p\<lparr>MaxDataCollectorLength := n\<rparr>"

definition SetContentType :: "string \<Rightarrow> 'fs Parser \<Rightarrow> mpfd_error + 'fs Parser" where
  "SetContentType t p =
     (if str_find ''multipart/form-data;'' t \<noteq> Some 0 then Inl (NotMultipart t)
      else case str_find ''boundary='' t of
             None \<Rightarrow> Inl (NoBoundary t)
           | Some bp \<Rightarrow> Inr (p\<lparr>Boundary := ''--'' @ drop (bp + 9) t\<rparr>))"

definition TruncateDataCollectorFromTheBeginning :: "nat \<Rightarrow> 'fs Parser \<Rightarrow> 'fs Parser" where
  "TruncateDataCollectorFromTheBeginning n p = p\<lparr>DataCollector := drop n (DataCollector p)\<rparr>"

text \<open>The two nested loops stop at the first position where all bytes of the boundary agree.\<close>

definition BoundaryPositionInDataCollector :: "'fs Parser \<Rightarrow> nat option" where
  "BoundaryPositionInDataCollector p = str_find (Boundary p) (DataCollector p)"

definition FindStartingBoundaryAndTruncData :: "'fs Parser \<Rightarrow> bool \<times> 'fs Parser" where
  "FindStartingBoundaryAndTruncData p =
     (case BoundaryPositionInDataCollector p of
        Some n \<Rightarrow> (True, TruncateDataCollectorFromTheBeginning (n + length (Boundary p)) p)
      | None \<Rightarrow> (False, p))"

definition QUOTE :: char where "QUOTE = CHR 0x22"

text \<open>
  The content type ends at the first blank, CR or LF; the end is set one byte too early, and a
  difference that wraps to a huge length takes the rest of the headers.
\<close>

definition header_content_type :: "string \<Rightarrow> string" where
  "header_content_type rest =
     (let w = takeWhile (\<lambda>c. c \<notin> {CHR '' '', LF, CR}) rest
      in if w = rest \<or> w = [] then rest else butlast w)"

definition ParseHeaders :: "string \<Rightarrow> 'fs Parser \<Rightarrow> mpfd_error + 'fs Parser" where
  "ParseHeaders headers p =
     (if str_find ''Content-Disposition: form-data;'' headers = None then Inl (NoFormData headers)
      else case str_find (''name='' @ [QUOTE]) headers of
        None \<Rightarrow> Inl (NoName headers)
      | Some name_pos \<Rightarrow>
          (case str_find_from [QUOTE] (name_pos + 6) headers of
             None \<Rightarrow> Inl (NoNameQuote headers)
           | Some name_end \<Rightarrow>
               let name = take (name_end - (name_pos + 6)) (drop (name_pos + 6) headers);
                   f = Field_new;
                   p = p\<lparr>ProcessingFieldName := name\<rparr>
               in case str_find (''filename='' @ [QUOTE]) headers of
                    None \<Rightarrow> (case SetType TextType f of Inl e \<Rightarrow> Inl e
                              | Inr f \<Rightarrow> Inr (p\<lparr>Fields := map_put name f (Fields p)\<rparr>))
                  | Some filename_pos \<Rightarrow>
                      (case SetType FileType f of Inl e \<Rightarrow> Inl e
                       | Inr f \<Rightarrow>
                           let f = Field_SetUploadedFilesStorage (PWhereToStore p) (SetTempDir (TempDirForFileUpload p) f)
                           in case str_find_from [QUOTE] (filename_pos + 10) headers of
                                None \<Rightarrow> Inl (NoFilenameQuote headers)
                              | Some filename_end \<Rightarrow>
                                  let f = SetFileName (take (filename_end - (filename_pos + 10)) (drop (filename_pos + 10) headers)) f;
                                      f = (case str_find ''Content-Type: '' headers of
                                             None \<Rightarrow> f
                                           | Some q \<Rightarrow> SetFileContentType (header_content_type (drop (q + 14) headers)) f)
                                  in Inr (p\<lparr>Fields := map_put name f (Fields p)\<rparr>))))"

definition WaitForHeadersEndAndParseThem :: "'fs Parser \<Rightarrow> mpfd_error + bool \<times> 'fs Parser" where
  "WaitForHeadersEndAndParseThem p =
     (case str_find (CRLF @ CRLF) (DataCollector p) of
        None \<Rightarrow> Inr (False, p)
      | Some i \<Rightarrow>
          (case ParseHeaders (c_str (take i (DataCollector p))) p of
             Inl e \<Rightarrow> Inl e
           | Inr p \<Rightarrow> Inr (True, TruncateDataCollectorFromTheBeginning (i + 4) p)))"

definition ProcessContentOfTheField :: "'fs file_ops \<Rightarrow> 'fs Parser \<Rightarrow> (bool \<times> 'fs Parser) mpfd" where
  "ProcessContentOfTheField fo p =
     (let pos = BoundaryPositionInDataCollector p;
          n = (case pos of Some i \<Rightarrow> int i - 2
               | None \<Rightarrow> int (length (DataCollector p)) - (int (length (Boundary p)) + 2));
          found = (pos \<noteq> None);
          p' = (if found then p\<lparr>CurrentStatus := LookingForStartingBoundary\<rparr> else p)
      in if 0 < n then
           case map_of (Fields p) (ProcessingFieldName p) of
             None \<Rightarrow> None
           | Some f \<Rightarrow>
               mpfd_map (\<lambda>(f, fs). (found, TruncateDataCollectorFromTheBeginning (nat n)
                   (p'\<lparr>Fields := map_put (ProcessingFieldName p) f (Fields p), disk := fs\<rparr>)))
                 (Field_AcceptSomeData fo (take (nat n) (DataCollector p)) f (disk p))
         else Some (Inr (found, p')))"

text \<open>One turn of the loop of \<open>_ProcessData\<close>; the flag is \<open>NeedToRepeat\<close>.\<close>

definition ProcessData_turn :: "'fs file_ops \<Rightarrow> 'fs Parser \<Rightarrow> (bool \<times> 'fs Parser) mpfd" where
  "ProcessData_turn fo p =
     (case CurrentStatus p of
        LookingForStartingBoundary \<Rightarrow>
          Some (Inr (case FindStartingBoundaryAndTruncData p of
                       (True, p) \<Rightarrow> (True, p\<lparr>CurrentStatus := ProcessingHeaders\<rparr>)
                     | (False, p) \<Rightarrow> (False, p)))
      | ProcessingHeaders \<Rightarrow>
          mpfd_map (\<lambda>(ok, p). if ok then (True, p\<lparr>CurrentStatus := ProcessingContentOfTheField\<rparr>) else (False, p))
            (Some (WaitForHeadersEndAndParseThem p))
      | ProcessingContentOfTheField \<Rightarrow>
          mpfd_map (\<lambda>(ok, p). if ok then (True, p\<lparr>CurrentStatus := LookingForStartingBoundary\<rparr>) else (False, p))
            (ProcessContentOfTheField fo p))"

text \<open>The loop ends: every turn that repeats shortens the data or moves on without data.\<close>

definition parser_work :: "'fs Parser \<Rightarrow> nat" where
  "parser_work p = 3 * length (DataCollector p) +
     (case CurrentStatus p of LookingForStartingBoundary \<Rightarrow> 1 | ProcessingHeaders \<Rightarrow> 0 | ProcessingContentOfTheField \<Rightarrow> 2)"

lemma mpfd_map_simps [simp]:
  "mpfd_map f None = None" "mpfd_map f (Some (Inl e)) = Some (Inl e)" "mpfd_map f (Some (Inr x)) = Some (Inr (f x))"
  "mpfd_map f r = Some (Inr y) \<longleftrightarrow> (\<exists>x. r = Some (Inr x) \<and> y = f x)"
  "mpfd_map f r = Some (Inl e) \<longleftrightarrow> r = Some (Inl e)" "mpfd_map f r = None \<longleftrightarrow> r = None"
  by (auto simp: mpfd_map_def split: option.splits sum.splits)

lemma str_find_Some:
  "str_find pat s = Some i \<Longrightarrow> i + length pat \<le> length s \<and> prefix pat (drop i s) \<and> (\<forall>j<i. \<not> prefix pat (drop j s))"
proof (induction pat s arbitrary: i rule: str_find.induct)
  case (2 pat c s)
  show ?case
  proof (cases "prefix pat (c # s)")
    case True
    then show ?thesis using "2.prems" prefix_length_le [OF True] by auto
  next
    case False
    then obtain j where j: "str_find pat s = Some j" "i = Suc j" using "2.prems" by auto
    with "2.IH" [OF False j(1)] False show ?thesis by (auto simp: less_Suc_eq_0_disj)
  qed
qed (auto split: if_splits)

lemma ParseHeaders_data:
  "ParseHeaders h p = Inr q \<Longrightarrow> DataCollector q = DataCollector p \<and> CurrentStatus q = CurrentStatus p \<and>
    Boundary q = Boundary p \<and> PWhereToStore q = PWhereToStore p \<and> MaxDataCollectorLength q = MaxDataCollectorLength p"
  by (auto simp: ParseHeaders_def Let_def split: if_splits option.splits sum.splits)

lemma ProcessData_turn_work:
  assumes "ProcessData_turn fo p = Some (Inr (True, q))"
  shows "parser_work q < parser_work p"
proof (cases "CurrentStatus p")
  case LookingForStartingBoundary
  then show ?thesis using assms
    by (auto simp: ProcessData_turn_def FindStartingBoundaryAndTruncData_def TruncateDataCollectorFromTheBeginning_def
        parser_work_def split: option.splits)
next
  case ProcessingHeaders
  then obtain i r where i: "str_find (CRLF @ CRLF) (DataCollector p) = Some i"
    and r: "ParseHeaders (c_str (take i (DataCollector p))) p = Inr r"
      "q = (TruncateDataCollectorFromTheBeginning (i + 4) r)\<lparr>CurrentStatus := ProcessingContentOfTheField\<rparr>"
    using assms
    by (auto simp: ProcessData_turn_def WaitForHeadersEndAndParseThem_def split: option.splits sum.splits if_splits)
  from str_find_Some [OF i] ParseHeaders_data [OF r(1)] r(2) ProcessingHeaders show ?thesis
    by (simp add: TruncateDataCollectorFromTheBeginning_def parser_work_def) arith
next
  case ProcessingContentOfTheField
  then show ?thesis using assms
    by (auto simp: ProcessData_turn_def ProcessContentOfTheField_def Let_def TruncateDataCollectorFromTheBeginning_def
        parser_work_def split: option.splits if_splits)
qed

function ProcessData :: "'fs file_ops \<Rightarrow> 'fs Parser \<Rightarrow> 'fs Parser mpfd" where
  "ProcessData fo p =
     (case ProcessData_turn fo p of
        None \<Rightarrow> None
      | Some (Inl e) \<Rightarrow> Some (Inl e)
      | Some (Inr (repeat, p')) \<Rightarrow> if repeat then ProcessData fo p' else Some (Inr p'))"
  by pat_completeness auto
termination
  by (relation "measure (\<lambda>(fo, p). parser_work p)", rule wf_measure, simp only: in_measure case_prod_conv,
      erule ProcessData_turn_work [OF trans], simp)

declare ProcessData.simps [simp del]

definition AcceptSomeData :: "'fs file_ops \<Rightarrow> string \<Rightarrow> 'fs Parser \<Rightarrow> 'fs Parser mpfd" where
  "AcceptSomeData fo data p =
     (if Boundary p = [] then Some (Inl ContentTypeNotSet)
      else let p = p\<lparr>DataCollector := DataCollector p @ data\<rparr>
           in if MaxDataCollectorLength p < int (length (DataCollector p)) then Some (Inl CollectorFull)
              else ProcessData fo p)"

section \<open>Lemmas\<close>

subsection \<open>Searching\<close>

lemma str_find_None: "str_find pat s = None \<longleftrightarrow> (\<forall>j. j \<le> length s \<longrightarrow> \<not> prefix pat (drop j s))"
proof (induction pat s rule: str_find.induct)
  case (2 pat c s)
  show ?case
  proof (cases "prefix pat (c # s)")
    case True
    then show ?thesis by (auto intro!: exI [of _ 0])
  next
    case False
    have "(\<forall>j\<le>length (c # s). \<not> prefix pat (drop j (c # s))) \<longleftrightarrow> (\<forall>j\<le>length s. \<not> prefix pat (drop j s))"
    proof (intro iffI allI impI)
      fix j assume "\<forall>j\<le>length (c # s). \<not> prefix pat (drop j (c # s))" "j \<le> length s"
      then show "\<not> prefix pat (drop j s)" by (metis drop_Suc_Cons length_Cons Suc_le_mono)
    next
      fix j assume a: "\<forall>j\<le>length s. \<not> prefix pat (drop j s)" "j \<le> length (c # s)"
      then show "\<not> prefix pat (drop j (c # s))" using False by (cases j) auto
    qed
    then show ?thesis using False "2.IH" [OF False] by simp
  qed
qed simp

lemma str_findI:
  assumes "prefix pat (drop i s)" "i \<le> length s" "\<And>j. j < i \<Longrightarrow> \<not> prefix pat (drop j s)"
  shows "str_find pat s = Some i"
proof (cases "str_find pat s")
  case None
  then show ?thesis using assms(1,2) by (auto simp: str_find_None)
next
  case (Some k)
  note k = str_find_Some [OF Some]
  have "\<not> k < i" using k assms(3) by blast
  moreover have "\<not> i < k" using k assms(1) by blast
  ultimately show ?thesis using Some by simp
qed

lemma prefix_take: "prefix p s \<longleftrightarrow> take (length p) s = p"
  by (metis append_take_drop_id prefixI prefixE append_eq_conv_conj)

lemma prefix_drop_append:
  "j + length pat \<le> length s \<Longrightarrow> prefix pat (drop j (s @ t)) \<longleftrightarrow> prefix pat (drop j s)"
  by (simp add: prefix_take)

lemma str_find_append: "str_find pat s = Some i \<Longrightarrow> str_find pat (s @ t) = Some i"
proof (rule str_findI)
  assume "str_find pat s = Some i"
  note i = str_find_Some [OF this]
  show "prefix pat (drop i (s @ t))" using i by (simp add: prefix_drop_append)
  show "i \<le> length (s @ t)" using i by simp
  show "\<not> prefix pat (drop j (s @ t))" if "j < i" for j
    using i that by (subst prefix_drop_append) auto
qed

lemma str_find_drop_None: "str_find pat s = None \<Longrightarrow> n \<le> length s \<Longrightarrow> str_find pat (drop n s) = None"
  unfolding str_find_None by (metis add.commute drop_drop length_drop le_diff_conv2)

lemma str_find_drop: "str_find pat s = Some i \<Longrightarrow> n \<le> i \<Longrightarrow> str_find pat (drop n s) = Some (i - n)"
  by (rule str_findI) (auto dest: str_find_Some)

subsection \<open>Data in pieces\<close>

definition mem_field :: "Field \<Rightarrow> bool" where
  "mem_field f \<longleftrightarrow> ftype f = TextType \<or> ftype f = FileType \<and> WhereToStore f = Some StoreUploadedFilesInMemory"

definition parser_inv :: "'fs Parser \<Rightarrow> bool" where
  "parser_inv p \<longleftrightarrow> PWhereToStore p = StoreUploadedFilesInMemory \<and> sorted_wrt (<) (map fst (Fields p)) \<and>
     (CurrentStatus p = ProcessingContentOfTheField \<longrightarrow>
        (\<exists>f. map_of (Fields p) (ProcessingFieldName p) = Some f \<and> mem_field f))"

definition more_data :: "'fs Parser \<Rightarrow> string \<Rightarrow> 'fs Parser" where
  "more_data p b = p\<lparr>DataCollector := DataCollector p @ b\<rparr>"

text \<open>Moving the first \<open>n\<close> bytes of the collected data to the current field.\<close>

definition to_field :: "nat \<Rightarrow> 'fs Parser \<Rightarrow> 'fs Parser" where
  "to_field n p =
     (case map_of (Fields p) (ProcessingFieldName p) of
        None \<Rightarrow> p
      | Some f \<Rightarrow> p\<lparr>Fields := map_put (ProcessingFieldName p) (f\<lparr>FieldContent := FieldContent f @ take n (DataCollector p)\<rparr>) (Fields p),
                   DataCollector := drop n (DataCollector p)\<rparr>)"

lemma mem_field_accept:
  "mem_field f \<Longrightarrow> Field_AcceptSomeData fo d f fs = Some (Inr (f\<lparr>FieldContent := FieldContent f @ d\<rparr>, fs))"
  by (auto simp: mem_field_def Field_AcceptSomeData_def TextType_def FileType_def
      StoreUploadedFilesInMemory_def StoreUploadedFilesInFilesystem_def)

lemma to_field_0: "parser_inv p \<Longrightarrow> to_field 0 p = p"
  by (simp add: to_field_def parser_inv_def map_put_same split: option.split)

lemma to_field_simps [simp]:
  "CurrentStatus (to_field n p) = CurrentStatus p" "Boundary (to_field n p) = Boundary p"
  "PWhereToStore (to_field n p) = PWhereToStore p" "ProcessingFieldName (to_field n p) = ProcessingFieldName p"
  "CurrentStatus (more_data p b) = CurrentStatus p" "Boundary (more_data p b) = Boundary p"
  "DataCollector (more_data p b) = DataCollector p @ b" "Fields (more_data p b) = Fields p"
  "ProcessingFieldName (more_data p b) = ProcessingFieldName p" "PWhereToStore (more_data p b) = PWhereToStore p"
  by (simp_all add: to_field_def more_data_def split: option.split)

lemma to_field_inv: "parser_inv p \<Longrightarrow> parser_inv (to_field n p)"
  by (auto simp: parser_inv_def to_field_def map_of_map_put sorted_map_put mem_field_def split: option.split)

lemma more_data_inv [simp]: "parser_inv (more_data p b) = parser_inv p"
  by (simp add: parser_inv_def)

lemma to_field_more:
  assumes "parser_inv p" "CurrentStatus p = ProcessingContentOfTheField" "n \<le> length (DataCollector p)"
  shows "to_field m (more_data (to_field n p) b) = to_field (n + m) (more_data p b)"
proof -
  obtain f where f: "map_of (Fields p) (ProcessingFieldName p) = Some f" using assms by (auto simp: parser_inv_def)
  have "take (n + m) (DataCollector p @ b) = take n (DataCollector p) @ take m (drop n (DataCollector p) @ b)"
    using assms(3) by (simp only: take_add) simp
  then show ?thesis using f assms(3)
    by (simp add: to_field_def more_data_def map_of_map_put map_put_twice add.commute [of n m])
qed

lemma content_turn:
  assumes "parser_inv p" "CurrentStatus p = ProcessingContentOfTheField"
  shows "ProcessData_turn fo p = Some (Inr (case str_find (Boundary p) (DataCollector p) of
      None \<Rightarrow> (False, to_field (length (DataCollector p) - (length (Boundary p) + 2)) p)
    | Some i \<Rightarrow> (True, (to_field (i - 2) p)\<lparr>CurrentStatus := LookingForStartingBoundary\<rparr>)))"
proof -
  obtain f where f: "map_of (Fields p) (ProcessingFieldName p) = Some f" "mem_field f" using assms by (auto simp: parser_inv_def)
  have zero: "to_field 0 p = p" by (rule to_field_0 [OF assms(1)])
  show ?thesis
  proof (cases "str_find (Boundary p) (DataCollector p)")
    case None
    show ?thesis
    proof (cases "length (Boundary p) + 2 < length (DataCollector p)")
      case True
      have n: "nat (int (length (DataCollector p)) - (int (length (Boundary p)) + 2)) = length (DataCollector p) - (length (Boundary p) + 2)"
        using True by simp
      show ?thesis using None True f assms(2) n
        by (simp add: ProcessData_turn_def ProcessContentOfTheField_def BoundaryPositionInDataCollector_def
            mem_field_accept to_field_def TruncateDataCollectorFromTheBeginning_def)
    next
      case False
      then show ?thesis using None f assms(2) zero
        by (simp add: ProcessData_turn_def ProcessContentOfTheField_def BoundaryPositionInDataCollector_def)
    qed
  next
    case (Some i)
    show ?thesis
    proof (cases "2 < i")
      case True
      then have n: "nat (int i - 2) = i - 2" by simp
      show ?thesis using Some True f assms(2) n
        by (simp add: ProcessData_turn_def ProcessContentOfTheField_def BoundaryPositionInDataCollector_def
            mem_field_accept to_field_def TruncateDataCollectorFromTheBeginning_def)
    next
      case False
      then show ?thesis using Some f assms(2) zero
        by (simp add: ProcessData_turn_def ProcessContentOfTheField_def BoundaryPositionInDataCollector_def)
    qed
  qed
qed

lemma ParseHeaders_more:
  "ParseHeaders h (more_data p b) = map_sum id (\<lambda>q. more_data q b) (ParseHeaders h p)"
  by (simp add: ParseHeaders_def Let_def more_data_def split: option.split sum.split)

lemma ParseHeaders_inv:
  assumes "ParseHeaders h p = Inr q" "parser_inv p" "CurrentStatus p \<noteq> ProcessingContentOfTheField"
  shows "parser_inv q \<and> (\<exists>f. map_of (Fields q) (ProcessingFieldName q) = Some f \<and> mem_field f)"
  using assms
  by (auto simp: ParseHeaders_def Let_def parser_inv_def mem_field_def SetType_def sorted_map_put map_of_map_put
      Field_SetUploadedFilesStorage_def SetTempDir_def SetFileName_def SetFileContentType_def
      split: if_splits option.splits sum.splits)

lemma turn_inv:
  assumes "parser_inv p"
  shows "(\<exists>r q. ProcessData_turn fo p = Some (Inr (r, q)) \<and> parser_inv q) \<or> (\<exists>e. ProcessData_turn fo p = Some (Inl e))"
proof (cases "CurrentStatus p")
  case LookingForStartingBoundary
  then show ?thesis using assms
    by (auto simp: ProcessData_turn_def FindStartingBoundaryAndTruncData_def TruncateDataCollectorFromTheBeginning_def
        parser_inv_def split: option.split)
next
  case ProcessingHeaders
  show ?thesis
  proof (cases "str_find (CRLF @ CRLF) (DataCollector p)")
    case None
    then show ?thesis using ProcessingHeaders assms by (auto simp: ProcessData_turn_def WaitForHeadersEndAndParseThem_def)
  next
    case (Some i)
    show ?thesis
    proof (cases "ParseHeaders (c_str (take i (DataCollector p))) p")
      case (Inl e)
      then show ?thesis using Some ProcessingHeaders by (simp add: ProcessData_turn_def WaitForHeadersEndAndParseThem_def)
    next
      case (Inr q)
      from ParseHeaders_inv [OF Inr assms] have "parser_inv q \<and> (\<exists>f. map_of (Fields q) (ProcessingFieldName q) = Some f \<and> mem_field f)"
        using ProcessingHeaders by simp
      then show ?thesis using Some Inr ProcessingHeaders
        by (auto simp: ProcessData_turn_def WaitForHeadersEndAndParseThem_def TruncateDataCollectorFromTheBeginning_def parser_inv_def)
    qed
  qed
next
  case ProcessingContentOfTheField
  then show ?thesis using assms to_field_inv [OF assms]
    by (auto simp: content_turn parser_inv_def split: option.split)
qed

lemma turn_more_error:
  assumes "ProcessData_turn fo p = Some (Inl e)" "parser_inv p"
  shows "ProcessData_turn fo (more_data p b) = Some (Inl e)"
proof (cases "CurrentStatus p")
  case ProcessingHeaders
  then obtain i where i: "str_find (CRLF @ CRLF) (DataCollector p) = Some i"
    "ParseHeaders (c_str (take i (DataCollector p))) p = Inl e"
    using assms(1) by (auto simp: ProcessData_turn_def WaitForHeadersEndAndParseThem_def split: option.splits sum.splits)
  note j = str_find_append [OF i(1), of b]
  have "i \<le> length (DataCollector p)" using str_find_Some [OF i(1)] by simp
  then show ?thesis using i(2) j ProcessingHeaders
    by (simp add: ProcessData_turn_def WaitForHeadersEndAndParseThem_def ParseHeaders_more)
next
  case LookingForStartingBoundary
  then show ?thesis using assms(1) by (simp add: ProcessData_turn_def)
next
  case ProcessingContentOfTheField
  then show ?thesis using assms by (simp add: content_turn)
qed

lemma turn_more:
  assumes "ProcessData_turn fo p = Some (Inr (True, q))" "parser_inv p"
  shows "ProcessData_turn fo (more_data p b) = Some (Inr (True, more_data q b))"
proof (cases "CurrentStatus p")
  case LookingForStartingBoundary
  then obtain n where n: "str_find (Boundary p) (DataCollector p) = Some n"
      "q = p\<lparr>DataCollector := drop (n + length (Boundary p)) (DataCollector p), CurrentStatus := ProcessingHeaders\<rparr>"
    using assms(1) by (auto simp: ProcessData_turn_def FindStartingBoundaryAndTruncData_def BoundaryPositionInDataCollector_def
        TruncateDataCollectorFromTheBeginning_def split: option.splits)
  note j = str_find_append [OF n(1), of b] str_find_Some [OF n(1)]
  then show ?thesis using n(2) LookingForStartingBoundary
    by (simp add: ProcessData_turn_def FindStartingBoundaryAndTruncData_def BoundaryPositionInDataCollector_def
        TruncateDataCollectorFromTheBeginning_def) (simp add: more_data_def)
next
  case ProcessingHeaders
  then obtain i r where i: "str_find (CRLF @ CRLF) (DataCollector p) = Some i"
    and r: "ParseHeaders (c_str (take i (DataCollector p))) p = Inr r"
      "q = (TruncateDataCollectorFromTheBeginning (i + 4) r)\<lparr>CurrentStatus := ProcessingContentOfTheField\<rparr>"
    using assms(1)
    by (auto simp: ProcessData_turn_def WaitForHeadersEndAndParseThem_def split: option.splits sum.splits if_splits)
  have j: "str_find (CRLF @ CRLF) (DataCollector p @ b) = Some i" by (rule str_find_append [OF i])
  have "i \<le> length (DataCollector p)" "i + 4 \<le> length (DataCollector p)" using str_find_Some [OF i] by simp_all
  then show ?thesis using r j ProcessingHeaders ParseHeaders_data [OF r(1)]
    by (simp add: ProcessData_turn_def WaitForHeadersEndAndParseThem_def ParseHeaders_more
        TruncateDataCollectorFromTheBeginning_def) (simp add: more_data_def)
next
  case ProcessingContentOfTheField
  then obtain i where i: "str_find (Boundary p) (DataCollector p) = Some i"
      "q = (to_field (i - 2) p)\<lparr>CurrentStatus := LookingForStartingBoundary\<rparr>"
    using assms by (auto simp: content_turn split: option.splits)
  have len: "i - 2 \<le> length (DataCollector p)" using str_find_Some [OF i(1)] by linarith
  have "to_field (i - 2) (more_data p b) = more_data (to_field (i - 2) p) b"
    using to_field_more [OF assms(2) ProcessingContentOfTheField len, of 0 b] to_field_inv [OF assms(2), of "i - 2"]
    by (simp add: to_field_0)
  moreover have "ProcessData_turn fo (more_data p b) = Some (Inr (True, (to_field (i - 2) (more_data p b))\<lparr>CurrentStatus := LookingForStartingBoundary\<rparr>))"
    using content_turn [of "more_data p b" fo] assms(2) ProcessingContentOfTheField str_find_append [OF i(1), of b] by simp
  ultimately show ?thesis using i(2) by (simp add: more_data_def)
qed

lemma ProcessData_inv:
  "parser_inv p \<Longrightarrow> (\<exists>q. ProcessData fo p = Some (Inr q) \<and> parser_inv q) \<or> (\<exists>e. ProcessData fo p = Some (Inl e))"
proof (induction fo p rule: ProcessData.induct)
  case (1 fo p)
  consider (err) e where "ProcessData_turn fo p = Some (Inl e)" | (go) r q where "ProcessData_turn fo p = Some (Inr (r, q))" "parser_inv q"
    using turn_inv [OF "1.prems", of fo] by blast
  then show ?case
  proof cases
    case err
    then show ?thesis by (subst (1 2) ProcessData.simps) simp
  next
    case go
    then show ?thesis
      using "1.IH" [OF go(1) refl refl] by (subst (1 2) ProcessData.simps) (cases r; simp)
  qed
qed

text \<open>A boundary split between two pieces is not missed: enough of the data is held back.\<close>

lemma content_split:
  assumes "parser_inv p" "CurrentStatus p = ProcessingContentOfTheField" "str_find (Boundary p) (DataCollector p) = None"
  defines "n \<equiv> length (DataCollector p) - (length (Boundary p) + 2)"
  shows "ProcessData fo (more_data (to_field n p) b) = ProcessData fo (more_data p b)"
proof -
  let ?q = "more_data (to_field n p) b" and ?p = "more_data p b"
  obtain f where f: "map_of (Fields p) (ProcessingFieldName p) = Some f" using assms(1,2) by (auto simp: parser_inv_def)
  have n: "n \<le> length (DataCollector p)" by (simp add: n_def)
  have data: "DataCollector ?q = drop n (DataCollector ?p)" using f n by (simp add: to_field_def)
  have inv: "parser_inv ?p" "parser_inv ?q" using assms(1) to_field_inv [OF assms(1)] by simp_all
  note turn = content_turn [OF inv(1), of fo] content_turn [OF inv(2), of fo] and mv = to_field_more [OF assms(1,2) n, of _ b]
  have early: "\<not> prefix (Boundary p) (drop j (DataCollector p @ b))" if "j \<le> n + 2" "b \<noteq> [] \<or> n \<noteq> 0" "n \<noteq> 0" for j
  proof -
    have "j + length (Boundary p) \<le> length (DataCollector p)" using that n_def by linarith
    then show ?thesis using assms(3) by (subst prefix_drop_append) (simp_all add: str_find_None)
  qed
  show ?thesis
  proof (cases "n = 0")
    case True
    then show ?thesis using to_field_0 [OF assms(1)] by simp
  next
    case False
    have len: "length (DataCollector p) = n + (length (Boundary p) + 2)" using False by (simp add: n_def)
    show ?thesis
    proof (cases "str_find (Boundary p) (DataCollector ?p)")
      case None
      then have none: "str_find (Boundary p) (DataCollector ?q) = None"
        unfolding data using n by (intro str_find_drop_None) auto
      have "to_field (length (DataCollector ?q) - (length (Boundary p) + 2)) ?q = to_field (length (DataCollector ?p) - (length (Boundary p) + 2)) ?p"
        unfolding mv data using len by simp
      then have "ProcessData_turn fo ?q = ProcessData_turn fo ?p" using turn assms(2) None none by simp
      then show ?thesis by (subst (1 2) ProcessData.simps) simp
    next
      case (Some i)
      note i = str_find_Some [OF Some]
      have "\<not> i \<le> n + 2" using early [of i] i False by auto
      then have less: "n + 2 < i" by simp
      have found: "str_find (Boundary p) (DataCollector ?q) = Some (i - n)"
        unfolding data by (rule str_find_drop [OF Some]) (use less in simp)
      have "to_field (i - n - 2) ?q = to_field (i - 2) ?p" unfolding mv using less by simp
      then have "ProcessData_turn fo ?q = ProcessData_turn fo ?p" using turn assms(2) Some found by simp
      then show ?thesis by (subst (1 2) ProcessData.simps) simp
    qed
  qed
qed

lemma ProcessData_more:
  "parser_inv p \<Longrightarrow> ProcessData fo (more_data p b) =
    (case ProcessData fo p of None \<Rightarrow> None | Some (Inl e) \<Rightarrow> Some (Inl e) | Some (Inr q) \<Rightarrow> ProcessData fo (more_data q b))"
proof (induction fo p rule: ProcessData.induct)
  case (1 fo p)
  consider (err) e where "ProcessData_turn fo p = Some (Inl e)"
    | (go) q where "ProcessData_turn fo p = Some (Inr (True, q))" "parser_inv q"
    | (stop) q where "ProcessData_turn fo p = Some (Inr (False, q))"
    using turn_inv [OF "1.prems", of fo] by (metis (full_types))
  then show ?case
  proof cases
    case err
    then show ?thesis using turn_more_error [OF err "1.prems"] by (subst (1 2) ProcessData.simps) simp
  next
    case go
    have "ProcessData fo (more_data p b) = ProcessData fo (more_data q b)"
      using turn_more [OF go(1) "1.prems", of b] by (subst ProcessData.simps) simp
    moreover have "ProcessData fo p = ProcessData fo q" using go(1) by (subst ProcessData.simps) simp
    ultimately show ?thesis using "1.IH" [OF go(1) refl refl _ go(2)] by simp
  next
    case stop
    have p: "ProcessData fo p = Some (Inr q)" using stop by (subst ProcessData.simps) simp
    have "ProcessData fo (more_data p b) = ProcessData fo (more_data q b)"
    proof (cases "CurrentStatus p")
      case ProcessingContentOfTheField
      with stop "1.prems" have "str_find (Boundary p) (DataCollector p) = None"
        "q = to_field (length (DataCollector p) - (length (Boundary p) + 2)) p"
        by (auto simp: content_turn split: option.splits)
      with content_split [OF "1.prems" ProcessingContentOfTheField] show ?thesis by simp
    qed (use stop in \<open>auto simp: ProcessData_turn_def FindStartingBoundaryAndTruncData_def WaitForHeadersEndAndParseThem_def
        split: option.splits sum.splits if_splits\<close>)
    with p show ?thesis by simp
  qed
qed

definition feed_parser :: "'fs file_ops \<Rightarrow> mpfd_error + 'fs Parser \<Rightarrow> string \<Rightarrow> (mpfd_error + 'fs Parser) ub" where
  "feed_parser fo r data = (case r of Inl e \<Rightarrow> Some (Inl e) | Inr p \<Rightarrow> ProcessData fo (more_data p data))"

interpretation multipart: stream_consumer "feed_parser fo" "\<lambda>r. case r of Inl e \<Rightarrow> True | Inr p \<Rightarrow> parser_inv p"
proof (unfold_locales, goal_cases)
  case (1 s a s')
  then show ?case using ProcessData_inv [of "more_data (projr s) a" fo] by (cases s) (auto simp: feed_parser_def)
next
  case (2 s a b)
  show ?case
  proof (cases s)
    case (Inr p)
    have "more_data (more_data p a) b = more_data p (a @ b)" by (simp add: more_data_def)
    with ProcessData_more [of "more_data p a" fo b] Inr 2 show ?thesis
      by (cases "ProcessData fo (more_data p a)") (auto simp: feed_parser_def split: sum.split)
  qed (simp add: feed_parser_def)
qed

subsection \<open>Forms as clients send them\<close>

record part =
  pname :: string
  pfile :: "(string \<times> string) option"
  pcontent :: string

definition part_headers :: "part \<Rightarrow> string" where
  "part_headers t = CRLF @ ''Content-Disposition: form-data; name='' @ [QUOTE] @ pname t @ [QUOTE] @
     (case pfile t of None \<Rightarrow> []
      | Some (fn, ct) \<Rightarrow> ''; filename='' @ [QUOTE] @ fn @ [QUOTE] @ CRLF @ ''Content-Type: '' @ ct)"

definition form_part :: "string \<Rightarrow> part \<Rightarrow> string" where
  "form_part bd t = bd @ part_headers t @ CRLF @ CRLF @ pcontent t @ CRLF"

definition form_body :: "string \<Rightarrow> part list \<Rightarrow> string" where
  "form_body bd ts = concat (map (form_part bd) ts) @ bd @ ''--'' @ CRLF"

definition word_ok :: "string \<Rightarrow> bool" where
  "word_ok s \<longleftrightarrow> (\<forall>c \<in> set s. c \<notin> {NUL, CR, LF, QUOTE, CHR ''='', CHR '':''})"

definition part_ok :: "string \<Rightarrow> part \<Rightarrow> bool" where
  "part_ok bd t \<longleftrightarrow> word_ok (pname t) \<and>
     (case pfile t of None \<Rightarrow> True
      | Some (fn, ct) \<Rightarrow> word_ok fn \<and> (\<forall>c \<in> set ct. c \<notin> {NUL, CR, LF, CHR '' ''})) \<and>
     str_find bd (pcontent t @ CRLF @ bd) = Some (length (pcontent t) + 2)"

definition part_field :: "string \<Rightarrow> part \<Rightarrow> Field" where
  "part_field dir t =
     (case pfile t of
        None \<Rightarrow> Field_new\<lparr>ftype := TextType, FieldContent := pcontent t\<rparr>
      | Some (fn, ct) \<Rightarrow> Field_new\<lparr>ftype := FileType, WhereToStore := Some StoreUploadedFilesInMemory, TempDir := dir,
           FileName := fn, FileContentType := ct, FieldContent := pcontent t\<rparr>)"

lemma str_find_skip:
  assumes "\<And>i. i < length u \<Longrightarrow> \<not> prefix pat (drop i u @ w)"
  shows "str_find pat (u @ w) = map_option (\<lambda>i. length u + i) (str_find pat w)"
  using assms
proof (induction u)
  case Nil
  show ?case by (cases "str_find pat w") simp_all
next
  case (Cons c u)
  have "\<not> prefix pat (c # u @ w)" using Cons.prems [of 0] by simp
  moreover have "\<not> prefix pat (drop i u @ w)" if "i < length u" for i using Cons.prems [of "Suc i"] that by simp
  ultimately show ?case using Cons.IH by (cases "str_find pat w") simp_all
qed

text \<open>A pattern whose first byte does not occur; one with a byte that does not occur, before a byte outside the pattern.\<close>

lemma str_find_skip_hd: "pat \<noteq> [] \<Longrightarrow> hd pat \<notin> set u \<Longrightarrow> str_find pat (u @ w) = map_option (\<lambda>i. length u + i) (str_find pat w)"
  by (rule str_find_skip) (metis Cons_eq_appendI append.assoc append_eq_Cons_conv drop_eq_Nil hd_append2 in_set_dropD leD list.set_sel(1) prefixE)

lemma prefix_nth: "prefix p s \<Longrightarrow> i < length p \<Longrightarrow> s ! i = p ! i"
  by (auto simp: prefix_def nth_append)

lemma str_find_skip_word:
  assumes "e < length pat" "pat ! e \<notin> set u" "q \<notin> set (take (Suc e) pat)"
  shows "str_find pat (u @ q # w) = map_option (\<lambda>i. length u + i) (str_find pat (q # w))"
proof (rule str_find_skip)
  fix i assume i: "i < length u"
  show "\<not> prefix pat (drop i u @ q # w)"
  proof
    assume p: "prefix pat (drop i u @ q # w)"
    show False
    proof (cases "e < length u - i")
      case True
      have "(drop i u @ q # w) ! e = u ! (i + e)" using True i by (simp add: nth_append)
      moreover have "u ! (i + e) \<in> set u" using True by simp
      ultimately show False using prefix_nth [OF p assms(1)] assms(2) by simp
    next
      case False
      then have l: "length u - i < Suc e" "length u - i < length pat" using assms(1) by simp_all
      have "(drop i u @ q # w) ! (length u - i) = q" by (simp add: nth_append)
      then have "pat ! (length u - i) = q" using prefix_nth [OF p l(2)] by simp
      then show False using assms(3) l by (metis in_set_conv_nth length_take min_less_iff_conj nth_take)
    qed
  qed
qed

lemma word_okD:
  "word_ok s \<Longrightarrow> QUOTE \<notin> set s" "word_ok s \<Longrightarrow> CHR ''='' \<notin> set s" "word_ok s \<Longrightarrow> CHR '':'' \<notin> set s"
  "word_ok s \<Longrightarrow> CR \<notin> set s" "word_ok s \<Longrightarrow> LF \<notin> set s" "word_ok s \<Longrightarrow> NUL \<notin> set s"
  by (auto simp: word_ok_def)

definition disposition :: string where
  "disposition = CRLF @ ''Content-Disposition: form-data; name='' @ [QUOTE]"

lemma in_disposition:
  "length disposition = 40"
  "str_find ''Content-Disposition: form-data;'' (disposition @ w) = Some 2"
  "str_find (''name='' @ [QUOTE]) (disposition @ w) = Some 34"
  "str_find (''filename='' @ [QUOTE]) (disposition @ w) = map_option (\<lambda>i. 40 + i) (str_find (''filename='' @ [QUOTE]) w)"
  "str_find ''Content-Type: '' (disposition @ w) = map_option (\<lambda>i. 40 + i) (str_find ''Content-Type: '' w)"
proof -
  have forty: "Suc (Suc (Suc (Suc (Suc (Suc (Suc (Suc (Suc (Suc (Suc (Suc (Suc (Suc (Suc (Suc (Suc (Suc (Suc (Suc
    (Suc (Suc (Suc (Suc (Suc (Suc (Suc (Suc (Suc (Suc (Suc (Suc (Suc (Suc (Suc (Suc (Suc (Suc (Suc (Suc x
    ))))))))))))))))))))))))))))))))))))))) = 40 + x" for x by arith
  show "length disposition = 40" "str_find ''Content-Disposition: form-data;'' (disposition @ w) = Some 2"
    "str_find (''name='' @ [QUOTE]) (disposition @ w) = Some 34"
    by (simp_all add: disposition_def QUOTE_def)
  show "str_find (''filename='' @ [QUOTE]) (disposition @ w) = map_option (\<lambda>i. 40 + i) (str_find (''filename='' @ [QUOTE]) w)"
    "str_find ''Content-Type: '' (disposition @ w) = map_option (\<lambda>i. 40 + i) (str_find ''Content-Type: '' w)"
    by (simp_all add: disposition_def QUOTE_def option.map_comp comp_def forty)
qed

lemma find_quote: "QUOTE \<notin> set u \<Longrightarrow> str_find [QUOTE] (u @ QUOTE # w) = Some (length u)"
  by (simp add: str_find_skip_hd)

lemma find_in_words:
  assumes "word_ok u"
  shows "str_find (''filename='' @ [QUOTE]) (u @ QUOTE # w) = map_option (\<lambda>i. length u + i) (str_find (''filename='' @ [QUOTE]) (QUOTE # w))"
    "str_find ''Content-Type: '' (u @ QUOTE # w) = map_option (\<lambda>i. length u + i) (str_find ''Content-Type: '' (QUOTE # w))"
  using word_okD(2,3) [OF assms] str_find_skip_word [of 8 "''filename='' @ [QUOTE]" u QUOTE w]
    str_find_skip_word [of 12 "''Content-Type: ''" u QUOTE w]
  by (simp_all add: QUOTE_def)

lemma parse_text:
  assumes "word_ok n"
  shows "ParseHeaders (disposition @ n @ [QUOTE]) p =
    Inr (p\<lparr>ProcessingFieldName := n, Fields := map_put n (Field_new\<lparr>ftype := TextType\<rparr>) (Fields p)\<rparr>)"
proof -
  have "str_find_from [QUOTE] 40 (disposition @ n @ [QUOTE]) = Some (40 + length n)"
    using find_quote [OF word_okD(1) [OF assms], of "[]"] by (simp add: str_find_from_def in_disposition(1))
  moreover have "str_find (''filename='' @ [QUOTE]) (disposition @ n @ [QUOTE]) = None"
    unfolding in_disposition(4) find_in_words(1) [OF assms] by (simp add: QUOTE_def)
  ultimately show ?thesis
    unfolding ParseHeaders_def in_disposition(2,3) option.case by (simp add: in_disposition(1) SetType_def)
qed

lemma drop_prefix: "s = u @ w \<Longrightarrow> length u = n \<Longrightarrow> drop n s = w"
  by simp

lemma ParseHeaders_file:
  assumes "str_find ''Content-Disposition: form-data;'' h = Some z" "str_find (''name='' @ [QUOTE]) h = Some a"
    "str_find_from [QUOTE] (a + 6) h = Some b" "str_find (''filename='' @ [QUOTE]) h = Some c"
    "str_find_from [QUOTE] (c + 10) h = Some d" "str_find ''Content-Type: '' h = Some e"
    "take (b - (a + 6)) (drop (a + 6) h) = n" "take (d - (c + 10)) (drop (c + 10) h) = fn"
    "header_content_type (drop (e + 14) h) = ct"
  shows "ParseHeaders h p = Inr (p\<lparr>ProcessingFieldName := n, Fields := map_put n (Field_new\<lparr>ftype := FileType,
    WhereToStore := Some (PWhereToStore p), TempDir := TempDirForFileUpload p, FileName := fn, FileContentType := ct\<rparr>) (Fields p)\<rparr>)"
  unfolding ParseHeaders_def assms(1,2) option.case assms(3,4) Let_def assms(5-9)
  by (simp add: SetType_def assms(5) Field_new_def Field_SetUploadedFilesStorage_def SetTempDir_def SetFileName_def SetFileContentType_def)

lemma parse_file:
  assumes "word_ok n" "word_ok fn" "\<forall>c \<in> set ct. c \<notin> {NUL, CR, LF, CHR '' ''}"
  shows "ParseHeaders (disposition @ n @ [QUOTE] @ ''; filename='' @ [QUOTE] @ fn @ [QUOTE] @ CRLF @ ''Content-Type: '' @ ct) p =
    Inr (p\<lparr>ProcessingFieldName := n, Fields := map_put n (Field_new\<lparr>ftype := FileType, WhereToStore := Some (PWhereToStore p),
      TempDir := TempDirForFileUpload p, FileName := fn, FileContentType := ct\<rparr>) (Fields p)\<rparr>)"
    (is "ParseHeaders ?h p = _")
proof -
  let ?f = "QUOTE # ''; filename='' @ [QUOTE]" and ?e = "QUOTE # CRLF @ ''Content-Type: '' @ ct"
  have len: "length ?f = 13" by simp
  have h: "?h = disposition @ n @ ?f @ fn @ ?e" by simp
  have name: "str_find_from [QUOTE] 40 ?h = Some (40 + length n)"
    using find_quote [OF word_okD(1) [OF assms(1)]] by (simp add: str_find_from_def in_disposition(1))
  have "str_find (''filename='' @ [QUOTE]) (?f @ fn @ ?e) = Some 3" by (simp add: QUOTE_def)
  then have fname: "str_find (''filename='' @ [QUOTE]) ?h = Some (43 + length n)"
    unfolding h in_disposition(4) using find_in_words(1) [OF assms(1)] by simp
  have "drop (53 + length n) ?h = fn @ ?e" unfolding h using in_disposition(1) len by simp
  then have fend: "str_find_from [QUOTE] (43 + length n + 10) ?h = Some (53 + length n + length fn)" "drop (43 + length n + 10) ?h = fn @ ?e"
    using find_quote [OF word_okD(1) [OF assms(2)]] by (simp_all add: str_find_from_def in_disposition(1))
  have "str_find ''Content-Type: '' ?e = Some 3" by (simp add: QUOTE_def)
  moreover have "str_find ''Content-Type: '' (?f @ fn @ ?e) = map_option (\<lambda>i. 13 + i) (str_find ''Content-Type: '' (fn @ ?e))"
    by (cases "str_find ''Content-Type: '' (fn @ ?e)") (simp_all add: QUOTE_def)
  ultimately have ctype: "str_find ''Content-Type: '' ?h = Some (56 + length n + length fn)"
    unfolding h in_disposition(5) using find_in_words(2) [OF assms(1)] find_in_words(2) [OF assms(2)] by simp
  have "drop (70 + length n + length fn) ?h = ct"
    by (rule drop_prefix [where u = "disposition @ n @ ?f @ fn @ QUOTE # CRLF @ ''Content-Type: ''"]) (simp_all add: in_disposition(1))
  moreover have "header_content_type ct = ct" using assms(3) by (simp add: header_content_type_def takeWhile_eq_all_conv)
  ultimately have ct: "header_content_type (drop (56 + length n + length fn + 14) ?h) = ct" by (simp only: add.assoc) (simp add: add.commute)
  have n: "take (40 + length n - (34 + 6)) (drop (34 + 6) ?h) = n" using in_disposition(1) by simp
  have fn: "take (53 + length n + length fn - (43 + length n + 10)) (drop (43 + length n + 10) ?h) = fn" unfolding fend(2) by simp
  have q: "str_find_from [QUOTE] (34 + 6) ?h = Some (40 + length n)" using name by simp
  show ?thesis by (rule ParseHeaders_file [OF in_disposition(2) in_disposition(3) q fname fend(1) ctype n fn ct])
qed

lemma parse_part:
  assumes "part_ok bd t" "PWhereToStore p = StoreUploadedFilesInMemory"
  shows "ParseHeaders (part_headers t) p = Inr (p\<lparr>ProcessingFieldName := pname t,
    Fields := map_put (pname t) ((part_field (TempDirForFileUpload p) t)\<lparr>FieldContent := []\<rparr>) (Fields p)\<rparr>)"
proof (cases "pfile t")
  case None
  then show ?thesis using assms parse_text [of "pname t" p]
    by (simp add: part_headers_def part_ok_def part_field_def disposition_def Field_new_def)
next
  case (Some x)
  then show ?thesis using assms parse_file [of "pname t" "fst x" "snd x" p]
    by (simp add: part_headers_def part_ok_def part_field_def disposition_def Field_new_def split_beta)
qed

lemma headers_line:
  assumes "CR \<notin> set u" "u \<noteq> []"
  shows "str_find (CRLF @ CRLF) (CRLF @ u @ v) = map_option (\<lambda>i. 2 + length u + i) (str_find (CRLF @ CRLF) v)"
proof -
  have "\<not> prefix (CRLF @ CRLF) (CRLF @ u @ v)" using assms by (cases u) auto
  then have "str_find (CRLF @ CRLF) (CRLF @ u @ v) = map_option (\<lambda>i. 2 + i) (str_find (CRLF @ CRLF) (u @ v))"
    by (cases "str_find (CRLF @ CRLF) (u @ v)") simp_all
  also have "str_find (CRLF @ CRLF) (u @ v) = map_option (\<lambda>i. length u + i) (str_find (CRLF @ CRLF) v)"
    by (rule str_find_skip_hd) (use assms in simp_all)
  finally show ?thesis by (cases "str_find (CRLF @ CRLF) v") simp_all
qed

lemma headers_lines:
  assumes "part_ok bd t"
  shows "(\<exists>u. part_headers t = CRLF @ u \<and> CR \<notin> set u \<and> u \<noteq> []) \<or>
    (\<exists>u v. part_headers t = CRLF @ u @ CRLF @ v \<and> CR \<notin> set u \<and> u \<noteq> [] \<and> CR \<notin> set v \<and> v \<noteq> [])"
proof -
  have w: "word_ok (pname t)" using assms by (simp add: part_ok_def)
  show ?thesis
  proof (cases "pfile t")
    case None
    let ?u = "''Content-Disposition: form-data; name='' @ [QUOTE] @ pname t @ [QUOTE]"
    have "part_headers t = CRLF @ ?u" using None by (simp add: part_headers_def)
    moreover have "CR \<notin> set ?u" using w word_okD(4) [OF w] by (simp add: QUOTE_def)
    ultimately show ?thesis by (intro disjI1 exI [of _ ?u] conjI) (assumption | simp)+
  next
    case (Some x)
    let ?u = "''Content-Disposition: form-data; name='' @ [QUOTE] @ pname t @ [QUOTE] @ ''; filename='' @ [QUOTE] @ fst x @ [QUOTE]"
    let ?v = "''Content-Type: '' @ snd x"
    have h: "part_headers t = CRLF @ ?u @ CRLF @ ?v" using Some by (simp add: part_headers_def split_beta)
    have x: "word_ok (fst x)" "CR \<notin> set (snd x)" using assms Some by (auto simp: part_ok_def split_beta)
    have u: "CR \<notin> set ?u" "CR \<notin> set ?v" using x(2) word_okD(4) [OF w] word_okD(4) [OF x(1)] by (simp_all add: QUOTE_def)
    show ?thesis by (intro disjI2 exI [of _ ?u] exI [of _ ?v] conjI h u) simp_all
  qed
qed

lemma headers_end:
  assumes "part_ok bd t"
  shows "str_find (CRLF @ CRLF) (part_headers t @ CRLF @ CRLF @ w) = Some (length (part_headers t))"
    and "c_str (part_headers t) = part_headers t"
proof -
  have stop: "str_find (CRLF @ CRLF) (CRLF @ CRLF @ w) = Some 0" by simp
  show "str_find (CRLF @ CRLF) (part_headers t @ CRLF @ CRLF @ w) = Some (length (part_headers t))"
    using headers_lines [OF assms]
  proof (elim disjE exE conjE)
    fix u assume "part_headers t = CRLF @ u" "CR \<notin> set u" "u \<noteq> []"
    then show ?thesis using headers_line [of u "CRLF @ CRLF @ w"] stop by simp
  next
    fix u v assume "part_headers t = CRLF @ u @ CRLF @ v" "CR \<notin> set u" "u \<noteq> []" "CR \<notin> set v" "v \<noteq> []"
    then show ?thesis using headers_line [of u "CRLF @ v @ CRLF @ CRLF @ w"] headers_line [of v "CRLF @ CRLF @ w"] stop by simp
  qed
  have "NUL \<notin> set (part_headers t)"
    using assms by (auto simp: part_headers_def part_ok_def word_ok_def QUOTE_def split: option.splits)
  then show "c_str (part_headers t) = part_headers t" by (simp add: c_str_id)
qed

lemma ProcessData_go: "ProcessData_turn fo p = Some (Inr (True, q)) \<Longrightarrow> ProcessData fo p = ProcessData fo q"
  by (subst ProcessData.simps) simp

lemma boundary_turn:
  assumes "CurrentStatus p = LookingForStartingBoundary" "DataCollector p = u @ Boundary p @ w"
    "str_find (Boundary p) (u @ Boundary p) = Some (length u)"
  shows "ProcessData fo p = ProcessData fo (p\<lparr>CurrentStatus := ProcessingHeaders, DataCollector := w\<rparr>)"
proof (rule ProcessData_go)
  have "str_find (Boundary p) (u @ Boundary p @ w) = Some (length u)" using str_find_append [OF assms(3), of w] by simp
  then show "ProcessData_turn fo p = Some (Inr (True, p\<lparr>CurrentStatus := ProcessingHeaders, DataCollector := w\<rparr>))"
    using assms(1,2) by (simp add: ProcessData_turn_def FindStartingBoundaryAndTruncData_def BoundaryPositionInDataCollector_def
        TruncateDataCollectorFromTheBeginning_def)
qed

definition add_part :: "part \<Rightarrow> 'fs Parser \<Rightarrow> 'fs Parser" where
  "add_part t p = p\<lparr>ProcessingFieldName := pname t, Fields := map_put (pname t) (part_field (TempDirForFileUpload p) t) (Fields p)\<rparr>"

lemma part_turns:
  assumes "part_ok bd t" "parser_inv p" "CurrentStatus p = LookingForStartingBoundary" "Boundary p = bd"
    "DataCollector p = u @ form_part bd t @ bd @ w" "str_find bd (u @ bd) = Some (length u)"
  shows "ProcessData fo p = ProcessData fo ((add_part t p)\<lparr>DataCollector := CRLF @ bd @ w\<rparr>)"
proof -
  let ?c = "pcontent t @ CRLF @ bd @ w"
  let ?h = "part_headers t @ CRLF @ CRLF @ ?c"
  let ?p = "p\<lparr>CurrentStatus := ProcessingHeaders, DataCollector := ?h\<rparr>"
  let ?f = "part_field (TempDirForFileUpload p) t"
  let ?q = "p\<lparr>ProcessingFieldName := pname t, Fields := map_put (pname t) (?f\<lparr>FieldContent := []\<rparr>) (Fields p),
    CurrentStatus := ProcessingContentOfTheField, DataCollector := ?c\<rparr>"
  have "ProcessData fo p = ProcessData fo ?p"
    using boundary_turn [OF assms(3), of u "?h" fo] assms(4-6) by (simp add: form_part_def)
  also have "\<dots> = ProcessData fo ?q"
  proof (rule ProcessData_go)
    have store: "PWhereToStore ?p = StoreUploadedFilesInMemory" using assms(2) by (simp add: parser_inv_def)
    show "ProcessData_turn fo ?p = Some (Inr (True, ?q))"
      using headers_end(1) [OF assms(1), of ?c] headers_end(2) [OF assms(1)] parse_part [OF assms(1) store]
      by (simp add: ProcessData_turn_def WaitForHeadersEndAndParseThem_def TruncateDataCollectorFromTheBeginning_def)
  qed
  also have "\<dots> = ProcessData fo ((add_part t p)\<lparr>DataCollector := CRLF @ bd @ w\<rparr>)"
  proof (rule ProcessData_go)
    have mem: "mem_field (?f\<lparr>FieldContent := []\<rparr>)" by (simp add: mem_field_def part_field_def Field_new_def split: option.split)
    have inv: "parser_inv ?q" using assms(2) mem by (simp add: parser_inv_def sorted_map_put map_of_map_put)
    have "str_find bd (pcontent t @ CRLF @ bd) = Some (length (pcontent t) + 2)" using assms(1) by (simp add: part_ok_def)
    from str_find_append [OF this, of w] have found: "str_find bd ?c = Some (length (pcontent t) + 2)" by simp
    have field: "?f\<lparr>FieldContent := pcontent t\<rparr> = ?f" by (simp add: part_field_def Field_new_def split: option.split)
    have "to_field (length (pcontent t)) ?q = ?q\<lparr>Fields := map_put (pname t) ?f (Fields p), DataCollector := CRLF @ bd @ w\<rparr>"
      using field by (simp add: to_field_def map_of_map_put map_put_twice)
    then show "ProcessData_turn fo ?q = Some (Inr (True, (add_part t p)\<lparr>DataCollector := CRLF @ bd @ w\<rparr>))"
      using content_turn [OF inv, of fo] found assms(3,4) by (simp add: add_part_def)
  qed
  finally show ?thesis .
qed

lemma add_part_simps [simp]:
  "CurrentStatus (add_part t p) = CurrentStatus p" "Boundary (add_part t p) = Boundary p"
  "TempDirForFileUpload (add_part t p) = TempDirForFileUpload p"
  "Fields (add_part t p) = map_put (pname t) (part_field (TempDirForFileUpload p) t) (Fields p)"
  by (simp_all add: add_part_def)

lemma form_turns:
  assumes "\<forall>t \<in> set ts. part_ok bd t" "prefix ''--'' bd" "parser_inv p" "CurrentStatus p = LookingForStartingBoundary"
    "Boundary p = bd" "DataCollector p = u @ form_body bd ts" "u = [] \<or> u = CRLF"
  shows "\<exists>q. ProcessData fo p = Some (Inr q) \<and>
    Fields q = foldl (\<lambda>m t. map_put (pname t) (part_field (TempDirForFileUpload p) t) m) (Fields p) ts"
  using assms
proof (induction ts arbitrary: p u)
  case Nil
  obtain b where b: "bd = CHR ''-'' # b" using Nil.prems(2) by (auto simp: prefix_def)
  have u: "str_find bd (u @ bd) = Some (length u)" using Nil.prems(7) b by auto
  let ?q = "p\<lparr>CurrentStatus := ProcessingHeaders, DataCollector := ''--'' @ CRLF\<rparr>"
  have "ProcessData fo p = ProcessData fo ?q"
    using boundary_turn [OF Nil.prems(4), of u "''--'' @ CRLF" fo] Nil.prems(5,6) u by (simp add: form_body_def)
  also have "\<dots> = Some (Inr ?q)"
    by (subst ProcessData.simps) (simp add: ProcessData_turn_def WaitForHeadersEndAndParseThem_def)
  finally show ?case by simp
next
  case (Cons t ts)
  obtain b where b: "bd = CHR ''-'' # b" using Cons.prems(2) by (auto simp: prefix_def)
  have u: "str_find bd (u @ bd) = Some (length u)" using Cons.prems(7) b by auto
  have "\<exists>w. form_body bd ts = bd @ w" by (cases ts) (simp_all add: form_body_def form_part_def)
  then obtain w where w: "form_body bd ts = bd @ w" by blast
  let ?p = "(add_part t p)\<lparr>DataCollector := CRLF @ form_body bd ts\<rparr>"
  have inv: "parser_inv ?p" using Cons.prems(3,4) by (simp add: parser_inv_def sorted_map_put add_part_def)
  have d: "DataCollector p = u @ form_part bd t @ bd @ w" using Cons.prems(6) w by (simp add: form_body_def)
  have "ProcessData fo p = ProcessData fo ?p"
    using part_turns [OF _ Cons.prems(3,4,5) d u, of fo] Cons.prems(1) w by simp
  then show ?case using Cons.IH [of ?p CRLF] inv Cons.prems by simp
qed

subsection \<open>Pieces within the limit\<close>

primrec accept_all :: "'fs file_ops \<Rightarrow> 'fs Parser \<Rightarrow> string list \<Rightarrow> 'fs Parser mpfd" where
  "accept_all fo p [] = Some (Inr p)"
| "accept_all fo p (d # ds) =
     (case AcceptSomeData fo d p of Some (Inr q) \<Rightarrow> accept_all fo q ds | r \<Rightarrow> r)"

lemma turn_data:
  assumes "ProcessData_turn fo p = Some (Inr (r, q))" "parser_inv p"
  shows "length (DataCollector q) \<le> length (DataCollector p) \<and> Boundary q = Boundary p \<and>
    MaxDataCollectorLength q = MaxDataCollectorLength p"
proof (cases "CurrentStatus p")
  case LookingForStartingBoundary
  then show ?thesis using assms(1)
    by (auto simp: ProcessData_turn_def FindStartingBoundaryAndTruncData_def TruncateDataCollectorFromTheBeginning_def split: option.splits)
next
  case ProcessingHeaders
  then show ?thesis using assms(1) ParseHeaders_data
    by (auto simp: ProcessData_turn_def WaitForHeadersEndAndParseThem_def TruncateDataCollectorFromTheBeginning_def
        split: option.splits sum.splits if_splits dest!: ParseHeaders_data)
next
  case ProcessingContentOfTheField
  then show ?thesis using assms
    by (auto simp: content_turn to_field_def split: option.splits)
qed

lemma ProcessData_data:
  "ProcessData fo p = Some (Inr q) \<Longrightarrow> parser_inv p \<Longrightarrow> length (DataCollector q) \<le> length (DataCollector p) \<and>
    Boundary q = Boundary p \<and> MaxDataCollectorLength q = MaxDataCollectorLength p"
proof (induction fo p rule: ProcessData.induct)
  case (1 fo p)
  consider (err) e where "ProcessData_turn fo p = Some (Inl e)"
    | (go) r p' where "ProcessData_turn fo p = Some (Inr (r, p'))" "parser_inv p'"
    using turn_inv [OF "1.prems"(2), of fo] by blast
  then show ?case
  proof cases
    case err
    then show ?thesis using "1.prems"(1) by (subst (asm) ProcessData.simps) simp
  next
    case go
    note t = turn_data [OF go(1) "1.prems"(2)]
    show ?thesis
    proof (cases r)
      case True
      have "ProcessData fo p' = Some (Inr q)" using "1.prems"(1) go(1) True by (subst (asm) ProcessData.simps) simp
      from "1.IH" [OF go(1) refl refl True this go(2)] t show ?thesis by simp
    next
      case False
      have "p' = q" using "1.prems"(1) go(1) False by (subst (asm) ProcessData.simps) simp
      with t show ?thesis by simp
    qed
  qed
qed

lemma feed_parser_simps:
  "feed_parser fo (Inl e) d = Some (Inl e)" "feed_parser fo (Inr p) d = ProcessData fo (more_data p d)"
  by (simp_all add: feed_parser_def)

lemma accept_all_feed:
  "parser_inv p \<Longrightarrow> Boundary p \<noteq> [] \<Longrightarrow>
   int (length (DataCollector p) + length (concat ds)) \<le> MaxDataCollectorLength p \<Longrightarrow>
   accept_all fo p ds = feed_all (feed_parser fo) (Inr p) ds"
proof (induction ds arbitrary: p)
  case (Cons d ds)
  have a: "AcceptSomeData fo d p = ProcessData fo (more_data p d)"
    using Cons.prems by (simp add: AcceptSomeData_def more_data_def)
  have inl: "feed_all (feed_parser fo) (Inl e) ds = Some (Inl e)" for e by (induction ds) (simp_all add: feed_parser_simps)
  have inv: "parser_inv (more_data p d)" using Cons.prems(1) by simp
  consider (ok) q where "ProcessData fo (more_data p d) = Some (Inr q)" "parser_inv q"
    | (err) e where "ProcessData fo (more_data p d) = Some (Inl e)"
    using ProcessData_inv [OF inv, of fo] by blast
  then show ?case
  proof cases
    case ok
    from ProcessData_data [OF ok(1) inv] Cons.prems have "accept_all fo q ds = feed_all (feed_parser fo) (Inr q) ds"
      by (intro Cons.IH ok(2)) (simp_all add: more_data_def)
    then show ?thesis using a ok(1) by (simp add: feed_parser_simps)
  next
    case err
    then show ?thesis using a inl by (simp add: feed_parser_simps)
  qed
qed simp

definition form_type :: "string \<Rightarrow> string" where
  "form_type b = ''multipart/form-data; boundary='' @ b"

definition upload_parser :: "string \<Rightarrow> int \<Rightarrow> 'fs \<Rightarrow> mpfd_error + 'fs Parser" where
  "upload_parser ct n fs =
     SetContentType ct (SetMaxCollectedDataLength n (SetUploadedFilesStorage StoreUploadedFilesInMemory (Parser_new fs)))"

lemma form_fields:
  "distinct (map pname ts) \<Longrightarrow> map_of (foldl (\<lambda>m t. map_put (pname t) (part_field dir t) m) m ts) n =
    (case find (\<lambda>t. pname t = n) ts of Some t \<Rightarrow> Some (part_field dir t) | None \<Rightarrow> map_of m n)"
proof (induction ts arbitrary: m)
  case (Cons t ts)
  have nt: "pname t \<notin> pname ` set ts" using Cons.prems by simp
  have "find (\<lambda>t. pname t = n) ts = None" if "pname t = n" unfolding find_None_iff using nt that by (metis imageI)
  then show ?case using Cons by (cases "pname t = n") (auto simp: map_of_map_put split: option.split)
qed simp

lemma find_part: "t \<in> set ts \<Longrightarrow> distinct (map pname ts) \<Longrightarrow> find (\<lambda>t'. pname t' = pname t) ts = Some t"
proof (induction ts)
  case (Cons s ts)
  then show ?case by (cases "t = s") (auto simp: image_iff)
qed simp

text \<open>What the getters of a field return for a part that was sent.\<close>

definition shows_part :: "part \<Rightarrow> Field \<Rightarrow> bool" where
  "shows_part t f =
     (case pfile t of
        None \<Rightarrow> GetType f = Inr TextType \<and> GetTextTypeContent f = Inr (c_str (pcontent t))
      | Some (fn, ct) \<Rightarrow> GetType f = Inr FileType \<and> GetFileName f = Inr fn \<and> GetFileMimeType f = Inr ct \<and>
          GetFileContent f = Some (Inr (pcontent t)) \<and> GetFileContentSize f = Some (Inr (length (pcontent t))))"

lemma part_field_shows: "shows_part t (part_field d t)"
  by (simp add: shows_part_def part_field_def Field_new_def GetType_def GetTextTypeContent_def GetFileName_def GetFileMimeType_def
      GetFileContent_def GetFileContentSize_def TextType_def FileType_def split: option.split)

lemma multipart_fields:
  assumes "\<forall>t \<in> set ts. part_ok (''--'' @ b) t" "concat (c # cs) = form_body (''--'' @ b) ts"
    "int (length (form_body (''--'' @ b) ts)) \<le> n"
  shows "\<exists>p q. upload_parser (form_type b) n fs = Inr p \<and> accept_all fo p (c # cs) = Some (Inr q) \<and>
    Fields q = foldl (\<lambda>m t. map_put (pname t) (part_field [] t) m) [] ts"
proof -
  obtain p where p: "upload_parser (form_type b) n fs = Inr p"
      "p = (SetMaxCollectedDataLength n (SetUploadedFilesStorage StoreUploadedFilesInMemory (Parser_new fs)))\<lparr>Boundary := ''--'' @ b\<rparr>"
    by (simp add: upload_parser_def SetContentType_def form_type_def)
  have f: "Fields p = []" "CurrentStatus p = LookingForStartingBoundary" "Boundary p = ''--'' @ b" "DataCollector p = []"
    "TempDirForFileUpload p = []" "MaxDataCollectorLength p = n" "PWhereToStore p = StoreUploadedFilesInMemory"
    by (simp_all add: p(2) SetMaxCollectedDataLength_def SetUploadedFilesStorage_def Parser_new_def)
  have inv: "parser_inv p" by (simp add: parser_inv_def f)
  have "accept_all fo p (c # cs) = feed_all (feed_parser fo) (Inr p) (c # cs)"
    by (rule accept_all_feed [OF inv]) (use assms(2,3) f in \<open>simp_all flip: append_assoc\<close>)
  also have "\<dots> = feed_parser fo (Inr p) (form_body (''--'' @ b) ts)"
    using multipart.feed_all_concat [of "Inr p" fo c cs] inv assms(2) by simp
  also have "\<dots> = ProcessData fo (more_data p (form_body (''--'' @ b) ts))" by (simp add: feed_parser_simps)
  finally have a: "accept_all fo p (c # cs) = ProcessData fo (more_data p (form_body (''--'' @ b) ts))" .
  have inv': "parser_inv (more_data p (form_body (''--'' @ b) ts))" using inv by simp
  have tmp: "TempDirForFileUpload (more_data p x) = TempDirForFileUpload p" for x by (simp add: more_data_def)
  obtain q where "ProcessData fo (more_data p (form_body (''--'' @ b) ts)) = Some (Inr q)"
      "Fields q = foldl (\<lambda>m t. map_put (pname t) (part_field [] t) m) [] ts"
    using form_turns [OF assms(1) _ inv', of "[]" fo] f by (auto simp: tmp)
  then show ?thesis using p(1) a by auto
qed

section \<open>Properties\<close>


definition sample_part :: part where
  "sample_part = \<lparr>pname = ''f'', pfile = Some (''a.txt'', ''text/plain''), pcontent = ''data''\<rparr>"


text \<open>
  C32: whatever content type, limit and bytes it is given, in pieces of any sizes, the parser set up for
  uploads in memory returns: it accepts the data or throws one of its exceptions, but it neither loops
  nor uses a field that does not exist or a storage mode that was not set.
\<close>

theorem multipart_total:
  assumes "upload_parser ct n fs = Inr p"
  shows "\<exists>r. accept_all fo p ds = Some r"
proof -
  have "parser_inv p" using assms
    by (auto simp: upload_parser_def SetContentType_def SetMaxCollectedDataLength_def SetUploadedFilesStorage_def Parser_new_def
        parser_inv_def split: if_splits option.splits)
  then show ?thesis
  proof (induction ds arbitrary: p)
    case (Cons d ds)
    have "AcceptSomeData fo d p = Some (Inl ContentTypeNotSet) \<or> AcceptSomeData fo d p = Some (Inl CollectorFull) \<or>
        AcceptSomeData fo d p = ProcessData fo (more_data p d)"
      by (simp add: AcceptSomeData_def more_data_def Let_def)
    moreover have "parser_inv (more_data p d)" using Cons.prems by simp
    from ProcessData_inv [OF this, of fo] Cons.IH
    have "\<exists>r. (case ProcessData fo (more_data p d) of Some (Inr q) \<Rightarrow> accept_all fo q ds | r \<Rightarrow> r) = Some r" by fastforce
    ultimately show ?case by auto
  qed simp
qed

theorem multipart_total_witness:
  "\<exists>p r. upload_parser ''multipart/form-data; boundary=-'' 64 () = Inr p \<and>
    accept_all undefined p [''-----'', [CR, LF], ''x''] = Some r"
proof -
  obtain p where p: "upload_parser ''multipart/form-data; boundary=-'' 64 () = Inr p"
    by (simp add: upload_parser_def SetContentType_def)
  show ?thesis using multipart_total [OF p, of undefined "[''-----'', [CR, LF], ''x'']"] p by (intro exI [of _ p]) simp
qed

end
