(* ===== verification/Xhc_Json.thy ===== *)
theory Xhc_Json
  imports Xhc_Util
begin


text \<open>
  \<open>common/jsoncpp.cpp\<close>: the values of the JSON library and its compact writer, as the back end
  uses them.

  A value is its \<open>ValueType\<close> with what the union holds: a string value is a pointer to bytes
  that end at the first NUL or a null pointer, an object keeps its members in the order of
  \<open>strcmp\<close> on their names, an array its elements at indices without gaps. Comments and offsets of
  a value are left out. The type \<open>'r\<close> stands for \<open>double\<close> and \<open>rtext\<close> for its text, which the
  program never writes. An operation on a value of the wrong type throws: \<^const>\<open>None\<close>.
\<close>

section \<open>Definitions\<close>

subsection \<open>Values\<close>

datatype 'r Value =
    nullValue
  | intValue int
  | uintValue u64
  | realValue 'r
  | stringValue "string option"
  | booleanValue bool
  | arrayValue "'r Value list"
  | objectValue "(string \<times> 'r Value) list"

definition duplicateStringValue :: "string \<Rightarrow> nat \<Rightarrow> string" where
  "duplicateStringValue value len =
     (let len = len mod 2 ^ 32; len = (if 2 ^ 31 - 1 \<le> len then 2 ^ 31 - 2 else len) in c_str (take len value))"

definition Value_string :: "string \<Rightarrow> 'r Value" where
  "Value_string value = stringValue (Some (duplicateStringValue value (length value)))"

definition Value_int :: "int \<Rightarrow> 'r Value" where
  "Value_int value = intValue value"

definition Value_uint :: "u32 \<Rightarrow> 'r Value" where
  "Value_uint value = uintValue (ucast value)"

definition Value_bool :: "bool \<Rightarrow> 'r Value" where
  "Value_bool value = booleanValue value"

definition Value_size :: "'r Value \<Rightarrow> nat" where
  "Value_size v = (case v of arrayValue vs \<Rightarrow> length vs | objectValue m \<Rightarrow> length m | _ \<Rightarrow> 0)"

text \<open>\<open>(*this)[key] = value\<close>, \<open>(*this)[key]\<close> of a constant, and \<open>append\<close>.\<close>

definition Value_put :: "string \<Rightarrow> 'r Value \<Rightarrow> 'r Value \<Rightarrow> 'r Value option" where
  "Value_put key value v =
     (case v of
        nullValue \<Rightarrow> Some (objectValue [(c_str key, value)])
      | objectValue m \<Rightarrow> Some (objectValue (map_put (c_str key) value m))
      | _ \<Rightarrow> None)"

definition Value_get :: "string \<Rightarrow> 'r Value \<Rightarrow> 'r Value option" where
  "Value_get key v =
     (case v of
        nullValue \<Rightarrow> Some nullValue
      | objectValue m \<Rightarrow> Some (case map_of m (c_str key) of None \<Rightarrow> nullValue | Some w \<Rightarrow> w)
      | _ \<Rightarrow> None)"

definition Value_append :: "'r Value \<Rightarrow> 'r Value \<Rightarrow> 'r Value option" where
  "Value_append value v =
     (case v of
        nullValue \<Rightarrow> Some (arrayValue [value])
      | arrayValue vs \<Rightarrow> Some (arrayValue (vs @ [value]))
      | _ \<Rightarrow> None)"

definition getMemberNames :: "'r Value \<Rightarrow> string list option" where
  "getMemberNames v = (case v of nullValue \<Rightarrow> Some [] | objectValue m \<Rightarrow> Some (map fst m) | _ \<Rightarrow> None)"

subsection \<open>Text\<close>

definition isControlCharacter :: "char \<Rightarrow> bool" where
  "isControlCharacter ch \<longleftrightarrow> 0 < byte_val ch \<and> byte_val ch \<le> 0x1F"

definition containsControlCharacter :: "string \<Rightarrow> bool" where
  "containsControlCharacter s \<longleftrightarrow> list_ex isControlCharacter (c_str s)"

text \<open>The digits are written from the end of the buffer towards its start.\<close>

fun uintToString :: "nat \<Rightarrow> string \<Rightarrow> string" where
  "uintToString value current =
     (let current = mk_byte (48 + value mod 10) # current; value = value div 10
      in if value \<noteq> 0 then uintToString value current else current)"

declare uintToString.simps [simp del]

text \<open>The negation of the least number wraps around, as on the targets of the program.\<close>

definition valueToString_int :: "int \<Rightarrow> string" where
  "valueToString_int value =
     (let isNegative = value < 0;
          value = (if isNegative then wrap64 (- value) else value);
          current = uintToString (nat (value mod 2 ^ 64)) []
      in if isNegative then CHR ''-'' # current else current)"

definition valueToString_uint :: "u64 \<Rightarrow> string" where
  "valueToString_uint value = uintToString (unat value) []"

definition valueToString_bool :: "bool \<Rightarrow> string" where
  "valueToString_bool value = (if value then ''true'' else ''false'')"

text \<open>\<open>std::hex << std::uppercase << std::setfill('0') << std::setw(4)\<close> of a number below \<open>2^16\<close>.\<close>

definition hex_upper :: "nat \<Rightarrow> char" where
  "hex_upper n = ''0123456789ABCDEF'' ! (n mod 16)"

definition hex4 :: "nat \<Rightarrow> string" where
  "hex4 n = [hex_upper (n div 4096), hex_upper (n div 256), hex_upper (n div 16), hex_upper n]"

abbreviation QUOT :: char where "QUOT \<equiv> CHR 0x22"
abbreviation BSL :: char where "BSL \<equiv> CHR 0x5C"

definition json_escape :: "char \<Rightarrow> string" where
  "json_escape c =
     (if c = QUOT then [BSL, QUOT]
      else if c = BSL then [BSL, BSL]
      else if c = CHR 0x08 then [BSL, CHR ''b'']
      else if c = CHR 0x0C then [BSL, CHR ''f'']
      else if c = CHR 0x0A then [BSL, CHR ''n'']
      else if c = CHR 0x0D then [BSL, CHR ''r'']
      else if c = CHR 0x09 then [BSL, CHR ''t'']
      else if isControlCharacter c then [BSL, CHR ''u''] @ hex4 (byte_val c)
      else [c])"

definition strpbrk_special :: "string \<Rightarrow> bool" where
  "strpbrk_special s \<longleftrightarrow>
     list_ex (\<lambda>c. c \<in> {QUOT, BSL, CHR 0x08, CHR 0x0C, CHR 0x0A, CHR 0x0D, CHR 0x09}) (c_str s)"

definition valueToQuotedString :: "string option \<Rightarrow> string" where
  "valueToQuotedString value =
     (case value of
        None \<Rightarrow> []
      | Some s \<Rightarrow>
          if \<not> strpbrk_special s \<and> \<not> containsControlCharacter s then [QUOT] @ c_str s @ [QUOT]
          else [QUOT] @ concat (map json_escape (c_str s)) @ [QUOT])"

subsection \<open>The compact writer\<close>

record FastWriter =
  yamlCompatiblityEnabled :: bool
  dropNullPlaceholders :: bool

definition FastWriter_new :: FastWriter where
  "FastWriter_new = \<lparr>yamlCompatiblityEnabled = False, dropNullPlaceholders = False\<rparr>"

fun commas :: "string list \<Rightarrow> string" where
  "commas [] = []"
| "commas [x] = x"
| "commas (x # y # xs) = x @ '','' @ commas (y # xs)"

fun writeValue :: "FastWriter \<Rightarrow> ('r \<Rightarrow> string) \<Rightarrow> 'r Value \<Rightarrow> string" where
  "writeValue w rtext nullValue = (if dropNullPlaceholders w then [] else ''null'')"
| "writeValue w rtext (intValue i) = valueToString_int i"
| "writeValue w rtext (uintValue u) = valueToString_uint u"
| "writeValue w rtext (realValue r) = rtext r"
| "writeValue w rtext (stringValue s) = valueToQuotedString s"
| "writeValue w rtext (booleanValue b) = valueToString_bool b"
| "writeValue w rtext (arrayValue vs) = ''['' @ commas (map (writeValue w rtext) vs) @ '']''"
| "writeValue w rtext (objectValue m) =
     ''{'' @ commas (map (\<lambda>(name, v). valueToQuotedString (Some name) @
       (if yamlCompatiblityEnabled w then '': '' else '':'') @ writeValue w rtext v) m) @ ''}''"

definition FastWriter_write :: "FastWriter \<Rightarrow> ('r \<Rightarrow> string) \<Rightarrow> 'r Value \<Rightarrow> string" where
  "FastWriter_write w rtext root = writeValue w rtext root @ [LF]"

section \<open>Lemmas\<close>

lemma uintToString_eq: "uintToString n cur = dec_nat n @ cur"
proof (induction n cur rule: uintToString.induct)
  case (1 n cur)
  then show ?case by (subst uintToString.simps, subst dec_nat.simps) (auto simp: Let_def)
qed

lemma valueToString_uint_eq: "valueToString_uint u = dec_nat (unat u)"
  by (simp add: valueToString_uint_def uintToString_eq)

lemma valueToString_int_eq: "is_int64 i \<Longrightarrow> valueToString_int i = dec_int i"
proof -
  assume i: "is_int64 i"
  have "wrap64 (- i) mod 2 ^ 64 = - i" if "i < 0"
  proof (cases "i = - (2 ^ 63)")
    case False
    then have "is_int64 (- i)" using i that by (auto simp: is_int64_def INT64_MIN_def INT64_MAX_def)
    then show ?thesis using that by (simp add: wrap64_id is_int64_def INT64_MAX_def)
  qed (simp add: wrap64_def)
  then show ?thesis using i by (simp add: valueToString_int_def dec_int_def uintToString_eq is_int64_def INT64_MAX_def)
qed

text \<open>The special case of the writer is the general one on text that needs no escape.\<close>

lemma valueToQuotedString_eq: "valueToQuotedString (Some s) = [QUOT] @ concat (map json_escape (c_str s)) @ [QUOT]"
proof -
  have "concat (map json_escape t) = t" if "\<forall>c \<in> set t. json_escape c = [c]" for t
    using that by (induction t) auto
  then show ?thesis
    by (auto simp: valueToQuotedString_def strpbrk_special_def containsControlCharacter_def list_ex_iff json_escape_def)
qed

end
