(* ===== verification/Xhc_JsonReader.thy ===== *)
theory Xhc_JsonReader
  imports Xhc_Json
begin


text \<open>
  \<open>common/jsoncpp.cpp\<close>: the JSON reader, for documents given as a \<open>std::string\<close> and without
  the collection of comments (\<open>collectComments\<close> false; comments are still skipped).

  A location in the document is the rest of the document from there, so \<open>end_\<close> is the empty
  string, and the byte the reader may look at there is the NUL that ends a \<open>std::string\<close>. An
  entry of the error list is a token and a message. \<open>sscanf_lf\<close> reads a \<open>double\<close>. The functions
  that call each other count down a bound on their nesting; \<open>parse\<close> starts with one that is enough.
\<close>

section \<open>Definitions\<close>

subsection \<open>Tokens\<close>

type_synonym Location = string

datatype TokenType = tokenEndOfStream | tokenObjectBegin | tokenObjectEnd | tokenArrayBegin | tokenArrayEnd
  | tokenString | tokenNumber | tokenTrue | tokenFalse | tokenNull | tokenArraySeparator
  | tokenMemberSeparator | tokenComment | tokenError

record Token =
  tok_type :: TokenType
  tok_start :: Location
  tok_end :: Location

definition token_text :: "Token \<Rightarrow> string" where
  "token_text t = take (length (tok_start t) - length (tok_end t)) (tok_start t)"

definition getNextChar :: "Location \<Rightarrow> char \<times> Location" where
  "getNextChar current = (case current of [] \<Rightarrow> (NUL, []) | c # cs \<Rightarrow> (c, cs))"

definition skipSpaces :: "Location \<Rightarrow> Location" where
  "skipSpaces current = dropWhile (\<lambda>c. c \<in> {CHR '' '', CHR 0x09, CR, LF}) current"

definition match_chars :: "string \<Rightarrow> Location \<Rightarrow> bool \<times> Location" where
  "match_chars pat current = (if take (length pat) current = pat then (True, drop (length pat) current) else (False, current))"

fun readCStyleComment_loop :: "Location \<Rightarrow> Location" where
  "readCStyleComment_loop [] = []"
| "readCStyleComment_loop (c # cs) =
     (if c = CHR ''*'' \<and> take 1 cs = ''/'' then cs else readCStyleComment_loop cs)"

definition readCStyleComment :: "Location \<Rightarrow> bool \<times> Location" where
  "readCStyleComment current = (let (c, current) = getNextChar (readCStyleComment_loop current) in (c = CHR ''/'', current))"

fun readCppStyleComment :: "Location \<Rightarrow> Location" where
  "readCppStyleComment [] = []"
| "readCppStyleComment (c # cs) = (if c = CR \<or> c = LF then cs else readCppStyleComment cs)"

definition readComment :: "Location \<Rightarrow> bool \<times> Location" where
  "readComment current =
     (let (c, current) = getNextChar current
      in if c = CHR ''*'' then readCStyleComment current
         else if c = CHR ''/'' then (True, readCppStyleComment current)
         else (False, current))"

definition number_char :: "char \<Rightarrow> bool" where
  "number_char c \<longleftrightarrow> isdigit c \<or> c \<in> {CHR ''.'', CHR ''e'', CHR ''E'', CHR ''+'', CHR ''-''}"

definition readNumber :: "Location \<Rightarrow> Location" where
  "readNumber current = dropWhile number_char current"

fun readString :: "Location \<Rightarrow> bool \<times> Location" where
  "readString [] = (False, [])"
| "readString (c # cs) =
     (if c = BSL then readString (drop 1 cs)
      else if c = QUOT then (True, cs)
      else readString cs)"

definition readToken :: "Location \<Rightarrow> Token \<times> Location" where
  "readToken current =
     (let current = skipSpaces current;
          start = current;
          (c, current) = getNextChar current;
          (type, ok, current) =
            (if c = CHR ''{'' then (tokenObjectBegin, True, current)
             else if c = CHR ''}'' then (tokenObjectEnd, True, current)
             else if c = CHR ''['' then (tokenArrayBegin, True, current)
             else if c = CHR '']'' then (tokenArrayEnd, True, current)
             else if c = QUOT then (tokenString, readString current)
             else if c = CHR ''/'' then (tokenComment, readComment current)
             else if isdigit c \<or> c = CHR ''-'' then (tokenNumber, True, readNumber current)
             else if c = CHR ''t'' then (tokenTrue, match_chars ''rue'' current)
             else if c = CHR ''f'' then (tokenFalse, match_chars ''alse'' current)
             else if c = CHR ''n'' then (tokenNull, match_chars ''ull'' current)
             else if c = CHR '','' then (tokenArraySeparator, True, current)
             else if c = CHR '':'' then (tokenMemberSeparator, True, current)
             else if c = NUL then (tokenEndOfStream, True, current)
             else (tokenError, False, current))
      in (\<lparr>tok_type = (if ok then type else tokenError), tok_start = start, tok_end = current\<rparr>, current))"

text \<open>A token that is not the end takes at least one byte.\<close>

lemma length_skipSpaces: "length (skipSpaces s) \<le> length s"
  by (simp add: skipSpaces_def length_dropWhile_le)

lemma length_readCStyle: "length (readCStyleComment_loop s) \<le> length s"
  by (induction s rule: readCStyleComment_loop.induct) auto

lemma length_readCpp: "length (readCppStyleComment s) \<le> length s"
  by (induction s rule: readCppStyleComment.induct) auto

lemma length_readString: "length (snd (readString s)) \<le> length s"
  by (induction s rule: readString.induct) auto

lemma length_getNextChar: "length (snd (getNextChar s)) \<le> length s"
  by (cases s) (simp_all add: getNextChar_def)

lemma length_readComment: "length (snd (readComment s)) \<le> length s"
  using length_getNextChar [of s] length_readCpp [of "snd (getNextChar s)"]
    length_readCStyle [of "snd (getNextChar s)"] length_getNextChar [of "readCStyleComment_loop (snd (getNextChar s))"]
  by (auto simp: readComment_def readCStyleComment_def Let_def split: prod.splits)

lemma length_match: "length (snd (match_chars p s)) \<le> length s"
  by (simp add: match_chars_def)

lemma readToken_shorter:
  assumes "readToken s = (t, s')"
  shows "length s' \<le> length s" "tok_type t \<noteq> tokenEndOfStream \<Longrightarrow> length s' < length s" "tok_end t = s'" "length (tok_start t) \<le> length s"
proof -
  let ?s = "skipSpaces s"
  have le: "length ?s \<le> length s" by (rule length_skipSpaces)
  show "tok_end t = s'" "length (tok_start t) \<le> length s" using assms le by (auto simp: readToken_def Let_def split: prod.splits)
  have "length s' \<le> length (snd (getNextChar ?s))"
    using assms length_readString [of "snd (getNextChar ?s)"] length_readComment [of "snd (getNextChar ?s)"]
      length_match [of "''rue''" "snd (getNextChar ?s)"] length_match [of "''alse''" "snd (getNextChar ?s)"]
      length_match [of "''ull''" "snd (getNextChar ?s)"] length_dropWhile_le [of number_char "snd (getNextChar ?s)"]
    by (auto simp: readToken_def Let_def readNumber_def split: prod.splits if_splits)
  then show "length s' \<le> length s" using length_getNextChar [of ?s] le by linarith
  show "length s' < length s" if "tok_type t \<noteq> tokenEndOfStream"
  proof (cases ?s)
    case Nil
    have "\<not> isdigit NUL" using isdigit_not_NUL [of NUL] by blast
    then show ?thesis using assms that Nil by (auto simp: readToken_def getNextChar_def)
  next
    case (Cons c cs)
    then show ?thesis using \<open>length s' \<le> length (snd (getNextChar ?s))\<close> le by (simp add: getNextChar_def)
  qed
qed

text \<open>\<open>readToken\<close> until the token is not a comment.\<close>

function skip_comments :: "Location \<Rightarrow> Token \<times> Location" where
  "skip_comments cur =
     (let (t, cur') = readToken cur in if tok_type t = tokenComment then skip_comments cur' else (t, cur'))"
  by pat_completeness auto
termination by (relation "measure length") (auto dest: readToken_shorter(2) [OF sym])

declare skip_comments.simps [simp del]

definition skipCommentTokens :: "bool \<Rightarrow> Location \<Rightarrow> Token \<times> Location" where
  "skipCommentTokens allowComments cur = (if allowComments then skip_comments cur else readToken cur)"

subsection \<open>Numbers and strings\<close>

text \<open>A failed conversion is its message.\<close>

abbreviation APOS :: "string \<Rightarrow> string" where "APOS s \<equiv> [CHR 0x27] @ s @ [CHR 0x27]"

definition not_a_number :: "string \<Rightarrow> string" where
  "not_a_number text = APOS text @ '' is not a number.''"

definition decodeDouble :: "(string \<Rightarrow> 'r option) \<Rightarrow> string \<Rightarrow> string + 'r Value" where
  "decodeDouble sscanf_lf text =
     (case sscanf_lf text of None \<Rightarrow> Inl (not_a_number text) | Some r \<Rightarrow> Inr (realValue r))"

fun decode_digits :: "(string \<Rightarrow> 'r option) \<Rightarrow> string \<Rightarrow> bool \<Rightarrow> nat \<Rightarrow> string \<Rightarrow> nat \<Rightarrow> string + 'r Value" where
  "decode_digits sscanf_lf text isNegative maxv [] value =
     Inr (if isNegative then intValue (wrap64 (- wrap64 (int value)))
          else if value \<le> 2 ^ 31 - 1 then intValue (int value)
          else uintValue (of_nat value))"
| "decode_digits sscanf_lf text isNegative maxv (c # cs) value =
     (if \<not> isdigit c then Inl (not_a_number text)
      else let digit = byte_val c - 48; threshold = maxv div 10
           in if threshold \<le> value \<and> (threshold < value \<or> cs \<noteq> [] \<or> maxv mod 10 < digit) then decodeDouble sscanf_lf text
              else decode_digits sscanf_lf text isNegative maxv cs (value * 10 + digit))"

text \<open>The negation of the least number in \<open>maxIntegerValue\<close> wraps around.\<close>

definition decodeNumber :: "(string \<Rightarrow> 'r option) \<Rightarrow> Token \<Rightarrow> string + 'r Value" where
  "decodeNumber sscanf_lf token =
     (let text = token_text token;
          isDouble = (list_ex (\<lambda>c. c \<in> {CHR ''.'', CHR ''e'', CHR ''E'', CHR ''+''}) text \<or> CHR ''-'' \<in> set (drop 1 text))
      in if isDouble then decodeDouble sscanf_lf text
         else let isNegative = (take 1 text = ''-'')
              in decode_digits sscanf_lf text isNegative (if isNegative then 2 ^ 63 else 2 ^ 64 - 1)
                   (if isNegative then drop 1 text else text) 0)"

definition hex_value :: "char \<Rightarrow> nat option" where
  "hex_value c =
     (if isdigit c then Some (byte_val c - 48)
      else if 97 \<le> byte_val c \<and> byte_val c \<le> 102 then Some (byte_val c - 97 + 10)
      else if 65 \<le> byte_val c \<and> byte_val c \<le> 70 then Some (byte_val c - 65 + 10)
      else None)"

fun hex_number :: "string \<Rightarrow> nat \<Rightarrow> nat option" where
  "hex_number [] unicode = Some unicode"
| "hex_number (c # cs) unicode = (case hex_value c of None \<Rightarrow> None | Some d \<Rightarrow> hex_number cs (unicode * 16 + d))"

definition decodeUnicodeEscapeSequence :: "string \<Rightarrow> string + nat \<times> string" where
  "decodeUnicodeEscapeSequence cur =
     (if length cur < 4 then Inl ''Bad unicode escape sequence in string: four digits expected.''
      else case hex_number (take 4 cur) 0 of
        None \<Rightarrow> Inl ''Bad unicode escape sequence in string: hexadecimal digit expected.''
      | Some unicode \<Rightarrow> Inr (unicode, drop 4 cur))"

definition decodeUnicodeCodePoint :: "string \<Rightarrow> string + nat \<times> string" where
  "decodeUnicodeCodePoint cur =
     (case decodeUnicodeEscapeSequence cur of
        Inl e \<Rightarrow> Inl e
      | Inr (unicode, cur) \<Rightarrow>
          if 0xD800 \<le> unicode \<and> unicode \<le> 0xDBFF then
            if length cur < 6 then Inl ''additional six characters expected to parse unicode surrogate pair.''
            else if take 2 cur = [BSL, CHR ''u''] then
              (case decodeUnicodeEscapeSequence (drop 2 cur) of
                 Inl e \<Rightarrow> Inl e
               | Inr (surrogatePair, cur) \<Rightarrow>
                   Inr (0x10000 + unicode mod 0x400 * 0x400 + surrogatePair mod 0x400, cur))
            else Inl (''expecting another '' @ [BSL] @ ''u token to begin the second half of a unicode surrogate pair'')
          else Inr (unicode, cur))"

definition codePointToUTF8 :: "nat \<Rightarrow> string" where
  "codePointToUTF8 cp =
     (if cp \<le> 0x7f then [mk_byte cp]
      else if cp \<le> 0x7FF then [mk_byte (0xC0 + cp div 0x40 mod 0x20), mk_byte (0x80 + cp mod 0x40)]
      else if cp \<le> 0xFFFF then [mk_byte (0xE0 + cp div 0x1000 mod 0x10), mk_byte (0x80 + cp div 0x40 mod 0x40), mk_byte (0x80 + cp mod 0x40)]
      else if cp \<le> 0x10FFFF then
        [mk_byte (0xF0 + cp div 0x40000 mod 8), mk_byte (0x80 + cp div 0x1000 mod 0x40), mk_byte (0x80 + cp div 0x40 mod 0x40),
         mk_byte (0x80 + cp mod 0x40)]
      else [])"

lemma length_decodeUnicode: "decodeUnicodeCodePoint cur = Inr (u, cur') \<Longrightarrow> length cur' < length cur"
  by (auto simp: decodeUnicodeCodePoint_def decodeUnicodeEscapeSequence_def split: sum.splits prod.splits if_splits option.splits)

function decodeString_loop :: "string \<Rightarrow> string \<Rightarrow> string + string" where
  "decodeString_loop [] decoded = Inr decoded"
| "decodeString_loop (c # cur) decoded =
     (if c = QUOT then Inr decoded
      else if c = BSL then
        (case cur of
           [] \<Rightarrow> Inl ''Empty escape sequence in string''
         | escape # cur' \<Rightarrow>
             if escape = QUOT \<or> escape = CHR ''/'' \<or> escape = BSL then decodeString_loop cur' (decoded @ [escape])
             else if escape = CHR ''b'' then decodeString_loop cur' (decoded @ [CHR 0x08])
             else if escape = CHR ''f'' then decodeString_loop cur' (decoded @ [CHR 0x0C])
             else if escape = CHR ''n'' then decodeString_loop cur' (decoded @ [CHR 0x0A])
             else if escape = CHR ''r'' then decodeString_loop cur' (decoded @ [CHR 0x0D])
             else if escape = CHR ''t'' then decodeString_loop cur' (decoded @ [CHR 0x09])
             else if escape = CHR ''u'' then
               (case decodeUnicodeCodePoint cur' of
                  Inl e \<Rightarrow> Inl e
                | Inr (unicode, cur'') \<Rightarrow> decodeString_loop cur'' (decoded @ codePointToUTF8 unicode))
             else Inl ''Bad escape sequence in string'')
      else decodeString_loop cur (decoded @ [c]))"
  by pat_completeness auto
termination by (relation "measure (\<lambda>(cur, decoded). length cur)") (auto dest: length_decodeUnicode)

definition decodeString :: "Token \<Rightarrow> string + string" where
  "decodeString token = decodeString_loop (butlast (drop 1 (token_text token))) []"

subsection \<open>The reader\<close>

record Features =
  allowComments :: bool
  strictRoot :: bool
  allowDroppedNullPlaceholders :: bool
  allowNumericKeys :: bool

definition Features_all :: Features where
  "Features_all = \<lparr>allowComments = True, strictRoot = False, allowDroppedNullPlaceholders = False, allowNumericKeys = False\<rparr>"

definition Features_strictMode :: Features where
  "Features_strictMode = \<lparr>allowComments = False, strictRoot = True, allowDroppedNullPlaceholders = False, allowNumericKeys = False\<rparr>"

record Reader =
  features :: Features
  errors :: "(Token \<times> string) list"
  current :: Location

definition Reader_new :: "Features \<Rightarrow> Reader" where
  "Reader_new f = \<lparr>features = f, errors = [], current = []\<rparr>"

definition addError :: "string \<Rightarrow> Token \<Rightarrow> Reader \<Rightarrow> Reader" where
  "addError message token r = r\<lparr>errors := errors r @ [(token, message)]\<rparr>"

text \<open>No token read here adds an error, so the list keeps its length.\<close>

function recover_skip :: "TokenType \<Rightarrow> Location \<Rightarrow> Location" where
  "recover_skip skipUntilToken cur =
     (let (skip, cur') = readToken cur
      in if tok_type skip = skipUntilToken \<or> tok_type skip = tokenEndOfStream then cur' else recover_skip skipUntilToken cur')"
  by pat_completeness auto
termination by (relation "measure (\<lambda>(u, cur). length cur)") (auto dest: readToken_shorter(2) [OF sym])

declare recover_skip.simps [simp del]

definition recoverFromError :: "TokenType \<Rightarrow> Reader \<Rightarrow> Reader" where
  "recoverFromError skipUntilToken r = r\<lparr>current := recover_skip skipUntilToken (current r)\<rparr>"

definition addErrorAndRecover :: "string \<Rightarrow> Token \<Rightarrow> TokenType \<Rightarrow> Reader \<Rightarrow> Reader" where
  "addErrorAndRecover message token skipUntilToken r = recoverFromError skipUntilToken (addError message token r)"

definition Value_asString :: "('r \<Rightarrow> string) \<Rightarrow> 'r Value \<Rightarrow> string option" where
  "Value_asString rtext v =
     (case v of
        nullValue \<Rightarrow> Some []
      | stringValue s \<Rightarrow> Some (case s of None \<Rightarrow> [] | Some t \<Rightarrow> t)
      | booleanValue b \<Rightarrow> Some (if b then ''true'' else ''false'')
      | intValue i \<Rightarrow> Some (valueToString_int i)
      | uintValue u \<Rightarrow> Some (valueToString_uint u)
      | realValue r \<Rightarrow> Some (rtext r)
      | _ \<Rightarrow> None)"

text \<open>A number, a string or a word as the current value: \<open>v\<close> is what it was before.\<close>

definition decoded_value :: "Token \<Rightarrow> string + 'r Value \<Rightarrow> 'r Value \<Rightarrow> Reader \<Rightarrow> bool \<times> 'r Value \<times> Reader" where
  "decoded_value token d v r = (case d of Inl message \<Rightarrow> (False, v, addError message token r) | Inr w \<Rightarrow> (True, w, r))"

definition decodeString_value :: "Token \<Rightarrow> string + 'r Value" where
  "decodeString_value token = (case decodeString token of Inl e \<Rightarrow> Inl e | Inr s \<Rightarrow> Inr (Value_string s))"

text \<open>
  The members of an object read so far are \<open>m\<close> and \<open>name\<close> is the last name. A failed read leaves
  what was read in the value. After a comment behind a member any token passes for the comma.
\<close>

type_synonym 'r read_result = "(bool \<times> 'r Value \<times> Reader) option"

definition readValue_body :: "(string \<Rightarrow> 'r option) \<Rightarrow> (Reader \<Rightarrow> 'r read_result) \<Rightarrow> (Reader \<Rightarrow> 'r read_result) \<Rightarrow>
    'r Value \<Rightarrow> Reader \<Rightarrow> 'r read_result" where
  "readValue_body sc obj arr v r =
     (let (token, cur) = skipCommentTokens (allowComments (features r)) (current r);
          r = r\<lparr>current := cur\<rparr>
      in case tok_type token of
           tokenObjectBegin \<Rightarrow> obj r
         | tokenArrayBegin \<Rightarrow>
             (let r = r\<lparr>current := skipSpaces (current r)\<rparr>
              in if take 1 (current r) = '']'' then Some (True, arrayValue [], r\<lparr>current := snd (readToken (current r))\<rparr>)
                 else arr r)
         | tokenNumber \<Rightarrow> Some (decoded_value token (decodeNumber sc token) v r)
         | tokenString \<Rightarrow> Some (decoded_value token (decodeString_value token) v r)
         | tokenTrue \<Rightarrow> Some (True, booleanValue True, r)
         | tokenFalse \<Rightarrow> Some (True, booleanValue False, r)
         | tokenNull \<Rightarrow> Some (True, nullValue, r)
         | _ \<Rightarrow>
             if tok_type token = tokenArraySeparator \<and> allowDroppedNullPlaceholders (features r)
             then Some (True, nullValue, r\<lparr>current := tok_start token\<rparr>)
             else Some (False, v, addError ''Syntax error: value, object or array expected.'' token r))"

definition readObject_body :: "(string \<Rightarrow> 'r option) \<Rightarrow> ('r \<Rightarrow> string) \<Rightarrow> (string \<Rightarrow> Reader \<Rightarrow> 'r read_result) \<Rightarrow>
    string \<Rightarrow> (string \<times> 'r Value) list \<Rightarrow> Reader \<Rightarrow> 'r read_result" where
  "readObject_body sc rt mem name m r =
     (let (tokenName, cur) = skip_comments (current r);
          r = r\<lparr>current := cur\<rparr>
      in if tok_type tokenName = tokenObjectEnd \<and> name = [] then Some (True, objectValue m, r)
         else if tok_type tokenName = tokenString then
           (case decodeString tokenName of
              Inl e \<Rightarrow> Some (False, objectValue m, recoverFromError tokenObjectEnd (addError e tokenName r))
            | Inr name \<Rightarrow> mem name r)
         else if tok_type tokenName = tokenNumber \<and> allowNumericKeys (features r) then
           (case decodeNumber sc tokenName of
              Inl e \<Rightarrow> Some (False, objectValue m, recoverFromError tokenObjectEnd (addError e tokenName r))
            | Inr numberName \<Rightarrow>
                (case Value_asString rt numberName of None \<Rightarrow> None | Some name \<Rightarrow> mem name r))
         else Some (False, objectValue m, addErrorAndRecover (''Missing '' @ APOS ''}'' @ '' or object member name'') tokenName tokenObjectEnd r))"

definition readMember_body :: "('r Value \<Rightarrow> Reader \<Rightarrow> 'r read_result) \<Rightarrow> ((string \<times> 'r Value) list \<Rightarrow> Reader \<Rightarrow> 'r read_result) \<Rightarrow>
    string \<Rightarrow> (string \<times> 'r Value) list \<Rightarrow> Reader \<Rightarrow> 'r read_result" where
  "readMember_body val obj name m r =
     (let (colon, cur) = readToken (current r);
          r = r\<lparr>current := cur\<rparr>
      in if tok_type colon \<noteq> tokenMemberSeparator
         then Some (False, objectValue m, addErrorAndRecover (''Missing '' @ APOS '':'' @ '' after object member name'') colon tokenObjectEnd r)
         else let key = c_str name; old = (case map_of m key of None \<Rightarrow> nullValue | Some w \<Rightarrow> w)
              in case val old r of
                   None \<Rightarrow> None
                 | Some (ok, v, r) \<Rightarrow>
                     let m = map_put key v m
                     in if \<not> ok then Some (False, objectValue m, recoverFromError tokenObjectEnd r)
                        else let (comma, cur) = readToken (current r)
                             in if tok_type comma \<notin> {tokenObjectEnd, tokenArraySeparator, tokenComment}
                                then Some (False, objectValue m, addErrorAndRecover (''Missing '' @ APOS '','' @ '' or '' @ APOS ''}'' @ '' in object declaration'') comma
                                       tokenObjectEnd (r\<lparr>current := cur\<rparr>))
                                else let (comma, cur) = (if tok_type comma = tokenComment then skip_comments cur else (comma, cur));
                                         r = r\<lparr>current := cur\<rparr>
                                     in if tok_type comma = tokenObjectEnd then Some (True, objectValue m, r)
                                        else obj m r)"

definition readArray_body :: "(Reader \<Rightarrow> 'r read_result) \<Rightarrow> ('r Value list \<Rightarrow> Reader \<Rightarrow> 'r read_result) \<Rightarrow>
    'r Value list \<Rightarrow> Reader \<Rightarrow> 'r read_result" where
  "readArray_body val arr vs r =
     (case val r of
        None \<Rightarrow> None
      | Some (ok, v, r) \<Rightarrow>
          let vs = vs @ [v]
          in if \<not> ok then Some (False, arrayValue vs, recoverFromError tokenArrayEnd r)
             else let (token, cur) = skip_comments (current r);
                      r = r\<lparr>current := cur\<rparr>
                  in if tok_type token \<noteq> tokenArraySeparator \<and> tok_type token \<noteq> tokenArrayEnd
                     then Some (False, arrayValue vs, addErrorAndRecover (''Missing '' @ APOS '','' @ '' or '' @ APOS '']'' @ '' in array declaration'') token tokenArrayEnd r)
                     else if tok_type token = tokenArrayEnd then Some (True, arrayValue vs, r)
                     else arr vs r)"

function (sequential) readValue :: "(string \<Rightarrow> 'r option) \<Rightarrow> ('r \<Rightarrow> string) \<Rightarrow> nat \<Rightarrow> 'r Value \<Rightarrow> Reader \<Rightarrow> 'r read_result"
  and readObject :: "(string \<Rightarrow> 'r option) \<Rightarrow> ('r \<Rightarrow> string) \<Rightarrow> nat \<Rightarrow> string \<Rightarrow> (string \<times> 'r Value) list \<Rightarrow> Reader \<Rightarrow> 'r read_result"
  and readMember :: "(string \<Rightarrow> 'r option) \<Rightarrow> ('r \<Rightarrow> string) \<Rightarrow> nat \<Rightarrow> string \<Rightarrow> (string \<times> 'r Value) list \<Rightarrow> Reader \<Rightarrow> 'r read_result"
  and readArray_loop :: "(string \<Rightarrow> 'r option) \<Rightarrow> ('r \<Rightarrow> string) \<Rightarrow> nat \<Rightarrow> 'r Value list \<Rightarrow> Reader \<Rightarrow> 'r read_result" where
  "readValue sc rt 0 v r = None"
| "readValue sc rt (Suc n) v r = readValue_body sc (readObject sc rt n [] []) (readArray_loop sc rt n []) v r"
| "readObject sc rt 0 name m r = None"
| "readObject sc rt (Suc n) name m r = readObject_body sc rt (\<lambda>name. readMember sc rt n name m) name m r"
| "readMember sc rt 0 name m r = None"
| "readMember sc rt (Suc n) name m r = readMember_body (readValue sc rt n) (readObject sc rt n name) name m r"
| "readArray_loop sc rt 0 vs r = None"
| "readArray_loop sc rt (Suc n) vs r = readArray_body (readValue sc rt n nullValue) (readArray_loop sc rt n) vs r"
  by pat_completeness auto
termination
  by (relation "measure (\<lambda>x. case x of Inl (Inl (sc, rt, n, _)) \<Rightarrow> n | Inl (Inr (sc, rt, n, _)) \<Rightarrow> n
    | Inr (Inl (sc, rt, n, _)) \<Rightarrow> n | Inr (Inr (sc, rt, n, _)) \<Rightarrow> n)") simp_all

text \<open>\<open>parse\<close> into \<open>root\<close>; what follows the value is not looked at beyond its first token.\<close>

definition Reader_parse :: "(string \<Rightarrow> 'r option) \<Rightarrow> ('r \<Rightarrow> string) \<Rightarrow> string \<Rightarrow> 'r Value \<Rightarrow> Reader \<Rightarrow> (bool \<times> 'r Value \<times> Reader) option" where
  "Reader_parse sc rt document root r =
     (case readValue sc rt (2 * length document + 1) root (r\<lparr>errors := [], current := document\<rparr>) of
        None \<Rightarrow> None
      | Some (successful, root, r) \<Rightarrow>
          let (token, cur) = skipCommentTokens (allowComments (features r)) (current r);
              r = r\<lparr>current := cur\<rparr>
          in if strictRoot (features r) \<and> \<not> (case root of arrayValue _ \<Rightarrow> True | objectValue _ \<Rightarrow> True | _ \<Rightarrow> False)
             then Some (False, root, addError ''A valid JSON document must be either an array or an object value.''
                    \<lparr>tok_type = tokenError, tok_start = document, tok_end = []\<rparr> r)
             else Some (successful, root, r))"

section \<open>Lemmas\<close>

subsection \<open>Termination and well-formed values\<close>

text \<open>
  Strings and names end at their first NUL, numbers are 64 bits wide, and the members of an object
  are in the order of their names, each name once.
\<close>

fun Value_wf :: "'r Value \<Rightarrow> bool" where
  "Value_wf (intValue i) = is_int64 i"
| "Value_wf (stringValue s) = (case s of None \<Rightarrow> True | Some t \<Rightarrow> NUL \<notin> set t)"
| "Value_wf (arrayValue vs) = list_all Value_wf vs"
| "Value_wf (objectValue m) = (list_all (\<lambda>(name, v). NUL \<notin> set name \<and> Value_wf v) m \<and> sorted_wrt (<) (map fst m))"
| "Value_wf v = True"

lemma skip_comments_shorter:
  "skip_comments s = (t, s') \<Longrightarrow> length s' \<le> length s \<and> length (tok_start t) \<le> length s \<and> tok_type t \<noteq> tokenComment \<and>
     (tok_type t \<noteq> tokenEndOfStream \<longrightarrow> length s' < length s)"
proof (induction s rule: skip_comments.induct)
  case (1 s)
  obtain u s1 where u: "readToken s = (u, s1)" by fastforce
  show ?case
  proof (cases "tok_type u = tokenComment")
    case True
    with 1 u have "length s' \<le> length s1 \<and> length (tok_start t) \<le> length s1 \<and> tok_type t \<noteq> tokenComment \<and>
        (tok_type t \<noteq> tokenEndOfStream \<longrightarrow> length s' < length s1)"
      by (simp add: skip_comments.simps [of s])
    then show ?thesis using readToken_shorter(1) [OF u] by linarith
  next
    case False
    then have "t = u" "s' = s1" using "1.prems" u by (simp_all add: skip_comments.simps [of s])
    then show ?thesis using readToken_shorter [OF u] False by simp
  qed
qed

lemma skipCommentTokens_shorter:
  "skipCommentTokens a s = (t, s') \<Longrightarrow> length s' \<le> length s \<and> length (tok_start t) \<le> length s \<and>
     (tok_type t \<noteq> tokenEndOfStream \<longrightarrow> length s' < length s)"
  using skip_comments_shorter [of s t s'] readToken_shorter [of s t s'] by (auto simp: skipCommentTokens_def split: if_splits)

lemma recover_skip_shorter: "length (recover_skip u s) \<le> length s"
proof (induction u s rule: recover_skip.induct)
  case (1 u s)
  obtain t s' where t: "readToken s = (t, s')" by fastforce
  have "length s' \<le> length s" by (rule readToken_shorter(1) [OF t])
  then show ?case using 1 t by (subst recover_skip.simps) (auto intro: le_trans)
qed

lemma c_str_NUL: "NUL \<notin> set (c_str s)"
  by (auto simp: c_str_def dest: set_takeWhileD)

lemma Value_wf_string: "Value_wf (Value_string s)"
  by (simp add: Value_string_def duplicateStringValue_def c_str_NUL Let_def)

lemma is_int64_small: "n \<le> 2147483647 \<Longrightarrow> is_int64 (int n)"
  by (simp add: is_int64_def INT64_MIN_def INT64_MAX_def)

lemma Value_wf_digits: "decode_digits sc text neg maxv ds n = Inr v \<Longrightarrow> Value_wf v"
  by (induction ds arbitrary: n) (auto simp: decodeDouble_def Let_def is_int64_small split: if_splits option.splits)

lemma Value_wf_number: "decodeNumber sc t = Inr v \<Longrightarrow> Value_wf v"
  by (auto simp: decodeNumber_def decodeDouble_def Let_def split: if_splits option.splits dest: Value_wf_digits)

lemma number_text: "decodeNumber sc t = Inr v \<Longrightarrow> \<exists>s. Value_asString rt v = Some s"
proof -
  have digits: "decode_digits sc tx neg maxv ds n = Inr v \<Longrightarrow> \<exists>s. Value_asString rt v = Some s" for tx neg maxv ds n
    by (induction ds arbitrary: n) (auto simp: decodeDouble_def Let_def Value_asString_def split: if_splits option.splits)
  show "decodeNumber sc t = Inr v \<Longrightarrow> \<exists>s. Value_asString rt v = Some s"
    by (auto simp: decodeNumber_def decodeDouble_def Let_def Value_asString_def split: if_splits option.splits dest: digits)
qed

lemma Value_wf_put: "Value_wf (objectValue m) \<Longrightarrow> Value_wf v \<Longrightarrow> Value_wf (objectValue (map_put (c_str k) v m))"
proof -
  assume m: "Value_wf (objectValue m)" "Value_wf v"
  have "set (map_put (c_str k) v m) \<subseteq> insert (c_str k, v) (set m)" by (induction m) auto
  then show ?thesis using m c_str_NUL [of k] by (fastforce simp: list_all_iff sorted_map_put)
qed

text \<open>
  What every read returns: a result, at a location not before the first, with a well-formed value,
  and a new entry in the list of errors exactly when it fails.
\<close>

definition read_ok :: "Reader \<Rightarrow> 'r read_result \<Rightarrow> bool" where
  "read_ok r0 res \<longleftrightarrow> (\<exists>ok v r. res = Some (ok, v, r) \<and> length (current r) \<le> length (current r0) \<and> Value_wf v \<and>
     (ok \<longrightarrow> errors r = errors r0) \<and> (\<not> ok \<longrightarrow> length (errors r0) < length (errors r)))"

lemma read_okI:
  "length (current r) \<le> length (current r0) \<Longrightarrow> Value_wf v \<Longrightarrow>
    (ok \<Longrightarrow> errors r = errors r0) \<Longrightarrow> (\<not> ok \<Longrightarrow> length (errors r0) < length (errors r)) \<Longrightarrow> read_ok r0 (Some (ok, v, r))"
  by (simp add: read_ok_def)

lemma read_ok_mono: "read_ok r1 res \<Longrightarrow> length (current r1) \<le> length (current r0) \<Longrightarrow> errors r1 = errors r0 \<Longrightarrow> read_ok r0 res"
  by (fastforce simp: read_ok_def)

lemma errors_more [simp]:
  "errors (addError e t r) = errors r @ [(t, e)]" "errors (recoverFromError u r) = errors r"
  "errors (addErrorAndRecover e t u r) = errors r @ [(t, e)]"
  by (simp_all add: addErrorAndRecover_def recoverFromError_def addError_def)

lemma current_errors [simp]: "current (addError e t r) = current r"
  by (simp add: addError_def)

lemma current_recover: "length (current (recoverFromError u r)) \<le> length (current r)"
  by (simp add: recoverFromError_def recover_skip_shorter)

lemma current_addErrorAndRecover: "length (current (addErrorAndRecover e t u r)) \<le> length (current r)"
  using current_recover [of u "addError e t r"] by (simp add: addErrorAndRecover_def)

lemma readValue_body_ok:
  assumes "\<And>r'. length (current r') < length (current r) \<Longrightarrow> read_ok r' (obj r')"
    "\<And>r'. length (current r') < length (current r) \<Longrightarrow> read_ok r' (arr r')" "Value_wf v"
  shows "read_ok r (readValue_body sc obj arr v r)"
proof -
  obtain t cur where t: "skipCommentTokens (allowComments (features r)) (current r) = (t, cur)" by fastforce
  note l = skipCommentTokens_shorter [OF t]
  have obj: "read_ok r (obj (r\<lparr>current := cur\<rparr>))" if "tok_type t \<noteq> tokenEndOfStream"
    using read_ok_mono [OF assms(1) [of "r\<lparr>current := cur\<rparr>"], of r] l that by simp
  have arr: "read_ok r (arr (r\<lparr>current := skipSpaces cur\<rparr>))" if "tok_type t \<noteq> tokenEndOfStream"
    using read_ok_mono [OF assms(2) [of "r\<lparr>current := skipSpaces cur\<rparr>"], of r] l that length_skipSpaces [of cur] by simp
  have empty: "length (snd (readToken (skipSpaces cur))) \<le> length (current r)"
    using readToken_shorter(1) [of "skipSpaces cur"] length_skipSpaces [of cur] l by (metis le_trans prod.collapse)
  have leaf: "read_ok r (Some (decoded_value t d v (r\<lparr>current := cur\<rparr>)))" if "\<And>w. d = Inr w \<Longrightarrow> Value_wf w" for d
    using that assms(3) l by (cases d) (auto simp: decoded_value_def read_ok_def)
  have num: "\<And>w. decodeNumber sc t = Inr w \<Longrightarrow> Value_wf w" by (rule Value_wf_number)
  have str: "\<And>w. decodeString_value t = Inr w \<Longrightarrow> Value_wf w"
    by (auto simp: decodeString_value_def Value_wf_string split: sum.splits)
  show ?thesis unfolding readValue_body_def t Let_def prod.case
    using obj arr empty leaf [OF num] leaf [OF str] assms(3) l by (cases "tok_type t") (auto intro!: read_okI)
qed

lemma readObject_body_ok:
  assumes "\<And>name r'. length (current r') < length (current r) \<Longrightarrow> read_ok r' (mem name r')" "Value_wf (objectValue m)"
  shows "read_ok r (readObject_body sc rt mem name m r)"
proof -
  obtain t cur where t: "skip_comments (current r) = (t, cur)" by fastforce
  note l = skip_comments_shorter [OF t]
  let ?r = "r\<lparr>current := cur\<rparr>"
  have mem: "read_ok r (mem name ?r)" if "tok_type t \<noteq> tokenEndOfStream" for name
    using read_ok_mono [OF assms(1) [of ?r name], of r] l that by simp
  have rec: "read_ok r (Some (False, objectValue m, recoverFromError tokenObjectEnd (addError e t ?r)))"
      "read_ok r (Some (False, objectValue m, addErrorAndRecover e t tokenObjectEnd ?r))" for e
    using current_recover [of tokenObjectEnd "addError e t ?r"] current_addErrorAndRecover [of e t tokenObjectEnd ?r] l assms(2)
    by (auto intro!: read_okI)
  have num: "read_ok r (case Value_asString rt w of None \<Rightarrow> None | Some name \<Rightarrow> mem name ?r)"
    if "decodeNumber sc t = Inr w" "tok_type t = tokenNumber" for w
    using number_text [OF that(1), of rt] mem that(2) by auto
  have fin: "read_ok r (Some (True, objectValue m, ?r))" using l assms(2) by (auto intro!: read_okI)
  show ?thesis unfolding readObject_body_def t Let_def prod.case
    using mem rec num fin by (auto split: sum.splits)
qed

lemma readMember_body_ok:
  assumes "\<And>v r'. length (current r') < length (current r) \<Longrightarrow> Value_wf v \<Longrightarrow> read_ok r' (val v r')"
    "\<And>m r'. length (current r') < length (current r) \<Longrightarrow> Value_wf (objectValue m) \<Longrightarrow> read_ok r' (obj m r')"
    "Value_wf (objectValue m)"
  shows "read_ok r (readMember_body val obj name m r)"
proof -
  obtain t cur where t: "readToken (current r) = (t, cur)" by fastforce
  note l = readToken_shorter [OF t]
  let ?r = "r\<lparr>current := cur\<rparr>"
  have rec: "read_ok r (Some (False, objectValue m, addErrorAndRecover e t tokenObjectEnd ?r))" for e
    using current_addErrorAndRecover [of e t tokenObjectEnd ?r] l assms(3) by (auto intro!: read_okI)
  show ?thesis
  proof (cases "tok_type t = tokenMemberSeparator")
    case True
    define old where "old = (case map_of m (c_str name) of None \<Rightarrow> nullValue | Some w \<Rightarrow> w)"
    have "Value_wf old" using assms(3) by (auto simp: old_def list_all_iff split: option.splits dest!: map_of_SomeD)
    then have "read_ok ?r (val old ?r)" using assms(1) [of ?r old] l True by simp
    then obtain ok v r1 where v: "val old ?r = Some (ok, v, r1)" "length (current r1) \<le> length cur" "Value_wf v"
      "ok \<longrightarrow> errors r1 = errors r" "\<not> ok \<longrightarrow> length (errors r) < length (errors r1)"
      by (auto simp: read_ok_def)
    note wf = Value_wf_put [OF assms(3) v(3), of name]
    obtain u c1 where u: "readToken (current r1) = (u, c1)" by fastforce
    note lu = readToken_shorter [OF u]
    obtain w c2 where w: "(if tok_type u = tokenComment then skip_comments c1 else (u, c1)) = (w, c2)" by fastforce
    have lw: "length c2 \<le> length c1" using skip_comments_shorter [of c1 w c2] w by (auto split: if_splits)
    have c1: "tok_type u \<in> {tokenObjectEnd, tokenArraySeparator, tokenComment} \<Longrightarrow> length c2 < length (current r)"
      using lu(2) lw v(2) l(1) by auto
    have rec1: "read_ok r (Some (False, objectValue (map_put (c_str name) v m), recoverFromError tokenObjectEnd r1))" if "\<not> ok"
      using current_recover [of tokenObjectEnd r1] v(2,4,5) l(1) that by (intro read_okI wf) auto
    have rec2: "read_ok r (Some (False, objectValue (map_put (c_str name) v m),
        addErrorAndRecover e u tokenObjectEnd (r1\<lparr>current := c1\<rparr>)))" if ok for e
      using current_addErrorAndRecover [of e u tokenObjectEnd "r1\<lparr>current := c1\<rparr>"] lu(1) v(2,4,5) l(1) that by (intro read_okI wf) auto
    have again: "read_ok r (obj (map_put (c_str name) v m) (r1\<lparr>current := c2\<rparr>))"
      if "tok_type u \<in> {tokenObjectEnd, tokenArraySeparator, tokenComment}" ok
      using read_ok_mono [OF assms(2) [of "r1\<lparr>current := c2\<rparr>", OF _ wf], of r] c1 [OF that(1)] v(4,5) that(2) by simp
    have fin: "read_ok r (Some (True, objectValue (map_put (c_str name) v m), r1\<lparr>current := c2\<rparr>))"
      if "tok_type u \<in> {tokenObjectEnd, tokenArraySeparator, tokenComment}" ok
      using c1 [OF that(1)] v(4,5) that(2) by (intro read_okI wf) auto
    show ?thesis unfolding readMember_body_def t Let_def prod.case old_def [symmetric] v(1) option.case u w
      using True rec1 rec2 again fin by (cases ok) simp_all
  qed (use rec in \<open>simp add: readMember_body_def t\<close>)
qed

lemma readArray_body_ok:
  assumes "read_ok r (val r)"
    "\<And>vs r'. length (current r') < length (current r) \<Longrightarrow> list_all Value_wf vs \<Longrightarrow> read_ok r' (arr vs r')"
    "list_all Value_wf vs"
  shows "read_ok r (readArray_body val arr vs r)"
proof -
  obtain ok v r1 where v: "val r = Some (ok, v, r1)" "length (current r1) \<le> length (current r)" "Value_wf v"
      "ok \<longrightarrow> errors r1 = errors r" "\<not> ok \<longrightarrow> length (errors r) < length (errors r1)"
    using assms(1) by (auto simp: read_ok_def)
  have wf: "list_all Value_wf (vs @ [v])" using assms(3) v(3) by simp
  obtain t cur where t: "skip_comments (current r1) = (t, cur)" by fastforce
  note l = skip_comments_shorter [OF t]
  have rec1: "read_ok r (Some (False, arrayValue (vs @ [v]), recoverFromError tokenArrayEnd r1))" if "\<not> ok"
    using current_recover [of tokenArrayEnd r1] v(2,4,5) wf that by (intro read_okI) auto
  have rec2: "read_ok r (Some (False, arrayValue (vs @ [v]), addErrorAndRecover e t tokenArrayEnd (r1\<lparr>current := cur\<rparr>)))"
      "read_ok r (Some (True, arrayValue (vs @ [v]), r1\<lparr>current := cur\<rparr>))" if ok for e
    using current_addErrorAndRecover [of e t tokenArrayEnd "r1\<lparr>current := cur\<rparr>"] l v(2,4,5) wf that by (auto intro!: read_okI)
  have again: "read_ok r (arr (vs @ [v]) (r1\<lparr>current := cur\<rparr>))" if "tok_type t \<noteq> tokenEndOfStream" ok
    using read_ok_mono [OF assms(2) [of "r1\<lparr>current := cur\<rparr>", OF _ wf], of r] l v(2,4,5) that by simp
  show ?thesis unfolding readArray_body_def v(1) option.case prod.case Let_def t using rec1 rec2 again by (cases ok) simp_all
qed

lemma read_total:
  "2 * length (current r) + 1 \<le> n \<Longrightarrow> Value_wf v \<Longrightarrow> read_ok r (readValue sc rt n v r)"
  "2 * length (current r) + 1 \<le> n \<Longrightarrow> Value_wf (objectValue m) \<Longrightarrow> read_ok r (readObject sc rt n name m r)"
  "2 * length (current r) + 1 \<le> n \<Longrightarrow> Value_wf (objectValue m) \<Longrightarrow> read_ok r (readMember sc rt n name m r)"
  "2 * length (current r) + 2 \<le> n \<Longrightarrow> list_all Value_wf vs \<Longrightarrow> read_ok r (readArray_loop sc rt n vs r)"
proof (induction n arbitrary: r v name m vs)
  case (Suc n)
  { case 1 then show ?case unfolding readValue.simps by (intro readValue_body_ok Suc.IH) auto }
  { case 2 then show ?case unfolding readObject.simps by (intro readObject_body_ok Suc.IH(3)) auto }
  { case 3 then show ?case unfolding readMember.simps by (intro readMember_body_ok Suc.IH(1,2)) auto }
  { case 4 then show ?case unfolding readArray_loop.simps by (intro readArray_body_ok Suc.IH(1,4)) auto }
qed simp_all

subsection \<open>What the writer writes\<close>

text \<open>
  Values the writer writes as JSON: no \<open>double\<close>, no null pointer for a string, and strings that the
  library does not cut. The reader chooses the type of a number by its size alone.
\<close>

fun Value_plain :: "'r Value \<Rightarrow> bool" where
  "Value_plain (realValue r) = False"
| "Value_plain (stringValue s) = (case s of None \<Rightarrow> False | Some t \<Rightarrow> length t < 2 ^ 31 - 1)"
| "Value_plain (arrayValue vs) = list_all Value_plain vs"
| "Value_plain (objectValue m) = list_all (\<lambda>(name, v). Value_plain v) m"
| "Value_plain v = True"

fun Value_norm :: "'r Value \<Rightarrow> 'r Value" where
  "Value_norm (intValue i) = (if i < 2 ^ 31 then intValue i else uintValue (word_of_int i))"
| "Value_norm (uintValue u) = (if unat u < 2 ^ 31 then intValue (int (unat u)) else uintValue u)"
| "Value_norm (arrayValue vs) = arrayValue (map Value_norm vs)"
| "Value_norm (objectValue m) = objectValue (map (\<lambda>(name, v). (name, Value_norm v)) m)"
| "Value_norm v = v"

lemma hex_upper_in: "hex_upper n \<in> set ''0123456789ABCDEF''"
  unfolding hex_upper_def by (rule nth_mem) simp

lemma hex_value_upper: "hex_value (hex_upper n) = Some (n mod 16)"
proof -
  have "\<forall>k < 16. hex_value (''0123456789ABCDEF'' ! k) = Some k" by code_simp
  then show ?thesis by (simp add: hex_upper_def)
qed

lemma hex_number_hex4: "n < 65536 \<Longrightarrow> hex_number (hex4 n) 0 = Some n"
proof -
  assume n: "n < 65536"
  have "n = n div 16 * 16 + n mod 16" "n div 16 = n div 256 * 16 + n div 16 mod 16" "n div 256 = n div 4096 * 16 + n div 256 mod 16"
    "n div 4096 mod 16 = n div 4096"
    using n by (simp_all add: div_mult2_eq [of n 16 16, simplified] div_mult2_eq [of n 256 16, simplified])
  then show ?thesis by (simp add: hex4_def hex_value_upper)
qed

lemma hex_upper_neq: "hex_upper n \<noteq> QUOT" "hex_upper n \<noteq> BSL"
  using hex_upper_in [of n] by auto

lemma readString_escape: "readString (json_escape c @ s) = readString s"
  by (simp add: json_escape_def hex4_def hex_upper_neq)

lemma readString_text: "readString (concat (map json_escape t) @ QUOT # s) = (True, s)"
  by (induction t) (simp_all add: readString_escape)

lemma decode_escape: "decodeString_loop (json_escape c @ s) decoded = decodeString_loop s (decoded @ [c])"
proof (cases "isControlCharacter c")
  case True
  then have c: "byte_val c \<le> 31" by (simp add: isControlCharacter_def)
  have "hex_number (hex4 (byte_val c)) 0 = Some (byte_val c)" using c by (intro hex_number_hex4) simp
  then have "decodeUnicodeCodePoint (hex4 (byte_val c) @ s) = Inr (byte_val c, s)"
    using c by (simp add: decodeUnicodeCodePoint_def decodeUnicodeEscapeSequence_def hex4_def)
  moreover have "codePointToUTF8 (byte_val c) = [c]" using c by (simp add: codePointToUTF8_def)
  ultimately show ?thesis by (auto simp: json_escape_def True)
qed (auto simp: json_escape_def)

lemma decode_text: "decodeString_loop (concat (map json_escape t)) decoded = Inr (decoded @ t)"
  by (induction t arbitrary: decoded) (simp_all add: decode_escape)

text \<open>Tokens at the start of a location.\<close>

lemma not_digits [simp]:
  "\<not> isdigit (CHR '','')" "\<not> isdigit (CHR '':'')" "\<not> isdigit QUOT" "\<not> isdigit (CHR ''t'')" "\<not> isdigit (CHR ''f'')"
  "\<not> isdigit (CHR ''n'')" "\<not> isdigit (CHR '' '')" "\<not> isdigit (CHR 0x09)" "\<not> isdigit CR" "\<not> isdigit LF"
  "\<not> isdigit (CHR ''{'')" "\<not> isdigit (CHR ''}'')" "\<not> isdigit (CHR ''['')" "\<not> isdigit (CHR '']'')" "\<not> isdigit (CHR ''/'')"
  "\<not> isdigit (CHR ''.'')" "\<not> isdigit (CHR ''e'')" "\<not> isdigit (CHR ''E'')" "\<not> isdigit (CHR ''+'')" "\<not> isdigit (CHR ''-'')"
  by code_simp+

lemma readToken_marks [simp]:
  "readToken (CHR ''['' # s) = (\<lparr>tok_type = tokenArrayBegin, tok_start = CHR ''['' # s, tok_end = s\<rparr>, s)"
  "readToken (CHR '']'' # s) = (\<lparr>tok_type = tokenArrayEnd, tok_start = CHR '']'' # s, tok_end = s\<rparr>, s)"
  "readToken (CHR ''{'' # s) = (\<lparr>tok_type = tokenObjectBegin, tok_start = CHR ''{'' # s, tok_end = s\<rparr>, s)"
  "readToken (CHR ''}'' # s) = (\<lparr>tok_type = tokenObjectEnd, tok_start = CHR ''}'' # s, tok_end = s\<rparr>, s)"
  "readToken (CHR '','' # s) = (\<lparr>tok_type = tokenArraySeparator, tok_start = CHR '','' # s, tok_end = s\<rparr>, s)"
  "readToken (CHR '':'' # s) = (\<lparr>tok_type = tokenMemberSeparator, tok_start = CHR '':'' # s, tok_end = s\<rparr>, s)"
  by (simp_all add: readToken_def skipSpaces_def getNextChar_def)

lemma readToken_words:
  "readToken (''true'' @ s) = (\<lparr>tok_type = tokenTrue, tok_start = ''true'' @ s, tok_end = s\<rparr>, s)"
  "readToken (''false'' @ s) = (\<lparr>tok_type = tokenFalse, tok_start = ''false'' @ s, tok_end = s\<rparr>, s)"
  "readToken (''null'' @ s) = (\<lparr>tok_type = tokenNull, tok_start = ''null'' @ s, tok_end = s\<rparr>, s)"
  by (simp_all add: readToken_def skipSpaces_def getNextChar_def match_chars_def)

lemma readToken_space [simp]: "readToken (CHR '' '' # s) = readToken s"
  by (simp add: readToken_def skipSpaces_def)

lemma readToken_quoted:
  "readToken (valueToQuotedString (Some t) @ s) =
     (\<lparr>tok_type = tokenString, tok_start = valueToQuotedString (Some t) @ s, tok_end = s\<rparr>, s)"
  by (simp add: valueToQuotedString_eq readToken_def skipSpaces_def getNextChar_def readString_text)

lemma decode_quoted:
  "decodeString \<lparr>tok_type = tokenString, tok_start = valueToQuotedString (Some t) @ s, tok_end = s\<rparr> = Inr (c_str t)"
  using decode_text [of "c_str t" "[]"] by (simp add: decodeString_def token_text_def valueToQuotedString_eq)

text \<open>A number ends where no character of a number follows.\<close>

definition stops :: "string \<Rightarrow> bool" where
  "stops s \<longleftrightarrow> s = [] \<or> \<not> number_char (hd s)"

lemma dec_int_chars: "\<exists>c cs. dec_int i = c # cs \<and> (isdigit c \<or> c = CHR ''-'') \<and> (\<forall>x \<in> set cs. isdigit x)"
proof -
  show ?thesis
  proof (cases "i < 0")
    case True
    then show ?thesis using dec_nat_digits by (auto simp: dec_int_def)
  next
    case False
    then show ?thesis using dec_nat_digits [of "nat i"] by (cases "dec_nat (nat i)") (auto simp: dec_int_def)
  qed
qed

lemma readToken_number:
  assumes "stops s"
  shows "readToken (dec_int i @ s) = (\<lparr>tok_type = tokenNumber, tok_start = dec_int i @ s, tok_end = s\<rparr>, s)"
proof -
  obtain c cs where d: "dec_int i = c # cs" "isdigit c \<or> c = CHR ''-''" "\<forall>x \<in> set cs. isdigit x" using dec_int_chars by blast
  have "dropWhile number_char (cs @ s) = s"
    using d(3) assms by (cases s) (auto simp: stops_def number_char_def dropWhile_append)
  moreover have "c \<notin> {CHR '' '', CHR 0x09, CR, LF, CHR ''{'', CHR ''}'', CHR ''['', CHR '']'', QUOT, CHR ''/''}"
    using d(2) by auto
  ultimately show ?thesis using d(1,2) by (simp add: readToken_def skipSpaces_def getNextChar_def readNumber_def)
qed

abbreviation digits_from :: "nat \<Rightarrow> string \<Rightarrow> nat" where
  "digits_from n ds \<equiv> foldl (\<lambda>n c. 10 * n + (byte_val c - 48)) n ds"

lemma digits_from_ge: "n \<le> digits_from n ds" "ds \<noteq> [] \<Longrightarrow> 10 * n \<le> digits_from n ds"
proof -
  show ge: "n \<le> digits_from n ds" for n ds
  proof (induction ds arbitrary: n)
    case (Cons c ds)
    have "n \<le> 10 * n + (byte_val c - 48)" by simp
    also have "\<dots> \<le> digits_from (10 * n + (byte_val c - 48)) ds" by (rule Cons.IH)
    finally show ?case by simp
  qed simp
  show "ds \<noteq> [] \<Longrightarrow> 10 * n \<le> digits_from n ds"
    using ge [of "10 * n + (byte_val (hd ds) - 48)" "tl ds"] by (cases ds) auto
qed

lemma decode_digits_value:
  assumes "\<forall>c \<in> set ds. isdigit c" "digits_from n ds \<le> maxv" "10 \<le> maxv"
  shows "decode_digits sc tx neg maxv ds n = decode_digits sc tx neg maxv [] (digits_from n ds)"
  using assms(1,2)
proof (induction ds arbitrary: n)
  case (Cons c cs)
  let ?d = "byte_val c - 48"
  have le: "10 * n + ?d \<le> digits_from (10 * n + ?d) cs" "cs \<noteq> [] \<Longrightarrow> 10 * (10 * n + ?d) \<le> digits_from (10 * n + ?d) cs"
    using digits_from_ge by blast+
  have max: "digits_from (10 * n + ?d) cs \<le> maxv" using Cons.prems(2) by simp
  have small: "\<not> (maxv div 10 \<le> n \<and> (maxv div 10 < n \<or> cs \<noteq> [] \<or> maxv mod 10 < ?d))"
  proof
    assume h: "maxv div 10 \<le> n \<and> (maxv div 10 < n \<or> cs \<noteq> [] \<or> maxv mod 10 < ?d)"
    have n: "n = maxv div 10" using h le(1) max by linarith
    have mod: "maxv = 10 * n + maxv mod 10" "maxv mod 10 < 10" by (simp_all add: n)
    consider "cs \<noteq> []" | "maxv mod 10 < ?d" using h n by auto
    then show False
    proof cases
      case 1
      then have "100 * n \<le> maxv" using order_trans [OF le(2) [OF 1] max] by simp
      moreover have "0 < n" unfolding n using assms(3) by (simp add: div_greater_zero_iff)
      ultimately show False using mod by linarith
    qed (use le(1) max mod in linarith)
  qed
  have "decode_digits sc tx neg maxv (c # cs) n = decode_digits sc tx neg maxv cs (10 * n + ?d)"
    using Cons.prems(1) small by (simp only: decode_digits.simps Let_def mult.commute [of n 10]) simp
  then show ?case using Cons.IH [of "10 * n + ?d"] Cons.prems max by simp
qed simp

lemma decode_number:
  assumes "is_int64 i \<or> 0 \<le> i \<and> i < 2 ^ 64"
  shows "decodeNumber sc \<lparr>tok_type = tokenNumber, tok_start = dec_int i @ s, tok_end = s\<rparr> =
    Inr (if i < 2 ^ 31 then intValue i else uintValue (word_of_int i))"
proof -
  obtain c cs where d: "dec_int i = c # cs" "isdigit c \<or> c = CHR ''-''" "\<forall>x \<in> set cs. isdigit x" using dec_int_chars by blast
  have plain: "\<not> list_ex (\<lambda>c. c \<in> {CHR ''.'', CHR ''e'', CHR ''E'', CHR ''+''}) (dec_int i)" "CHR ''-'' \<notin> set (drop 1 (dec_int i))"
    using d by (auto simp: list_ex_iff)
  show ?thesis
  proof (cases "i < 0")
    case True
    then have i: "dec_int i = CHR ''-'' # dec_nat (nat (- i))" by (simp add: dec_int_def)
    have le: "digits_from 0 (dec_nat (nat (- i))) = nat (- i)" using num_val_dec_nat unfolding num_val_def .
    have b: "nat (- i) \<le> 2 ^ 63" "INT64_MIN \<le> i" using assms True by (auto simp: is_int64_def INT64_MIN_def)
    have dig: "decode_digits sc tx True (2 ^ 63) (dec_nat (nat (- i))) 0 = Inr (intValue (wrap64 (- wrap64 (- i))))" for tx
      by (subst decode_digits_value) (use b True dec_nat_digits in \<open>simp_all add: le\<close>)
    have "wrap64 (- wrap64 (- i)) = i"
    proof (cases "i = INT64_MIN")
      case False
      then have "is_int64 (- i)" "is_int64 i" using b True by (auto simp: is_int64_def INT64_MIN_def INT64_MAX_def)
      then show ?thesis by (simp add: wrap64_id)
    qed (simp add: wrap64_def INT64_MIN_def)
    then show ?thesis using plain i dig True by (simp add: decodeNumber_def token_text_def Let_def)
  next
    case False
    then have i: "dec_int i = dec_nat (nat i)" by (simp add: dec_int_def)
    have le: "digits_from 0 (dec_nat (nat i)) = nat i" using num_val_dec_nat unfolding num_val_def .
    have b: "nat i \<le> 2 ^ 64 - 1" using assms False by (auto simp: is_int64_def INT64_MAX_def)
    have dig: "decode_digits sc tx False (2 ^ 64 - 1) (dec_nat (nat i)) 0 =
        Inr (if i < 2 ^ 31 then intValue i else uintValue (word_of_int i))" for tx
      by (subst decode_digits_value) (use b False dec_nat_digits in \<open>auto simp: le of_nat_nat\<close>)
    have "take 1 (dec_nat (nat i)) \<noteq> ''-''" using dec_nat_digits [of "nat i"] by (cases "dec_nat (nat i)") auto
    then show ?thesis using plain i dig by (simp add: decodeNumber_def token_text_def Let_def)
  qed
qed

lemma skip_comments_token: "readToken s = (t, s') \<Longrightarrow> tok_type t \<noteq> tokenComment \<Longrightarrow> skip_comments s = (t, s')"
  by (simp add: skip_comments.simps)

lemma skipCommentTokens_token: "readToken s = (t, s') \<Longrightarrow> tok_type t \<noteq> tokenComment \<Longrightarrow> skipCommentTokens a s = (t, s')"
  by (simp add: skipCommentTokens_def skip_comments_token)

text \<open>The text of a value begins with neither a space nor a closing bracket.\<close>

lemma dec_nat_int: "dec_nat n = dec_int (int n)"
  by (simp add: dec_int_def)

lemma writeValue_start:
  assumes "Value_plain v" "Value_wf v" "\<not> dropNullPlaceholders w"
  shows "\<exists>c cs. writeValue w rt v = c # cs \<and> c \<notin> {CHR '' '', CHR 0x09, CR, LF, CHR '']''}"
proof (cases v)
  case (intValue i)
  then show ?thesis using assms(2) dec_int_chars [of i] by (auto simp: valueToString_int_eq)
next
  case (uintValue u)
  then show ?thesis using dec_int_chars [of "int (unat u)"] by (auto simp: valueToString_uint_eq dec_nat_int)
next
  case (stringValue s)
  then show ?thesis using assms(1) by (auto simp: valueToQuotedString_eq split: option.splits)
qed (use assms in \<open>simp_all add: valueToString_bool_def\<close>)

lemma commas_start:
  assumes "list_all Value_plain vs" "list_all Value_wf vs" "\<not> dropNullPlaceholders w" "vs \<noteq> []"
  shows "\<exists>c cs. commas (map (writeValue w rt) vs) = c # cs \<and> c \<notin> {CHR '' '', CHR 0x09, CR, LF, CHR '']''}"
proof -
  obtain v us where v: "vs = v # us" using assms(4) by (cases vs) auto
  obtain c cs where c: "writeValue w rt v = c # cs" "c \<notin> {CHR '' '', CHR 0x09, CR, LF, CHR '']''}"
    using writeValue_start [of v w rt] assms v by auto
  then show ?thesis using v by (cases us) auto
qed

lemma stops_marks [simp]: "stops (CHR '','' # s)" "stops (CHR '']'' # s)" "stops (CHR ''}'' # s)" "stops (LF # s)"
  by (simp_all add: stops_def number_char_def)

text \<open>A value is read back from its text.\<close>

definition reads_back :: "FastWriter \<Rightarrow> (string \<Rightarrow> 'r option) \<Rightarrow> ('r \<Rightarrow> string) \<Rightarrow> 'r Value \<Rightarrow> bool" where
  "reads_back w sc rt v \<longleftrightarrow>
     (\<forall>n v0 r s. current r = writeValue w rt v @ s \<longrightarrow> stops s \<longrightarrow> 2 * length (current r) + 1 \<le> n \<longrightarrow>
        readValue sc rt n v0 r = Some (True, Value_norm v, r\<lparr>current := s\<rparr>))"

lemma reads_backD:
  "reads_back w sc rt v \<Longrightarrow> current r = writeValue w rt v @ s \<Longrightarrow> stops s \<Longrightarrow> 2 * length (current r) + 1 \<le> n \<Longrightarrow>
    readValue sc rt n v0 r = Some (True, Value_norm v, r\<lparr>current := s\<rparr>)"
  by (simp add: reads_back_def)

lemma readArray_back:
  assumes "\<forall>v \<in> set vs. reads_back w sc rt v" "vs \<noteq> []" "current r = commas (map (writeValue w rt) vs) @ CHR '']'' # s"
    "2 * length (current r) + 2 \<le> n"
  shows "readArray_loop sc rt n us r = Some (True, arrayValue (us @ map Value_norm vs), r\<lparr>current := s\<rparr>)"
  using assms
proof (induction vs arbitrary: r n us)
  case (Cons v vs)
  obtain k where n: "n = Suc k" using Cons.prems(4) by (cases n) auto
  show ?case
  proof (cases vs)
    case Nil
    have "readValue sc rt k nullValue r = Some (True, Value_norm v, r\<lparr>current := CHR '']'' # s\<rparr>)"
      by (rule reads_backD [of w sc rt v]) (use Cons.prems Nil n in auto)
    then show ?thesis using Nil n by (simp add: readArray_body_def skip_comments_token)
  next
    case (Cons u ws)
    let ?s = "commas (map (writeValue w rt) vs) @ CHR '']'' # s"
    have "readValue sc rt k nullValue r = Some (True, Value_norm v, r\<lparr>current := CHR '','' # ?s\<rparr>)"
      by (rule reads_backD [of w sc rt v]) (use Cons.prems Cons n in auto)
    moreover have "readArray_loop sc rt k (us @ [Value_norm v]) (r\<lparr>current := ?s\<rparr>) =
        Some (True, arrayValue ((us @ [Value_norm v]) @ map Value_norm vs), r\<lparr>current := ?s\<rparr>\<lparr>current := s\<rparr>)"
      by (rule Cons.IH) (use Cons.prems Cons n in auto)
    ultimately show ?thesis using n by (simp add: readArray_body_def skip_comments_token)
  qed
qed simp

lemma readValue_space: "readValue sc rt n v (r\<lparr>current := CHR '' '' # s\<rparr>) = readValue sc rt n v (r\<lparr>current := s\<rparr>)"
proof -
  have "skipCommentTokens a (CHR '' '' # s) = skipCommentTokens a s" for a
    by (simp add: skipCommentTokens_def skip_comments.simps)
  then show ?thesis by (cases n) (simp_all add: readValue_body_def)
qed

lemma map_put_last: "sorted_wrt (<) (map fst (m @ [(k, w)])) \<Longrightarrow> map_put k v m = m @ [(k, v)] \<and> map_of m k = None"
  by (induction m) (auto simp: sorted_wrt_append)

lemma readMember_back:
  assumes "reads_back w sc rt v" "c_str key = key" "sorted_wrt (<) (map fst (m0 @ [(key, v)]))"
    "current r = (if yamlCompatiblityEnabled w then '': '' else '':'') @ writeValue w rt v @ d # s" "d = CHR '','' \<or> d = CHR ''}''"
    "2 * length (current r) \<le> n"
  shows "readMember sc rt (Suc n) key m0 r =
    (if d = CHR ''}'' then Some (True, objectValue (m0 @ [(key, Value_norm v)]), r\<lparr>current := s\<rparr>)
     else readObject sc rt n key (m0 @ [(key, Value_norm v)]) (r\<lparr>current := s\<rparr>))"
proof -
  let ?s = "writeValue w rt v @ d # s"
  have put: "map_put key x m0 = m0 @ [(key, x)]" "map_of m0 key = None" for x
    using map_put_last [OF assms(3), of x] by blast+
  have "readValue sc rt n nullValue (r\<lparr>current := ?s\<rparr>) = Some (True, Value_norm v, r\<lparr>current := ?s\<rparr>\<lparr>current := d # s\<rparr>)"
    by (rule reads_backD [OF assms(1)]) (use assms(4-6) in \<open>auto split: if_splits\<close>)
  then have val: "readValue sc rt n nullValue (r\<lparr>current := ?s\<rparr>) = Some (True, Value_norm v, r\<lparr>current := d # s\<rparr>)" by simp
  obtain t c where colon: "readToken (current r) = (t, c)" "tok_type t = tokenMemberSeparator"
      "readValue sc rt n nullValue (r\<lparr>current := c\<rparr>) = Some (True, Value_norm v, r\<lparr>current := d # s\<rparr>)"
    using assms(4) val by (cases "yamlCompatiblityEnabled w") (auto simp: readValue_space)
  show ?thesis unfolding readMember.simps readMember_body_def colon(1) Let_def prod.case assms(2)
    using colon(2,3) assms(5) put by auto
qed

lemma readObject_back:
  assumes "\<forall>p \<in> set m. reads_back w sc rt (snd p) \<and> NUL \<notin> set (fst p)" "m \<noteq> []"
    "sorted_wrt (<) (map fst (m0 @ m))"
    "current r = commas (map (\<lambda>(name, v). valueToQuotedString (Some name) @
       (if yamlCompatiblityEnabled w then '': '' else '':'') @ writeValue w rt v) m) @ CHR ''}'' # s"
    "2 * length (current r) + 1 \<le> n"
  shows "readObject sc rt n name m0 r = Some (True, objectValue (m0 @ map (\<lambda>(name, v). (name, Value_norm v)) m), r\<lparr>current := s\<rparr>)"
  using assms
proof (induction m arbitrary: r n m0 name)
  case (Cons p m)
  obtain key v where p: "p = (key, v)" by fastforce
  let ?sep = "if yamlCompatiblityEnabled w then '': '' else '':''"
  let ?txt = "\<lambda>m. commas (map (\<lambda>(name, v). valueToQuotedString (Some name) @ ?sep @ writeValue w rt v) m) @ CHR ''}'' # s"
  let ?d = "if m = [] then CHR ''}'' else CHR '',''"
  let ?t = "if m = [] then s else ?txt m"
  have key: "c_str key = key" using Cons.prems(1) p by (auto simp: c_str_def takeWhile_eq_all_conv)
  have srt: "sorted_wrt (<) (map fst (m0 @ [(key, v)]))" using Cons.prems(3) p by (auto simp: sorted_wrt_append)
  have cur: "current r = valueToQuotedString (Some key) @ ?sep @ writeValue w rt v @ ?d # ?t"
    using Cons.prems(4) p by (cases m) auto
  then have two: "4 \<le> 2 * length (current r)" by (simp add: valueToQuotedString_eq)
  obtain k where n: "n = Suc (Suc k)" using Cons.prems(5) two by (cases n; cases "n - 1") auto
  let ?r = "r\<lparr>current := ?sep @ writeValue w rt v @ ?d # ?t\<rparr>"
  have "readObject sc rt n name m0 r = readMember sc rt (Suc k) key m0 ?r"
    unfolding n readObject.simps readObject_body_def cur skip_comments_token [OF readToken_quoted, simplified] Let_def prod.case
    by (simp add: decode_quoted key)
  also have "\<dots> = (if ?d = CHR ''}'' then Some (True, objectValue (m0 @ [(key, Value_norm v)]), ?r\<lparr>current := ?t\<rparr>)
     else readObject sc rt k key (m0 @ [(key, Value_norm v)]) (?r\<lparr>current := ?t\<rparr>))"
    by (rule readMember_back [OF _ key srt]) (use Cons.prems(1,5) cur n p two in \<open>auto simp: valueToQuotedString_eq\<close>)
  also have "\<dots> = Some (True, objectValue (m0 @ map (\<lambda>(name, v). (name, Value_norm v)) (p # m)), r\<lparr>current := s\<rparr>)"
  proof (cases "m = []")
    case False
    have "readObject sc rt k key (m0 @ [(key, Value_norm v)]) (r\<lparr>current := ?t\<rparr>) =
        Some (True, objectValue ((m0 @ [(key, Value_norm v)]) @ map (\<lambda>(name, v). (name, Value_norm v)) m), r\<lparr>current := ?t\<rparr>\<lparr>current := s\<rparr>)"
      by (rule Cons.IH) (use Cons.prems False cur n p in \<open>auto simp: valueToQuotedString_eq sorted_wrt_append\<close>)
    then show ?thesis using False p by simp
  qed (simp add: p)
  finally show ?case .
qed simp

text \<open>The values that are one token.\<close>

lemma reads_back_token:
  assumes "\<And>s. stops s \<Longrightarrow> readToken (writeValue w rt v @ s) = (t s, s)" "\<And>s. tok_type (t s) \<noteq> tokenComment"
    "\<And>s obj arr v0 r. current r = writeValue w rt v @ s \<Longrightarrow> skipCommentTokens (allowComments (features r)) (current r) = (t s, s) \<Longrightarrow>
       readValue_body sc obj arr v0 r = Some (True, Value_norm v, r\<lparr>current := s\<rparr>)"
  shows "reads_back w sc rt v"
  unfolding reads_back_def
proof (intro allI impI)
  fix n v0 s and r :: Reader
  assume h: "current r = writeValue w rt v @ s" "stops s" "2 * length (current r) + 1 \<le> n"
  obtain k where n: "n = Suc k" using h(3) by (cases n) auto
  have "skipCommentTokens (allowComments (features r)) (current r) = (t s, s)"
    unfolding h(1) by (rule skipCommentTokens_token [OF assms(1) [OF h(2)] assms(2)])
  then show "readValue sc rt n v0 r = Some (True, Value_norm v, r\<lparr>current := s\<rparr>)"
    unfolding n readValue.simps by (rule assms(3) [OF h(1)])
qed

lemma reads_back_number:
  assumes "writeValue w rt v = dec_int i" "is_int64 i \<or> 0 \<le> i \<and> i < 2 ^ 64"
    "Value_norm v = (if i < 2 ^ 31 then intValue i else uintValue (word_of_int i))"
  shows "reads_back w sc rt v"
  by (rule reads_back_token [where t = "\<lambda>s. \<lparr>tok_type = tokenNumber, tok_start = dec_int i @ s, tok_end = s\<rparr>"])
    (simp_all add: assms(1,3) readToken_number readValue_body_def decode_number [OF assms(2)] decoded_value_def)

lemma duplicateStringValue_id: "length t < 2 ^ 31 - 1 \<Longrightarrow> NUL \<notin> set t \<Longrightarrow> duplicateStringValue t (length t) = t"
  by (simp add: duplicateStringValue_def c_str_def takeWhile_eq_all_conv) auto

lemma reads_back_string:
  assumes "length t < 2 ^ 31 - 1" "NUL \<notin> set t"
  shows "reads_back w sc rt (stringValue (Some t))"
proof -
  have c: "c_str t = t" using assms(2) by (auto simp: c_str_def takeWhile_eq_all_conv)
  show ?thesis
    by (rule reads_back_token [where t = "\<lambda>s. \<lparr>tok_type = tokenString, tok_start = valueToQuotedString (Some t) @ s, tok_end = s\<rparr>"])
      (simp_all add: readToken_quoted readValue_body_def decodeString_value_def decode_quoted decoded_value_def Value_string_def
        duplicateStringValue_id [OF assms] c)
qed

lemma reads_back_words:
  assumes "\<not> dropNullPlaceholders w"
  shows "reads_back w sc rt nullValue" "reads_back w sc rt (booleanValue b)"
proof -
  show "reads_back w sc rt nullValue"
    by (rule reads_back_token [where t = "\<lambda>s. \<lparr>tok_type = tokenNull, tok_start = ''null'' @ s, tok_end = s\<rparr>"])
      (use assms readToken_words(3) in \<open>simp_all add: readValue_body_def\<close>)
  show "reads_back w sc rt (booleanValue b)"
    by (rule reads_back_token [where t = "\<lambda>s. \<lparr>tok_type = (if b then tokenTrue else tokenFalse),
        tok_start = valueToString_bool b @ s, tok_end = s\<rparr>"])
      (use readToken_words(1,2) in \<open>simp_all add: readValue_body_def valueToString_bool_def\<close>)
qed

lemma reads_back_array:
  assumes "\<forall>v \<in> set vs. reads_back w sc rt v" "\<not> dropNullPlaceholders w" "list_all Value_plain vs" "list_all Value_wf vs"
  shows "reads_back w sc rt (arrayValue vs)"
  unfolding reads_back_def
proof (intro allI impI)
  fix n v0 s and r :: Reader
  assume h: "current r = writeValue w rt (arrayValue vs) @ s" "stops s" "2 * length (current r) + 1 \<le> n"
  obtain k where n: "n = Suc k" using h(3) by (cases n) auto
  let ?c = "commas (map (writeValue w rt) vs) @ CHR '']'' # s"
  have tok: "skipCommentTokens (allowComments (features r)) (current r) =
      (\<lparr>tok_type = tokenArrayBegin, tok_start = current r, tok_end = ?c\<rparr>, ?c)"
    by (rule skipCommentTokens_token) (simp_all add: h(1))
  show "readValue sc rt n v0 r = Some (True, Value_norm (arrayValue vs), r\<lparr>current := s\<rparr>)"
  proof (cases "vs = []")
    case True
    then show ?thesis using n tok by (simp add: readValue_body_def skipSpaces_def)
  next
    case False
    obtain c cs where c: "commas (map (writeValue w rt) vs) = c # cs" "c \<notin> {CHR '' '', CHR 0x09, CR, LF, CHR '']''}"
      using commas_start [OF assms(3,4,2) False] by blast
    have "readArray_loop sc rt k [] (r\<lparr>current := ?c\<rparr>) = Some (True, arrayValue ([] @ map Value_norm vs), r\<lparr>current := ?c\<rparr>\<lparr>current := s\<rparr>)"
      by (rule readArray_back [OF assms(1) False]) (use h n in auto)
    then show ?thesis using n tok c by (simp add: readValue_body_def skipSpaces_def)
  qed
qed

lemma reads_back_object:
  assumes "\<forall>p \<in> set m. reads_back w sc rt (snd p) \<and> NUL \<notin> set (fst p)" "sorted_wrt (<) (map fst m)"
  shows "reads_back w sc rt (objectValue m)"
  unfolding reads_back_def
proof (intro allI impI)
  fix n v0 s and r :: Reader
  assume h: "current r = writeValue w rt (objectValue m) @ s" "stops s" "2 * length (current r) + 1 \<le> n"
  let ?c = "commas (map (\<lambda>(name, v). valueToQuotedString (Some name) @
       (if yamlCompatiblityEnabled w then '': '' else '':'') @ writeValue w rt v) m) @ CHR ''}'' # s"
  have cur: "current r = CHR ''{'' # ?c" by (simp add: h(1))
  obtain k where n: "n = Suc (Suc k)" using h(3) cur by (cases n; cases "n - 1") auto
  have tok: "skipCommentTokens (allowComments (features r)) (current r) =
      (\<lparr>tok_type = tokenObjectBegin, tok_start = current r, tok_end = ?c\<rparr>, ?c)"
    by (rule skipCommentTokens_token) (simp_all add: cur)
  show "readValue sc rt n v0 r = Some (True, Value_norm (objectValue m), r\<lparr>current := s\<rparr>)"
  proof (cases "m = []")
    case True
    then show ?thesis using n tok by (simp add: readValue_body_def readObject_body_def skip_comments_token)
  next
    case False
    have "readObject sc rt (Suc k) [] [] (r\<lparr>current := ?c\<rparr>) =
        Some (True, objectValue ([] @ map (\<lambda>(name, v). (name, Value_norm v)) m), r\<lparr>current := ?c\<rparr>\<lparr>current := s\<rparr>)"
      by (rule readObject_back [OF assms(1) False]) (use h(3) cur n assms(2) in auto)
    then show ?thesis using n tok by (simp add: readValue_body_def)
  qed
qed

lemma all_read_back:
  assumes "\<not> dropNullPlaceholders w"
  shows "Value_plain v \<Longrightarrow> Value_wf v \<Longrightarrow> reads_back w sc rt v"
proof (induction v)
  case (intValue i)
  then show ?case by (intro reads_back_number [of _ _ _ i]) (simp_all add: valueToString_int_eq)
next
  case (uintValue u)
  have "int (unat u) < 2 ^ 64" "word_of_int (int (unat u)) = u" using unsigned_less [of u] by simp_all
  moreover have "unat u < 2 ^ 31 \<longleftrightarrow> int (unat u) < 2 ^ 31"
    using of_nat_less_iff [of "unat u" "2 ^ 31", where 'a = int] by (simp only: of_nat_power of_nat_numeral)
  ultimately show ?case
    by (intro reads_back_number [of _ _ _ "int (unat u)"]) (simp_all add: valueToString_uint_eq dec_nat_int del: of_nat_unat)
next
  case (arrayValue vs)
  then show ?case by (intro reads_back_array assms) (auto simp: list_all_iff)
next
  case (objectValue m)
  then show ?case by (intro reads_back_object) (fastforce simp: list_all_iff)+
qed (auto simp: reads_back_words assms intro: reads_back_string split: option.splits)

lemma written_read:
  assumes "Value_wf v" "Value_plain v" "\<not> dropNullPlaceholders w" "\<not> strictRoot (features r)"
  shows "\<exists>r'. Reader_parse sc rt (FastWriter_write w rt v) root r = Some (True, Value_norm v, r') \<and> errors r' = []"
proof -
  let ?doc = "FastWriter_write w rt v"
  let ?r = "r\<lparr>errors := [], current := ?doc\<rparr>"
  have "readValue sc rt (2 * length ?doc + 1) root ?r = Some (True, Value_norm v, ?r\<lparr>current := [LF]\<rparr>)"
    by (rule reads_backD [OF all_read_back [OF assms(3,2,1)]]) (simp_all add: FastWriter_write_def)
  then show ?thesis using assms(4) by (simp add: Reader_parse_def split_beta)
qed

section \<open>Properties\<close>


text \<open>A configuration of the kind the back end sends.\<close>

definition json_sample :: "unit Value" where
  "json_sample = objectValue [(''db'', arrayValue [stringValue (Some (''a'' @ [QUOT, LF, CHR 0x01])), nullValue]),
     (''port'', intValue 3000000000), (''ttl'', intValue (- 7))]"


text \<open>
  C33: \<open>parse\<close> returns on every document, with any settings of the reader: it stores a well-formed value
  and returns true exactly when it reported no error.
\<close>

theorem json_parse_total:
  assumes "Value_wf root"
  shows "\<exists>ok v r'. Reader_parse sc rt document root r = Some (ok, v, r') \<and> Value_wf v \<and> (ok \<longleftrightarrow> errors r' = [])"
proof -
  let ?r = "r\<lparr>errors := [], current := document\<rparr>"
  have "read_ok ?r (readValue sc rt (2 * length document + 1) root ?r)" using assms by (intro read_total(1)) simp_all
  then obtain ok v r1 where "readValue sc rt (2 * length document + 1) root ?r = Some (ok, v, r1)" "Value_wf v"
      "ok \<longrightarrow> errors r1 = []" "\<not> ok \<longrightarrow> errors r1 \<noteq> []"
    unfolding read_ok_def by (auto simp del: readValue.simps)
  then show ?thesis by (auto simp: Reader_parse_def split_beta Let_def split: if_splits)
qed

theorem json_parse_total_witness:
  "Reader_parse (\<lambda>_. None) (\<lambda>_. []) (''[1,'' @ [QUOT] @ ''a'') (nullValue :: unit Value) (Reader_new Features_all) \<noteq> None"
  using json_parse_total [of "nullValue :: unit Value" "\<lambda>_. None" "\<lambda>_. []" "''[1,'' @ [QUOT] @ ''a''" "Reader_new Features_all"] by auto

end
