(* ===== verification/Xhc_Backend.thy ===== *)
theory Xhc_Backend
  imports Xhc_Frontend Xhc_Multipart Xhc_JsonReader
begin


text \<open>
  \<open>src/xevHtpdBackend.cpp\<close>: the HTTP back end, which stores, deletes and lists values and shows the
  settings to whoever knows the password.

  The server works on two databases, the one it shares with the other servers and one of its own for
  the administration pages. The clock, what an uninitialised time stamp holds, the statistics text of
  RocksDB and the file system the upload parser could use are arguments. Output to the log and to
  \<open>std::cout\<close> is left out.
\<close>

section \<open>Definitions\<close>

subsection \<open>Start\<close>

type_synonym 'db backend_dbs = "'db xDataBase \<times> 'db xDataBase"

definition Backend_Init :: "'p option \<Rightarrow> 'p option \<Rightarrow> bool \<times> 'p option" where
  "Backend_Init p xdb = (if p \<noteq> None then (True, p) else (False, xdb))"

text \<open>The settings of the second database; the field \<open>ttl\<close> is not set (\<open>ttl0\<close>).\<close>

definition sysdb_config :: "u32 \<Rightarrow> ROCKSDB_CONFIG" where
  "sysdb_config ttl0 = \<lparr>db_base_dir = ''./xdb'', create_if_missing = True, max_open_files = 10240,
     max_file_opening_threads = 2, max_total_wal_size = 0, db_log_dir = ''xdblog'', write_buffer_size = 32,
     compression = True, cfg_ttl = ttl0\<rparr>"

definition InitSysDB ::
  "(Options \<Rightarrow> string \<Rightarrow> Status \<times> 'db option) \<Rightarrow> Options \<Rightarrow> u32 \<Rightarrow> 'db xDataBase \<Rightarrow> bool \<times> 'db xDataBase" where
  "InitSysDB rocks_Open o0 ttl0 xdb =
     xDataBase_OpenDB rocks_Open (sysdb_config ttl0) (xDataBase_SetEtag (xDataBase_GetEtag xdb) False (xDataBase_new o0))"

datatype backend_callback = KeyScan_cb | Statistics_cb | Config_cb | AdminShell_cb | REST_cb

text \<open>The callbacks in the order they are given to the library, up to the first one it refuses.\<close>

definition backend_paths :: "(string \<times> backend_callback) list" where
  "backend_paths = [(''/scan'', KeyScan_cb), (''/statistics'', Statistics_cb), (''/config'', Config_cb), (''/admin.htm'', AdminShell_cb)]"

definition Backend_SetRouteTable ::
  "(string \<Rightarrow> bool) \<Rightarrow> HTTP_BACKEND_CONFIG \<Rightarrow> bool \<times> int \<times> (string \<times> backend_callback) list \<times> backend_callback option" where
  "Backend_SetRouteTable set_cb cfg =
     (let done = takeWhile (\<lambda>p. set_cb (fst p)) backend_paths
      in if done \<noteq> backend_paths then (False, be_timeout cfg, done, None)
         else (True, be_timeout cfg, done, Some REST_cb))"

definition Backend_Start ::
  "(string \<Rightarrow> bool) \<Rightarrow> HTTP_BACKEND_CONFIG \<Rightarrow> string \<Rightarrow> int \<Rightarrow> int \<Rightarrow> xevHtpdBase \<Rightarrow>
   bool \<times> (string \<times> backend_callback) list \<times> backend_callback option \<times> xevHtpdBase" where
  "Backend_Start set_cb cfg ip port threads h =
     (let (ok, h) = BindSocket ip port h
      in if \<not> ok then (False, [], None, h)
         else let (ok, timeo, cbs, gencb) = Backend_SetRouteTable set_cb cfg in (ok, cbs, gencb, h))"

subsection \<open>The password\<close>

definition CheckAuth :: "HTTP_BACKEND_CONFIG \<Rightarrow> evhtp_request \<Rightarrow> bool" where
  "CheckAuth cfg req =
     (if be_encode_pass cfg = [] then True
      else case headers_in req ''Authorization'' of
        None \<Rightarrow> False
      | Some auth \<Rightarrow>
          (case str_find ''Basic '' (c_str auth) of
             None \<Rightarrow> False
           | Some p \<Rightarrow> drop (p + length ''Basic '') (c_str auth) = c_str (be_encode_pass cfg)))"

definition CheckSession :: "HTTP_BACKEND_CONFIG \<Rightarrow> evhtp_request \<Rightarrow> bool \<times> evhtp_request" where
  "CheckSession cfg req =
     (if \<not> CheckAuth cfg req then
        (False, evhtp_send_reply EVHTP_RES_UNAUTH
          (AddHeader ''Server'' (server_name req)
            (AddHeader ''WWW-Authenticate'' (''Basic realm='' @ [QUOTE] @ ''xSky'' @ [QUOTE])
              (AddHeader ''Content-Length'' ''0'' req))))
      else (True, req))"

subsection \<open>Values\<close>

text \<open>The loop over the fields, in the order of their names, ends at the first file.\<close>

fun first_file :: "(string \<times> Field) list \<Rightarrow> string \<Rightarrow> (bool \<times> string) mpfd" where
  "first_file [] filedata = Some (Inr (False, filedata))"
| "first_file ((name, f) # fs) filedata =
     (case GetType f of
        Inl e \<Rightarrow> Some (Inl e)
      | Inr t \<Rightarrow>
          if t = TextType then
            (case GetTextTypeContent f of Inl e \<Rightarrow> Some (Inl e) | Inr _ \<Rightarrow> first_file fs filedata)
          else (case GetFileName f of
                  Inl e \<Rightarrow> Some (Inl e)
                | Inr _ \<Rightarrow>
                    (case (GetFileContent f, GetFileContentSize f) of
                       (Some (Inr content), Some (Inr n)) \<Rightarrow> Some (Inr (True, take n content))
                     | (Some (Inl e), _) \<Rightarrow> Some (Inl e)
                     | (_, Some (Inl e)) \<Rightarrow> Some (Inl e)
                     | _ \<Rightarrow> None)))"

text \<open>
  An exception makes the result false and leaves \<open>filedata\<close>. The length is an \<open>int\<close>; a negative
  one copies from outside the buffer. A missing content type would be a null pointer for a string.
\<close>

definition ParasrMultipartPost ::
  "'fs file_ops \<Rightarrow> 'fs \<Rightarrow> HTTP_BACKEND_CONFIG \<Rightarrow> evhtp_request \<Rightarrow> string \<Rightarrow> string \<Rightarrow> (bool \<times> string) ub" where
  "ParasrMultipartPost fo fs cfg req buf filedata = do {
     content_type \<leftarrow> headers_in req ''Content-Type'';
     let len = wrap32 (int (length buf));
     case upload_parser (c_str content_type) (max_upload_file_size cfg) fs of
       Inl e \<Rightarrow> Some (False, filedata)
     | Inr p \<Rightarrow>
         if len < 0 then None
         else do {
           r \<leftarrow> AcceptSomeData fo (take (nat len) buf) p;
           case r of
             Inl e \<Rightarrow> Some (False, filedata)
           | Inr p \<Rightarrow> do {
               r \<leftarrow> first_file (Fields p) filedata;
               Some (case r of Inl e \<Rightarrow> (False, filedata) | Inr res \<Rightarrow> res)
             }
         }
   }"

definition posted_value ::
  "'fs file_ops \<Rightarrow> 'fs \<Rightarrow> HTTP_BACKEND_CONFIG \<Rightarrow> evhtp_request \<Rightarrow> string ub" where
  "posted_value fo fs cfg req =
     (case headers_in req ''Content-Type'' of
        Some content_type \<Rightarrow>
          if str_find ''multipart/form-data'' (c_str content_type) \<noteq> None
          then map_option snd (ParasrMultipartPost fo fs cfg req (buffer_in req) [])
          else Some (c_str (buffer_in req))
      | None \<Rightarrow> Some (c_str (buffer_in req)))"

definition RESTfulPro ::
  "('db, 'it) rocksdb_ops \<Rightarrow> 'fs file_ops \<Rightarrow> 'fs \<Rightarrow> HTTP_BACKEND_CONFIG \<Rightarrow> u64 \<Rightarrow> u64 \<Rightarrow> evhtp_request \<Rightarrow> 'db xDataBase \<Rightarrow>
   (evhtp_request \<times> 'db xDataBase) ub" where
  "RESTfulPro ops fo fs cfg ts0 now req x = do {
     key \<leftarrow> path_key req;
     if req_method req = htp_method_GET then do {
       (ret, sval, x) \<leftarrow> xDataBase_Get ops key \<lparr>timestamp = ts0, strValue = []\<rparr> x;
       if ret = db_null then Some (SendStatusResphone EVHTP_RES_NOTFOUND ''NOT FOUND'' req, x)
       else Some (SendHttpResphone (strValue sval) req, x)
     }
     else if req_method req = htp_method_POST \<or> req_method req = htp_method_PUT then do {
       val \<leftarrow> posted_value fo fs cfg req;
       (ret, x) \<leftarrow> xDataBase_Set ops now key val x;
       if 0 < ret_val ret then Some (SendStatusResphone EVHTP_RES_SERVERR ''EVHTP_RES_SERVERR'' req, x)
       else Some (SendStatusResphone EVHTP_RES_OK ''OK'' req, x)
     }
     else if req_method req = htp_method_DELETE then do {
       (ret, x) \<leftarrow> xDataBase_Del ops key x;
       if 0 < ret_val ret then Some (SendStatusResphone EVHTP_RES_NOTFOUND ''NOT FOUND'' req, x)
       else Some (SendStatusResphone EVHTP_RES_ACCEPTED ''OK'' req, x)
     }
     else Some (SendStatusResphone EVHTP_RES_BADREQ ''BADREQUEST'' req, x)
   }"

text \<open>The argument \<open>db\<close> of a request chooses the database.\<close>

definition wants_sysdb :: "evhtp_request \<Rightarrow> bool" where
  "wants_sysdb req = (case uri_arg_find req ''db'' of None \<Rightarrow> False | Some pdb \<Rightarrow> c_str pdb = ''xdb'')"

definition RESTCallback ::
  "('db, 'it) rocksdb_ops \<Rightarrow> 'fs file_ops \<Rightarrow> 'fs \<Rightarrow> HTTP_BACKEND_CONFIG \<Rightarrow> u64 \<Rightarrow> u64 \<Rightarrow> evhtp_request \<Rightarrow> 'db backend_dbs \<Rightarrow>
   (evhtp_request \<times> 'db backend_dbs) ub" where
  "RESTCallback ops fo fs cfg ts0 now req dbs = do {
     uri \<leftarrow> path_key req;
     let (ok, req) = CheckSession cfg (AddHeader ''Content-Type'' (GuessContentType uri) req);
     if \<not> ok then Some (req, dbs)
     else if uri = [] then Some (SendStatusResphone EVHTP_RES_NOTFOUND ''NOT FOUND'' req, dbs)
     else if wants_sysdb req then do {
       (req, y) \<leftarrow> RESTfulPro ops fo fs cfg ts0 now req (snd dbs);
       Some (req, fst dbs, y)
     }
     else do {
       (req, x) \<leftarrow> RESTfulPro ops fo fs cfg ts0 now req (fst dbs);
       Some (req, x, snd dbs)
     }
   }"

definition AdminShellCallback ::
  "('db, 'it) rocksdb_ops \<Rightarrow> 'fs file_ops \<Rightarrow> 'fs \<Rightarrow> HTTP_BACKEND_CONFIG \<Rightarrow> u64 \<Rightarrow> u64 \<Rightarrow> evhtp_request \<Rightarrow> 'db backend_dbs \<Rightarrow>
   (evhtp_request \<times> 'db backend_dbs) ub" where
  "AdminShellCallback ops fo fs cfg ts0 now req dbs = do {
     uri \<leftarrow> path_key req;
     let (ok, req) = CheckSession cfg req;
     if \<not> ok then Some (req, dbs)
     else do {
       (req, y) \<leftarrow> RESTfulPro ops fo fs cfg ts0 now (AddHeader ''Content-Type'' (GuessContentType uri) req) (snd dbs);
       Some (req, fst dbs, y)
     }
   }"

text \<open>\<open>StatusStr\<close> replaces the statistics by new ones and returns their text.\<close>

definition StatusStr :: "(unit \<Rightarrow> string) \<Rightarrow> string" where
  "StatusStr CreateDBStatistics = CreateDBStatistics ()"

definition StatisticsCallback ::
  "(unit \<Rightarrow> string) \<Rightarrow> HTTP_BACKEND_CONFIG \<Rightarrow> evhtp_request \<Rightarrow> evhtp_request" where
  "StatisticsCallback CreateDBStatistics cfg req =
     (let (ok, req) = CheckSession cfg req
      in if \<not> ok then req
         else SendHttpResphone (StatusStr CreateDBStatistics) (AddHeader ''Content-Type'' ''text/plain'' req))"

subsection \<open>Settings and keys as JSON\<close>

primrec json_members :: "(string \<times> 'r Value) list \<Rightarrow> 'r Value \<Rightarrow> 'r Value option" where
  "json_members [] v = Some v"
| "json_members (p # ps) v = do { v \<leftarrow> Value_put (fst p) (snd p) v; json_members ps v }"

definition config_json :: "xConfig \<Rightarrow> 'r Value option" where
  "config_json c = do {
     httpcache \<leftarrow> json_members
       [(''logfilename'', Value_string (log_filename (app c))), (''logfilesize'', Value_uint (ucast (log_filesize (app c)))),
        (''loglevel'', Value_string (log_level (app c))), (''daemonize'', Value_int (run_daemonize (app c))),
        (''guard'', Value_int (run_guard (app c))), (''debug'', Value_int (cfg_debug (app c)))] nullValue;
     redis \<leftarrow> json_members
       [(''ip'', Value_string (redis_ip (app c))), (''port'', Value_int (redis_port (app c)))] nullValue;
     front \<leftarrow> json_members
       [(''ip'', Value_string (fe_ip (frontend c))), (''port'', Value_int (fe_port (frontend c))),
        (''threads'', Value_int (fe_threads (frontend c))), (''timeout'', Value_int (fe_timeout (frontend c))),
        (''gzip'', Value_int (fe_gzip (frontend c))), (''etag'', Value_int (fe_etag (frontend c))),
        (''etagcachecount'', Value_int (etag_cache_count (frontend c))), (''etagcachesize'', Value_int (etag_cache_size (frontend c))),
        (''pemfile'', Value_string (fe_pemfile (frontend c))), (''privfile'', Value_string (fe_privfile (frontend c))),
        (''ssltimeout'', Value_int (fe_ssl_timeout (frontend c))), (''defaultindex'', Value_string (default_index (frontend c)))] nullValue;
     back \<leftarrow> json_members
       [(''ip'', Value_string (be_ip (backend c))), (''port'', Value_int (be_port (backend c))),
        (''threads'', Value_int (be_threads (backend c))), (''timeout'', Value_int (be_timeout (backend c))),
        (''username'', Value_string (username (backend c))), (''password'', Value_string (password (backend c))),
        (''pemfile'', Value_string (be_pemfile (backend c))), (''privfile'', Value_string (be_privfile (backend c))),
        (''ssltimeout'', Value_int (be_ssl_timeout (backend c)))] nullValue;
     rocks \<leftarrow> json_members
       [(''db_base_dir'', Value_string (db_base_dir (db c))), (''create_if_missing'', Value_bool (create_if_missing (db c))),
        (''max_open_files'', Value_int (max_open_files (db c))),
        (''max_file_opening_threads'', Value_int (max_file_opening_threads (db c))),
        (''max_total_wal_size'', Value_uint (ucast (max_total_wal_size (db c)))), (''db_log_dir'', Value_string (db_log_dir (db c))),
        (''write_buffer_size'', Value_uint (ucast (write_buffer_size (db c)))), (''compression'', Value_bool (compression (db c))),
        (''ttl'', Value_uint (cfg_ttl (db c)))] nullValue;
     json_members [(''frontend'', front), (''backend'', back), (''httpcache'', httpcache), (''redis'', redis), (''db'', rocks)] nullValue
   }"

definition ConfigCallback :: "xConfig \<Rightarrow> evhtp_request \<Rightarrow> evhtp_request option" where
  "ConfigCallback c req =
     (let (ok, req) = CheckSession (backend c) req
      in if \<not> ok then Some req
         else do {
           root \<leftarrow> (config_json c :: unit Value option);
           Some (SendHttpResphone (FastWriter_write FastWriter_new (\<lambda>_. []) root) (AddHeader ''Content-Type'' ''text/json'' req))
         })"

text \<open>
  A negative code would print a structure as a string; \<open>ScanKey\<close> returns none. No keys are written as
  \<open>null\<close>.
\<close>

primrec json_appends :: "'r Value list \<Rightarrow> 'r Value \<Rightarrow> 'r Value option" where
  "json_appends [] v = Some v"
| "json_appends (w # ws) v = do { v \<leftarrow> Value_append w v; json_appends ws v }"

definition KeyScanCallback ::
  "('db, 'it) rocksdb_ops \<Rightarrow> HTTP_BACKEND_CONFIG \<Rightarrow> evhtp_request \<Rightarrow> 'db backend_dbs \<Rightarrow> evhtp_request option" where
  "KeyScanCallback ops cfg req dbs =
     (let (ok, req) = CheckSession cfg req
      in if \<not> ok then Some req
         else do {
           let pkey = uri_arg_find req ''key'';
           let plimit = (case uri_arg_find req ''limit'' of None \<Rightarrow> ''1000'' | Some l \<Rightarrow> l);
           let xdb = (if wants_sysdb req then snd dbs else fst dbs);
           let start = (case pkey of None \<Rightarrow> [] | Some k \<Rightarrow> c_str k);
           let limit = atoi (c_str plimit);
           (ret, vkey) \<leftarrow> xDataBase_ScanKey ops start [CHR 0xFF] limit [] xdb;
           keylist \<leftarrow> (if ret_val ret < 0 then None else json_appends (map Value_string vkey) nullValue :: unit Value option);
           Some (SendHttpResphone (FastWriter_write FastWriter_new (\<lambda>_. []) keylist)
             (AddHeader ''Content-Type'' ''text/json; charset=UTF-8'' req))
         })"

text \<open>A request, given to the callback that the route table names for it.\<close>

definition backend_call ::
  "('db, 'it) rocksdb_ops \<Rightarrow> 'fs file_ops \<Rightarrow> 'fs \<Rightarrow> (unit \<Rightarrow> string) \<Rightarrow> xConfig \<Rightarrow> u64 \<Rightarrow> u64 \<Rightarrow> backend_callback \<Rightarrow>
   evhtp_request \<Rightarrow> 'db backend_dbs \<Rightarrow> (evhtp_request \<times> 'db backend_dbs) option" where
  "backend_call ops fo fs stats c ts0 now cb req dbs =
     (case cb of
        KeyScan_cb \<Rightarrow> map_option (\<lambda>req. (req, dbs)) (KeyScanCallback ops (backend c) req dbs)
      | Statistics_cb \<Rightarrow> Some (StatisticsCallback stats (backend c) req, dbs)
      | Config_cb \<Rightarrow> map_option (\<lambda>req. (req, dbs)) (ConfigCallback c req)
      | AdminShell_cb \<Rightarrow> AdminShellCallback ops fo fs (backend c) ts0 now req dbs
      | REST_cb \<Rightarrow> RESTCallback ops fo fs (backend c) ts0 now req dbs)"

section \<open>Lemmas\<close>

subsection \<open>The password\<close>

lemma AddHeader_fields [simp]:
  "headers_in (AddHeader k v req) = headers_in req" "req_method (AddHeader k v req) = req_method req"
  "path_full (AddHeader k v req) = path_full req" "query (AddHeader k v req) = query req" "buffer_in (AddHeader k v req) = buffer_in req"
  "server_name (AddHeader k v req) = server_name req" "buffer_out (AddHeader k v req) = buffer_out req"
  "replies (AddHeader k v req) = replies req" "headers_out (AddHeader k v req) = headers_out req @ [(k, v)]"
  by (simp_all add: AddHeader_def)

lemma AddHeader_requests [simp]:
  "path_key (AddHeader k v req) = path_key req" "CheckAuth cfg (AddHeader k v req) = CheckAuth cfg req"
  "wants_sysdb (AddHeader k v req) = wants_sysdb req" "uri_arg_find (AddHeader k v req) a = uri_arg_find req a"
  "posted_value fo fs cfg (AddHeader k v req) = posted_value fo fs cfg req"
  by (simp_all add: path_key_def CheckAuth_def wants_sysdb_def uri_arg_find_def posted_value_def ParasrMultipartPost_def
      split: option.split)

lemma CheckSession_refused:
  assumes "\<not> CheckAuth cfg req" "buffer_out req = []" "replies req = []"
  shows "\<exists>req' hdrs. CheckSession cfg req = (False, req') \<and> replies req' = [(EVHTP_RES_UNAUTH, hdrs, [])] \<and>
    (''WWW-Authenticate'', ''Basic realm='' @ [QUOTE] @ ''xSky'' @ [QUOTE]) \<in> set hdrs"
  using assms by (auto simp: CheckSession_def evhtp_send_reply_def)

lemma CheckSession_accepted: "CheckAuth cfg req \<Longrightarrow> CheckSession cfg req = (True, req)"
  by (simp add: CheckSession_def)

lemma str_find_here: "prefix pat s \<Longrightarrow> str_find pat s = Some 0"
  by (cases s) auto

lemma CheckAuth_basic:
  assumes "headers_in req ''Authorization'' = Some (''Basic '' @ tok)" "NUL \<notin> set tok" "be_encode_pass cfg \<noteq> []"
  shows "CheckAuth cfg req \<longleftrightarrow> tok = c_str (be_encode_pass cfg)"
proof -
  have "c_str (''Basic '' @ tok) = ''Basic '' @ tok" using assms(2) by (intro c_str_id) simp
  moreover have "str_find ''Basic '' (''Basic '' @ tok) = Some 0" by (rule str_find_here) simp
  ultimately show ?thesis using assms by (simp add: CheckAuth_def)
qed

lemma split_at: "c \<notin> set a \<Longrightarrow> c \<notin> set b \<Longrightarrow> a @ [c] @ x = b @ [c] @ y \<longleftrightarrow> a = b \<and> x = y"
proof (induction a arbitrary: b)
  case Nil
  then show ?case by (cases b) auto
next
  case (Cons d a)
  then show ?case by (cases b) auto
qed

subsection \<open>What a request stores\<close>

text \<open>
  A request that carries a value: as its whole body, or as the one file of a form.
\<close>

definition sends_plain :: "evhtp_request \<Rightarrow> string \<Rightarrow> bool" where
  "sends_plain req val \<longleftrightarrow>
     (\<forall>ct. headers_in req ''Content-Type'' = Some ct \<longrightarrow> str_find ''multipart/form-data'' (c_str ct) = None) \<and>
     buffer_in req = val \<and> NUL \<notin> set val"

definition sends_form :: "HTTP_BACKEND_CONFIG \<Rightarrow> evhtp_request \<Rightarrow> string \<Rightarrow> part list \<Rightarrow> part \<Rightarrow> bool" where
  "sends_form cfg req b ts t \<longleftrightarrow>
     headers_in req ''Content-Type'' = Some (form_type b) \<and> NUL \<notin> set b \<and> buffer_in req = form_body (''--'' @ b) ts \<and>
     (\<forall>t \<in> set ts. part_ok (''--'' @ b) t) \<and> distinct (map pname ts) \<and>
     int (length (buffer_in req)) \<le> max_upload_file_size cfg \<and> length (buffer_in req) < 2 ^ 31 \<and>
     t \<in> set ts \<and> pfile t \<noteq> None \<and> (\<forall>t' \<in> set ts. pfile t' \<noteq> None \<longrightarrow> t' = t)"

definition sends :: "HTTP_BACKEND_CONFIG \<Rightarrow> evhtp_request \<Rightarrow> string \<Rightarrow> bool" where
  "sends cfg req val \<longleftrightarrow> sends_plain req val \<or> (\<exists>b ts t. sends_form cfg req b ts t \<and> val = pcontent t)"

lemma set_foldl_map_put: "set (foldl (\<lambda>m t. map_put (k t) (v t) m) m ts) \<subseteq> set m \<union> (\<lambda>t. (k t, v t)) ` set ts"
proof (induction ts arbitrary: m)
  case (Cons t ts)
  have "set (map_put (k t) (v t) m) \<subseteq> insert (k t, v t) (set m)" by (induction m) auto
  then show ?case using Cons [of "map_put (k t) (v t) m"] by auto
qed simp

lemma first_file_eq:
  assumes "\<forall>p \<in> set m. snd p = ff \<or> GetType (snd p) = Inr TextType \<and> (\<exists>x. GetTextTypeContent (snd p) = Inr x)" "ff \<in> snd ` set m"
    "GetType ff = Inr FileType" "GetFileName ff = Inr fn" "GetFileContent ff = Some (Inr c)" "GetFileContentSize ff = Some (Inr (length c))"
  shows "first_file m filedata = Some (Inr (True, c))"
  using assms(1,2)
proof (induction m)
  case (Cons p m)
  obtain n f where p: "p = (n, f)" by fastforce
  show ?case
  proof (cases "f = ff")
    case True
    then show ?thesis using p assms(3-6) by (simp add: TextType_def FileType_def)
  next
    case False
    then show ?thesis using p Cons by auto
  qed
qed simp

lemma shows_text: "pfile t = None \<Longrightarrow> GetType (part_field d t) = Inr TextType \<and> (\<exists>x. GetTextTypeContent (part_field d t) = Inr x)"
  using part_field_shows [of t d] by (simp add: shows_part_def)

lemma AcceptSomeData_one: "accept_all fo p [x] = Some (Inr q) \<Longrightarrow> AcceptSomeData fo x p = Some (Inr q)"
  by (auto split: option.splits sum.splits)

lemma posted_form:
  assumes "sends_form cfg req b ts t"
  shows "posted_value fo fs cfg req = Some (pcontent t)"
proof -
  have ty: "headers_in req ''Content-Type'' = Some (form_type b)" "NUL \<notin> set b" "buffer_in req = form_body (''--'' @ b) ts"
    and parts: "\<forall>t \<in> set ts. part_ok (''--'' @ b) t" "distinct (map pname ts)"
    and size: "int (length (form_body (''--'' @ b) ts)) \<le> max_upload_file_size cfg" "length (form_body (''--'' @ b) ts) < 2 ^ 31"
    and one: "t \<in> set ts" "pfile t \<noteq> None" "\<forall>t' \<in> set ts. pfile t' \<noteq> None \<longrightarrow> t' = t"
    using assms unfolding sends_form_def by metis+
  define body where "body = form_body (''--'' @ b) ts"
  have ct: "c_str (form_type b) = form_type b" using ty(2) by (intro c_str_id) (simp add: form_type_def)
  have find: "str_find ''multipart/form-data'' (form_type b) = Some 0" by (rule str_find_here) (simp add: form_type_def)
  have len: "wrap32 (int (length body)) = int (length body)"
    by (rule wrap32_id) (use size(2) in \<open>simp_all add: INT_MIN_def INT_MAX_def body_def\<close>)
  obtain p q where pq: "upload_parser (form_type b) (max_upload_file_size cfg) fs = Inr p" "accept_all fo p [body] = Some (Inr q)"
      "Fields q = foldl (\<lambda>m t. map_put (pname t) (part_field [] t) m) [] ts"
    using multipart_fields [OF parts(1) _ size(1), of body "[]" fs fo, unfolded body_def concat.simps append_Nil2, OF refl]
    unfolding body_def by (elim exE conjE)
  have acc: "AcceptSomeData fo body p = Some (Inr q)" by (rule AcceptSomeData_one [OF pq(2)])
  have sub: "set (Fields q) \<subseteq> (\<lambda>t. (pname t, part_field [] t)) ` set ts"
    using set_foldl_map_put [of pname "part_field []" "[]" ts] by (simp add: pq(3))
  have all: "\<forall>p \<in> set (Fields q). snd p = part_field [] t \<or>
      GetType (snd p) = Inr TextType \<and> (\<exists>x. GetTextTypeContent (snd p) = Inr x)"
  proof
    fix p assume "p \<in> set (Fields q)"
    then obtain t' where "t' \<in> set ts" "snd p = part_field [] t'" using sub by auto
    then show "snd p = part_field [] t \<or> GetType (snd p) = Inr TextType \<and> (\<exists>x. GetTextTypeContent (snd p) = Inr x)"
      using one(3) shows_text [of t' "[]"] by (cases "pfile t' = None") auto
  qed
  have "map_of (Fields q) (pname t) = Some (part_field [] t)"
    using form_fields [OF parts(2), of "[]" "[]" "pname t"] find_part [OF one(1) parts(2)] by (simp add: pq(3))
  then have ex: "part_field [] t \<in> snd ` set (Fields q)" by (force dest: map_of_SomeD)
  obtain fn c where fil: "pfile t = Some (fn, c)" using one(2) by auto
  have "first_file (Fields q) [] = Some (Inr (True, pcontent t))"
    by (rule first_file_eq [OF all ex, of fn]) (use part_field_shows [of t "[]"] in \<open>simp_all add: shows_part_def fil\<close>)
  then show ?thesis using ct find len pq(1) acc
    by (simp add: posted_value_def ParasrMultipartPost_def ty(1) ty(3) [folded body_def])
qed

lemma posted_sends: "sends cfg req val \<Longrightarrow> posted_value fo fs cfg req = Some val"
proof -
  have "posted_value fo fs cfg req = Some val" if "sends_plain req val"
    using that by (auto simp: sends_plain_def posted_value_def c_str_id split: option.split)
  then show "sends cfg req val \<Longrightarrow> posted_value fo fs cfg req = Some val" using posted_form by (auto simp: sends_def)
qed

context rocksdb_reliable
begin

lemma Set_off:
  assumes "dbp x = Some d" "\<not> bEtag x"
  shows "\<exists>d'. xDataBase_Set ops now key val x = Some (db_ok, x\<lparr>dbp := Some d'\<rparr>) \<and>
    contents d' = (contents d)(key_kv key \<mapsto> stamped now val)"
  using assms Put_eq [of d "key_kv key" "stamped now val"]
  by (auto simp: xDataBase_Set_def xValue_encode_def stamped_def record_off)

lemma REST_store:
  assumes "dbp x = Some d" "\<not> bEtag x" "CheckAuth cfg req" "path_key req = Some uri" "uri \<noteq> []" "\<not> wants_sysdb req"
    "req_method req = htp_method_PUT \<or> req_method req = htp_method_POST" "posted_value fo fs cfg req = Some val" "fresh_request req"
  shows "\<exists>req' d' hdrs. RESTCallback ops fo fs cfg ts0 now req (x, y) = Some (req', x\<lparr>dbp := Some d'\<rparr>, y) \<and>
    replies req' = [(EVHTP_RES_OK, hdrs, ''OK'')] \<and> contents d' = (contents d)(key_kv uri \<mapsto> stamped now val)"
proof -
  obtain d' where d': "xDataBase_Set ops now uri val x = Some (db_ok, x\<lparr>dbp := Some d'\<rparr>)"
      "contents d' = (contents d)(key_kv uri \<mapsto> stamped now val)"
    using Set_off [OF assms(1,2)] by blast
  let ?req = "AddHeader ''Content-Type'' (GuessContentType uri) req"
  have "RESTfulPro ops fo fs cfg ts0 now ?req x = Some (SendStatusResphone EVHTP_RES_OK ''OK'' ?req, x\<lparr>dbp := Some d'\<rparr>)"
    using assms(4,7,8) d'(1) by (auto simp: RESTfulPro_def)
  then show ?thesis using assms(3-6,9) d'(2)
    by (intro exI [of _ "SendStatusResphone EVHTP_RES_OK ''OK'' ?req"] exI [of _ d']) (simp add: RESTCallback_def CheckSession_accepted SendStatusResphone_def evhtp_send_reply_def evbuffer_add_def snprintf_def
        c_str_def fresh_request_def)
qed

end

lemma front_ready_dbp [simp]: "front_ready cfg (x\<lparr>dbp := d\<rparr>) = front_ready cfg x"
  by (simp add: front_ready_def no_tags_def)

subsection \<open>Lists of keys\<close>

lemma json_appends_array: "json_appends ws (arrayValue vs) = Some (arrayValue (vs @ ws))"
  by (induction ws arbitrary: vs) (simp_all add: Value_append_def)

lemma json_appends_null: "json_appends ws nullValue = Some (if ws = [] then nullValue else arrayValue ws)"
  by (cases ws) (simp_all add: Value_append_def json_appends_array)

lemma Value_string_id: "length t < 2 ^ 31 - 1 \<Longrightarrow> NUL \<notin> set t \<Longrightarrow> Value_string t = stringValue (Some t)"
  unfolding Value_string_def by (subst duplicateStringValue_id) simp_all

section \<open>Properties\<close>

text \<open>
  C18: without the password nothing happens. A request that \<open>CheckAuth\<close> refuses, whichever callback
  gets it, leaves both databases as they are and is answered exactly once, with 401, the challenge and
  an empty body, whatever the store does.
\<close>

theorem backend_unauthorised:
  assumes "\<not> CheckAuth (backend c) req" "fresh_request req" "path_key req = Some uri"
  shows "\<exists>req' hdrs. backend_call ops fo fs stats c ts0 now cb req dbs = Some (req', dbs) \<and>
    replies req' = [(EVHTP_RES_UNAUTH, hdrs, [])] \<and>
    (''WWW-Authenticate'', ''Basic realm='' @ [QUOTE] @ ''xSky'' @ [QUOTE]) \<in> set hdrs"
proof -
  have fresh: "buffer_out req = []" "replies req = []" using assms(2) by (simp_all add: fresh_request_def)
  note refused = CheckSession_refused [OF assms(1) fresh]
  have "\<exists>req' hdrs. CheckSession (backend c) (AddHeader ''Content-Type'' (GuessContentType uri) req) = (False, req') \<and>
      replies req' = [(EVHTP_RES_UNAUTH, hdrs, [])] \<and> (''WWW-Authenticate'', ''Basic realm='' @ [QUOTE] @ ''xSky'' @ [QUOTE]) \<in> set hdrs"
    by (rule CheckSession_refused) (simp_all add: assms(1) fresh)
  with refused show ?thesis
    by (cases cb) (auto simp: backend_call_def KeyScanCallback_def StatisticsCallback_def ConfigCallback_def AdminShellCallback_def
        RESTCallback_def assms(3))
qed

text \<open>
  C19: the password check accepts exactly the right credentials. A client that sends a user and a password
  in the basic scheme gets in exactly when they are the ones of the settings, provided these make at most
  93 bytes with the colon between them; longer ones leave the encoded password empty, and then every
  request gets in. User names hold no colon.
\<close>

theorem backend_auth_exact:
  assumes "be_encode_pass cfg = encode_pass user pass" "CHR '':'' \<notin> set user" "CHR '':'' \<notin> set u"
    "headers_in req ''Authorization'' = Some (''Basic '' @ base64_body (u @ '':'' @ p))"
  shows "CheckAuth cfg req \<longleftrightarrow> 93 < length user + 1 + length pass \<or> (u = user \<and> p = pass)"
proof (cases "length user + length pass \<le> 92")
  case True
  then have enc: "be_encode_pass cfg = base64_body (user @ '':'' @ pass)" using assms(1) by (simp add: encode_pass_fits)
  have "be_encode_pass cfg \<noteq> []" using length_base64_body [of "user @ '':'' @ pass"] enc by auto
  then have "CheckAuth cfg req \<longleftrightarrow> base64_body (u @ '':'' @ p) = base64_body (user @ '':'' @ pass)"
    using CheckAuth_basic [OF assms(4) base64_body_no_NUL] enc c_str_id [OF base64_body_no_NUL] by simp
  also have "\<dots> \<longleftrightarrow> u @ '':'' @ p = user @ '':'' @ pass" by (metis base64_decode_body option.inject)
  also have "\<dots> \<longleftrightarrow> u = user \<and> p = pass" using split_at [OF assms(3,2)] by auto
  finally show ?thesis using True by simp
next
  case False
  then have "be_encode_pass cfg = []" using assms(1) encode_pass_too_long [of user pass] by simp
  then show ?thesis using False by (simp add: CheckAuth_def)
qed

definition back_cfg :: "string \<Rightarrow> string \<Rightarrow> HTTP_BACKEND_CONFIG" where
  "back_cfg user pass = \<lparr>be_ip = ''0.0.0.0'', be_port = 9090, be_threads = 4, be_timeout = 30, username = user, password = pass,
     be_encode_pass = encode_pass user pass, be_pemfile = [], be_privfile = [], be_ssl_timeout = 5, max_upload_file_size = 131072\<rparr>"

theorem backend_auth_exact_witness:
  "CheckAuth (back_cfg ''admin'' ''pw'') (get_request ''/a'' [(''Authorization'', ''Basic '' @ base64_body ''admin:pw'')]) \<and>
   \<not> CheckAuth (back_cfg ''admin'' ''pw'') (get_request ''/a'' [(''Authorization'', ''Basic '' @ base64_body ''admin:px'')])"
proof -
  have "CheckAuth (back_cfg ''admin'' ''pw'') (get_request ''/a'' [(''Authorization'', ''Basic '' @ base64_body (''admin'' @ '':'' @ p))]) \<longleftrightarrow>
      93 < length ''admin'' + 1 + length ''pw'' \<or> (''admin'' = ''admin'' \<and> p = ''pw'')" for p
    by (rule backend_auth_exact) (simp_all add: back_cfg_def get_request_def)
  from this [of "''pw''"] this [of "''px''"] show ?thesis by simp
qed

theorem backend_unauthorised_witness:
  "\<exists>req' hdrs. backend_call mem_ops undefined () (\<lambda>_. []) \<lparr>app = undefined, frontend = page_cfg, backend = back_cfg ''admin'' ''pw'', db = undefined\<rparr>
      0 0 REST_cb ((get_request ''/a'' [])\<lparr>req_method := htp_method_DELETE\<rparr>) (page_db, page_db) = Some (req', page_db, page_db) \<and>
    replies req' = [(EVHTP_RES_UNAUTH, hdrs, [])]"
proof -
  have enc: "encode_pass ''admin'' ''pw'' \<noteq> []"
    using length_base64_body [of "''admin:pw''"] encode_pass_fits [of "''admin''" "''pw''"] by auto
  let ?c = "\<lparr>app = undefined, frontend = page_cfg, backend = back_cfg ''admin'' ''pw'', db = undefined\<rparr>"
  let ?req = "(get_request ''/a'' [])\<lparr>req_method := htp_method_DELETE\<rparr>"
  have "\<not> CheckAuth (backend ?c) ?req" using enc by (simp add: CheckAuth_def back_cfg_def get_request_def)
  moreover have "fresh_request ?req" "path_key ?req = Some ''a''"
    by (simp_all add: fresh_request_def get_request_def path_key_def c_str_def)
  ultimately show ?thesis
    using backend_unauthorised [of ?c ?req "''a''" mem_ops undefined "()" "\<lambda>_. []" 0 0 REST_cb "(page_db, page_db)"] by blast
qed


definition form_request :: evhtp_request where
  "form_request = \<lparr>req_method = htp_method_POST, path_full = ''/a.css'', query = None,
     headers_in = map_of [(''Content-Type'', form_type ''XX'')], buffer_in = form_body (''--'' @ ''XX'') [sample_part],
     server_name = SERVER_SIGNATURE, headers_out = [], buffer_out = [], replies = []\<rparr>"


text \<open>
  C21: the list of keys can be read back. With the password, the answer to a scan is sent once, with 200,
  and its body is JSON that the reader of the library accepts and that holds exactly the first \<open>limit\<close>
  keys with a value from the start key on, in byte order, for keys without NUL bytes; no keys at all
  are \<open>null\<close>.
\<close>

theorem scan_json:
  assumes "rocksdb_reliable ops contents it_all it_rest" "dbp (if wants_sysdb req then y else x) = Some d" "CheckAuth cfg req" "fresh_request req"
    "start = (case uri_arg_find req ''key'' of None \<Rightarrow> [] | Some k \<Rightarrow> c_str k)"
    "limit = atoi (c_str (case uri_arg_find req ''limit'' of None \<Rightarrow> ''1000'' | Some l \<Rightarrow> l))"
    "ks = take (nat limit) (sorted_list_of_set {k. contents d (key_kv k) \<noteq> None \<and> start \<le> k \<and> k < [CHR 0xFF]})"
    "\<forall>k \<in> set ks. NUL \<notin> set k \<and> length k < 2 ^ 31 - 1"
  shows "\<exists>req' hdrs body r'. KeyScanCallback ops cfg req (x, y) = Some req' \<and> replies req' = [(EVHTP_RES_OK, hdrs, body)] \<and>
    Reader_parse (\<lambda>_. None) (\<lambda>_. []) body (nullValue :: unit Value) (Reader_new Features_all) =
      Some (True, if ks = [] then nullValue else arrayValue (map (\<lambda>k. stringValue (Some k)) ks), r')"
proof -
  define v :: "unit Value" where "v = (if ks = [] then nullValue else arrayValue (map (\<lambda>k. stringValue (Some k)) ks))"
  have scan: "xDataBase_ScanKey ops start [CHR 0xFF] limit [] (if wants_sysdb req then y else x) = Some (db_ok, ks)"
    using rocksdb_reliable.ScanKey_eq [OF assms(1,2), of start "[CHR 0xFF]" limit "[]"] by (simp add: assms(7))
  have "map Value_string ks = (map (\<lambda>k. stringValue (Some k)) ks :: unit Value list)"
    using assms(8) Value_string_id by (intro map_cong refl) blast
  then have js: "json_appends (map Value_string ks) nullValue = Some v" by (simp only: json_appends_null map_is_Nil_conv v_def)
  have call: "KeyScanCallback ops cfg req (x, y) = Some (SendHttpResphone (FastWriter_write FastWriter_new (\<lambda>_. []) v)
      (AddHeader ''Content-Type'' ''text/json; charset=UTF-8'' req))"
    unfolding KeyScanCallback_def fst_conv snd_conv
    using scan js by (simp add: CheckSession_accepted [OF assms(3)] assms(5,6) split del: if_split)
  have reply: "\<exists>hdrs. replies (SendHttpResphone body (AddHeader k t req)) = [(EVHTP_RES_OK, hdrs, body)]" for body k t
    using assms(4) by (simp add: SendHttpResphone_def evhtp_send_reply_def evbuffer_add_def fresh_request_def)
  have wf: "Value_wf v" "Value_plain v" "Value_norm v = v" using assms(8) by (auto simp: v_def list_all_iff)
  have "\<not> dropNullPlaceholders FastWriter_new" "\<not> strictRoot (features (Reader_new Features_all))"
    by (simp_all add: FastWriter_new_def Reader_new_def Features_all_def)
  from written_read [OF wf(1,2) this, of "\<lambda>_. None" "\<lambda>_. []" nullValue]
  obtain r' where "Reader_parse (\<lambda>_. None) (\<lambda>_. []) (FastWriter_write FastWriter_new (\<lambda>_. []) v) nullValue (Reader_new Features_all) =
      Some (True, v, r')"
    unfolding wf(3) by blast
  then show ?thesis unfolding call v_def [symmetric] using reply by blast
qed

definition scan_request :: evhtp_request where
  "scan_request = get_request ''/scan'' [(''Authorization'', ''Basic '' @ base64_body (''admin'' @ '':'' @ ''pw''))]"

theorem scan_json_witness:
  "\<exists>req' hdrs body r'. KeyScanCallback mem_ops (back_cfg ''admin'' ''pw'') scan_request (page_db, page_db) = Some req' \<and>
    replies req' = [(EVHTP_RES_OK, hdrs, body)] \<and>
    Reader_parse (\<lambda>_. None) (\<lambda>_. []) body (nullValue :: unit Value) (Reader_new Features_all) =
      Some (True, arrayValue [stringValue (Some ''a.css'')], r')"
proof -
  let ?d = "[(key_kv ''a.css'', stamped 5 ''p{}'')]"
  let ?ks = "take (nat 1000) (sorted_list_of_set {k. map_of ?d (key_kv k) \<noteq> None \<and> [] \<le> k \<and> k < [CHR 0xFF]})"
  have enc: "be_encode_pass (back_cfg ''admin'' ''pw'') = base64_body (''admin'' @ '':'' @ ''pw'')"
    using encode_pass_fits [of "''admin''" "''pw''"] by (simp add: back_cfg_def)
  have ne: "be_encode_pass (back_cfg ''admin'' ''pw'') \<noteq> []"
    unfolding enc using length_base64_body [of "''admin'' @ '':'' @ ''pw''"] by auto
  have hd: "headers_in scan_request ''Authorization'' = Some (''Basic '' @ base64_body (''admin'' @ '':'' @ ''pw''))"
    unfolding scan_request_def get_request_def evhtp_request.simps map_of.simps fst_conv snd_conv by (rule map_upd_Some_unfold [THEN iffD2]) simp
  have auth: "CheckAuth (back_cfg ''admin'' ''pw'') scan_request"
    unfolding CheckAuth_basic [OF hd base64_body_no_NUL ne] enc c_str_id [OF base64_body_no_NUL] ..
  have db: "dbp (if wants_sysdb scan_request then page_db else page_db) = Some ?d" by (simp add: page_db_def)
  have fresh: "fresh_request scan_request" by (simp add: fresh_request_def get_request_def scan_request_def)
  have args: "uri_arg_find scan_request a = None" for a by (simp add: uri_arg_find_def get_request_def scan_request_def)
  have lim: "atoi (c_str ''1000'') = 1000" by code_simp
  have less: "''a.css'' < [CHR 0xFF]" "[] \<le> ''a.css''" by code_simp+
  have "{k. map_of ?d (key_kv k) \<noteq> None \<and> [] \<le> k \<and> k < [CHR 0xFF]} = {''a.css''}" using less by auto
  then have ks: "?ks = [''a.css'']" by simp
  have start: "[] = (case uri_arg_find scan_request ''key'' of None \<Rightarrow> [] | Some k \<Rightarrow> c_str k)" by (simp add: args)
  have limit: "1000 = atoi (c_str (case uri_arg_find scan_request ''limit'' of None \<Rightarrow> ''1000'' | Some l \<Rightarrow> l))"
    unfolding args option.case by (rule lim [symmetric])
  have good: "\<forall>k \<in> set [''a.css'']. NUL \<notin> set k \<and> length k < 2 ^ 31 - 1" by simp
  note res = scan_json [where ops = mem_ops and contents = map_of and it_all = fst and it_rest = snd and req = scan_request and
    x = page_db and y = page_db and d = ?d and cfg = "back_cfg ''admin'' ''pw''" and start = "[]" and limit = 1000 and ks = "[''a.css'']"]
  show ?thesis
    using res [OF mem.rocksdb_reliable_axioms db auth fresh start limit ks [symmetric] good]
    unfolding list.map by (simp only: list.distinct if_False)
qed

end
