(* ===== verification/Xhc_Expire.thy ===== *)
theory Xhc_Expire
  imports Xhc_DataBase
begin


text \<open>
  \<open>src/xExpireManager.cpp\<close>: the thread that deletes keys when their time has come. The expiry
  times are members of the sorted set \<open>expire\<close> of the database; the manager keeps the nearest
  ones, at most \<open>BATCH_SIZE\<close>, in a \<open>SortedSet\<close> and reloads it when it has run empty.

  A call takes the time it reads from the clock as an argument. The thread and the callers of
  \<open>SetTTL\<close> run without a lock; the model interleaves whole calls.

  The lemmas show that the queue and the wake-up time can be trusted: while the thread sleeps
  no key is overdue, and a run of the loop deletes exactly the keys that are due.
\<close>

section \<open>Definitions\<close>

definition BATCH_SIZE :: int where "BATCH_SIZE = 1000"

text \<open>\<open>gettimeofday\<close> is given by its two fields.\<close>

definition time_ms :: "int \<Rightarrow> int \<Rightarrow> int64" where
  "time_ms tv_sec tv_usec = tv_sec * 1000 + c_div tv_usec 1000"

record ExpireManager =
  expire_key :: string
  sort_set :: SortedSet
  brun :: bool
  first_timeout :: int64
  has_xdb :: bool

definition ExpireManager_new :: ExpireManager where
  "ExpireManager_new =
     \<lparr>expire_key = ''expire'', sort_set = SortedSet_new, brun = True, first_timeout = 0, has_xdb = False\<rparr>"

text \<open>The pointer to the database is shared; the record only says whether it is set.\<close>

definition ExpireManager_Init :: "bool \<Rightarrow> ExpireManager \<Rightarrow> bool \<times> ExpireManager" where
  "ExpireManager_Init db_given e = (if db_given then (True, e\<lparr>has_xdb := True\<rparr>) else (False, e))"

definition ExpireManager_LoadExpirationKeys ::
  "('db, 'it) rocksdb_ops \<Rightarrow> int \<Rightarrow> ExpireManager \<Rightarrow> 'db xDataBase \<Rightarrow> ExpireManager ub" where
  "ExpireManager_LoadExpirationKeys ops num e x = do {
     (_, q) \<leftarrow> xDataBase_LoadExpirationKeys ops (expire_key e) (sort_set e) num x;
     Some (e\<lparr>sort_set := q\<rparr>)
   }"

text \<open>The second half of \<open>ExpireLoop\<close>: look at the nearest entry.\<close>

definition ExpireLoop_front ::
  "('db, 'it) rocksdb_ops \<Rightarrow> int64 \<Rightarrow> ExpireManager \<Rightarrow> 'db xDataBase \<Rightarrow> (ExpireManager \<times> 'db xDataBase) ub" where
  "ExpireLoop_front ops now e x =
     (case SortedSet_front (sort_set e) of
        None \<Rightarrow> Some (e, x)
      | Some (key, score) \<Rightarrow>
          let e = e\<lparr>first_timeout := score\<rparr>
          in if score \<le> now then do {
               (_, x) \<leftarrow> xDataBase_Del ops key x;
               (_, x) \<leftarrow> xDataBase_Zdel ops (expire_key e) key x;
               Some (e\<lparr>sort_set := snd (SortedSet_pop_front (sort_set e))\<rparr>, x)
             } else Some (e, x))"

definition ExpireLoop ::
  "('db, 'it) rocksdb_ops \<Rightarrow> int64 \<Rightarrow> ExpireManager \<Rightarrow> 'db xDataBase \<Rightarrow> (ExpireManager \<times> 'db xDataBase) ub" where
  "ExpireLoop ops now e x =
     (if \<not> has_xdb e then None
      else if SortedSet_empty (sort_set e) then do {
        e \<leftarrow> ExpireManager_LoadExpirationKeys ops BATCH_SIZE e x;
        if SortedSet_empty (sort_set e) then Some (e\<lparr>first_timeout := INT64_MAX\<rparr>, x)
        else ExpireLoop_front ops now e x
      } else ExpireLoop_front ops now e x)"

text \<open>One turn of the loop of \<open>Dispatch\<close>: sleep, or run \<open>ExpireLoop\<close>.\<close>

definition Dispatch_turn ::
  "('db, 'it) rocksdb_ops \<Rightarrow> int64 \<Rightarrow> ExpireManager \<Rightarrow> 'db xDataBase \<Rightarrow> (ExpireManager \<times> 'db xDataBase) ub" where
  "Dispatch_turn ops now e x =
     (if \<not> brun e \<or> now < first_timeout e then Some (e, x) else ExpireLoop ops now e x)"

primrec Dispatch ::
  "('db, 'it) rocksdb_ops \<Rightarrow> int64 \<Rightarrow> nat \<Rightarrow> ExpireManager \<Rightarrow> 'db xDataBase \<Rightarrow> (ExpireManager \<times> 'db xDataBase) ub" where
  "Dispatch ops now 0 e x = Some (e, x)"
| "Dispatch ops now (Suc turns) e x = do {
     (e, x) \<leftarrow> Dispatch_turn ops now e x;
     Dispatch ops now turns e x
   }"

definition SetTTL :: "string \<Rightarrow> int64 \<Rightarrow> ExpireManager \<Rightarrow> ExpireManager" where
  "SetTTL key ttl e =
     (let e = (if ttl < first_timeout e then e\<lparr>first_timeout := ttl\<rparr> else e)
      in if \<not> SortedSet_empty (sort_set e) \<and> ttl \<le> SortedSet_max_score (sort_set e) then
           let q = snd (SortedSet_add key ttl (sort_set e));
               q = (if BATCH_SIZE < SortedSet_size q then snd (SortedSet_pop_back q) else q)
           in e\<lparr>sort_set := q\<rparr>
         else e\<lparr>sort_set := snd (SortedSet_del key (sort_set e))\<rparr>)"

section \<open>The invariant\<close>

abbreviation queued :: "ExpireManager \<Rightarrow> string \<rightharpoonup> int64" where
  "queued e \<equiv> score_of (sort_set e)"

text \<open>
  \<open>zs\<close> is the map of recorded expiry times. The wake-up time is not after any queued time. Apart
  from the keys of \<open>X\<close>: it is not after any pending time; a pending time that is less than some queued time is queued; and a
  queued time is the recorded one, if there is a recorded one.
\<close>

definition expire_inv :: "string set \<Rightarrow> (string \<rightharpoonup> int64) \<Rightarrow> ExpireManager \<Rightarrow> bool" where
  "expire_inv X zs e \<longleftrightarrow>
     SortedSet_inv (sort_set e) \<and> expire_key e = ''expire'' \<and> has_xdb e \<and> brun e \<and>
     card (dom (queued e)) \<le> 1000 \<and>
     (\<forall>m s. queued e m = Some s \<longrightarrow> first_timeout e \<le> s) \<and>
     (\<forall>m s. m \<notin> X \<longrightarrow> (s, m) \<in> pending zs \<longrightarrow> first_timeout e \<le> s) \<and>
     (\<forall>m s k v. m \<notin> X \<longrightarrow> (s, m) \<in> pending zs \<longrightarrow> queued e k = Some v \<longrightarrow> s < v \<longrightarrow> queued e m = Some s) \<and>
     (\<forall>m s. m \<notin> X \<longrightarrow> queued e m = Some s \<longrightarrow> zs m = None \<or> zs m = Some s)"

lemma expire_invD:
  assumes "expire_inv X zs e"
  shows "SortedSet_inv (sort_set e)" "expire_key e = ''expire''" "has_xdb e" "brun e"
    "card (dom (queued e)) \<le> 1000"
    "m \<notin> X \<Longrightarrow> (s, m) \<in> pending zs \<Longrightarrow> first_timeout e \<le> s"
    "m \<notin> X \<Longrightarrow> (s, m) \<in> pending zs \<Longrightarrow> queued e k = Some v \<Longrightarrow> s < v \<Longrightarrow> queued e m = Some s"
    "m \<notin> X \<Longrightarrow> queued e m = Some s \<Longrightarrow> zs m = None \<or> zs m = Some s"
    "queued e m = Some s \<Longrightarrow> first_timeout e \<le> s"
  using assms unfolding expire_inv_def by blast+

lemma expire_invI:
  assumes "SortedSet_inv (sort_set e)" "expire_key e = ''expire''" "has_xdb e" "brun e"
    "card (dom (queued e)) \<le> 1000"
    "\<And>m s. m \<notin> X \<Longrightarrow> (s, m) \<in> pending zs \<Longrightarrow> first_timeout e \<le> s"
    "\<And>m s k v. m \<notin> X \<Longrightarrow> (s, m) \<in> pending zs \<Longrightarrow> queued e k = Some v \<Longrightarrow> s < v \<Longrightarrow> queued e m = Some s"
    "\<And>m s. m \<notin> X \<Longrightarrow> queued e m = Some s \<Longrightarrow> zs m = None \<or> zs m = Some s"
    "\<And>m s. queued e m = Some s \<Longrightarrow> first_timeout e \<le> s"
  shows "expire_inv X zs e"
  using assms unfolding expire_inv_def by blast

lemma expire_inv_mono: "expire_inv X zs e \<Longrightarrow> X \<subseteq> Y \<Longrightarrow> expire_inv Y zs e"
  unfolding expire_inv_def by blast

lemma pending_iff: "(s, m) \<in> pending zs \<longleftrightarrow> zs m = Some s \<and> 0 \<le> s \<and> s < INT64_MAX"
  by (simp add: pending_def)

lemma empty_iff:
  assumes "expire_inv X zs e"
  shows "SortedSet_empty (sort_set e) \<longleftrightarrow> queued e = Map.empty"
proof -
  note i = expire_invD [OF assms]
  have "SortedSet_size (sort_set e) = int (card (dom (queued e)))"
    using sq.size_lookup [OF i(1)] i(5) by simp
  then show ?thesis using sq.finite_lookup [OF i(1)] by (simp add: SortedSet_empty_def)
qed

lemma upd_fields:
  "sort_set (e\<lparr>first_timeout := t\<rparr>) = sort_set e" "expire_key (e\<lparr>first_timeout := t\<rparr>) = expire_key e"
  "has_xdb (e\<lparr>first_timeout := t\<rparr>) = has_xdb e" "brun (e\<lparr>first_timeout := t\<rparr>) = brun e"
  "first_timeout (e\<lparr>first_timeout := t\<rparr>) = t"
  "sort_set (e\<lparr>sort_set := q\<rparr>) = q" "expire_key (e\<lparr>sort_set := q\<rparr>) = expire_key e"
  "has_xdb (e\<lparr>sort_set := q\<rparr>) = has_xdb e" "brun (e\<lparr>sort_set := q\<rparr>) = brun e"
  "first_timeout (e\<lparr>sort_set := q\<rparr>) = first_timeout e"
  by simp_all

lemma expire_inv_first_timeout:
  assumes "expire_inv X zs e" "\<And>m s. m \<notin> X \<Longrightarrow> (s, m) \<in> pending zs \<Longrightarrow> t \<le> s"
    "\<And>m s. queued e m = Some s \<Longrightarrow> t \<le> s"
  shows "expire_inv X zs (e\<lparr>first_timeout := t\<rparr>)"
proof -
  note i = expire_invD [OF assms(1)]
  show ?thesis
    by (rule expire_invI; unfold upd_fields) (fact i | rule assms(2,3) i(7,8); assumption)+
qed

lemma expire_inv_sort_set:
  assumes "expire_inv X zs e" "SortedSet_inv q" "card (dom (score_of q)) \<le> 1000"
    "\<And>m s k v. m \<notin> X \<Longrightarrow> (s, m) \<in> pending zs \<Longrightarrow> score_of q k = Some v \<Longrightarrow> s < v \<Longrightarrow> score_of q m = Some s"
    "\<And>m s. m \<notin> X \<Longrightarrow> score_of q m = Some s \<Longrightarrow> zs m = None \<or> zs m = Some s"
    "\<And>m s. score_of q m = Some s \<Longrightarrow> first_timeout e \<le> s"
  shows "expire_inv X zs (e\<lparr>sort_set := q\<rparr>)"
proof -
  note i = expire_invD [OF assms(1)]
  show ?thesis
    by (rule expire_invI; unfold upd_fields) (fact i assms(2-) | rule assms(4-) i(6); assumption)+
qed

text \<open>The greatest score of a queue.\<close>

lemma max_score_eq:
  assumes "SortedSet_inv q" "score_of q \<noteq> Map.empty"
  shows "\<exists>k. SortedSet_back q = Some (k, SortedSet_max_score q) \<and> score_of q k = Some (SortedSet_max_score q)"
    and "score_of q m = Some s \<Longrightarrow> s \<le> SortedSet_max_score q"
proof -
  obtain k v where kv: "SortedSet_back q = Some (k, v)"
    using sq.rear_None [OF assms(1)] assms(2) by (cases "SortedSet_back q") auto
  then have max: "SortedSet_max_score q = v" by (simp add: SortedSet_max_score_def)
  show "\<exists>k. SortedSet_back q = Some (k, SortedSet_max_score q) \<and> score_of q k = Some (SortedSet_max_score q)"
    using kv max sq.rear_Some [OF assms(1) kv] by auto
  show "score_of q m = Some s \<Longrightarrow> s \<le> SortedSet_max_score q"
    using sq.rear_ge [OF assms(1) kv] max by auto
qed

subsection \<open>SetTTL\<close>

text \<open>The queue after the entry was added to it, and after the surplus was dropped.\<close>

lemma add_entry:
  fixes key :: string
  assumes q: "SortedSet_inv q" "card (dom (score_of q)) \<le> 1000" and ne: "score_of q \<noteq> Map.empty"
    and t: "t \<le> SortedSet_max_score q"
  defines "q1 \<equiv> snd (SortedSet_add key t q)"
  defines "q2 \<equiv> (if BATCH_SIZE < SortedSet_size q1 then snd (SortedSet_pop_back q1) else q1)"
  shows "SortedSet_inv q2" "card (dom (score_of q2)) \<le> 1000"
    and "score_of q2 m = Some s \<Longrightarrow> score_of q1 m = Some s"
    and "score_of q1 m = Some s \<Longrightarrow> score_of q2 k = Some v \<Longrightarrow> s < v \<Longrightarrow> score_of q2 m = Some s"
    and "score_of q2 k = Some v \<Longrightarrow> v \<le> SortedSet_max_score q"
proof -
  have q1: "SortedSet_inv q1" "score_of q1 = (score_of q)(key \<mapsto> t)"
    using sq.inv_add [OF q(1)] sq.lookup_add [OF q(1)] by (simp_all add: q1_def)
  have card1: "card (dom (score_of q1)) \<le> 1001" using sq.card_add [OF q(1), of key t] q(2) by (simp add: q1_def)
  have size1: "SortedSet_size q1 = int (card (dom (score_of q1)))"
    using sq.size_lookup [OF q1(1)] card1 by simp
  have max1: "v \<le> SortedSet_max_score q" if "score_of q1 k = Some v" for k v
    using that t max_score_eq(2) [OF q(1) ne] by (auto simp: q1(2) split: if_splits)
  obtain kb vb where b: "SortedSet_back q1 = Some (kb, vb)"
    using sq.rear_None [OF q1(1)] q1(2) by (cases "SortedSet_back q1") auto
  have pop: "score_of (snd (SortedSet_pop_back q1)) = (score_of q1)(kb := None)"
    using sq.pop_back_Some [OF q1(1) b] .
  have sub: "score_of q2 m = Some s \<Longrightarrow> score_of q1 m = Some s" for m s
    by (auto simp: q2_def pop split: if_splits)
  show "SortedSet_inv q2" using q1(1) sq.inv_pop_back by (simp add: q2_def)
  show "card (dom (score_of q2)) \<le> 1000"
    using sq.card_pop_back [OF q1(1) b] card1 size1 by (auto simp: q2_def BATCH_SIZE_def)
  show "score_of q2 m = Some s \<Longrightarrow> score_of q1 m = Some s" by (rule sub)
  show "score_of q2 k = Some v \<Longrightarrow> v \<le> SortedSet_max_score q" using sub max1 by blast
  show "score_of q2 m = Some s" if "score_of q1 m = Some s" "score_of q2 k = Some v" "s < v"
  proof (cases "BATCH_SIZE < SortedSet_size q1")
    case True
    have "m \<noteq> kb"
    proof
      assume "m = kb"
      then have "s = vb" using that(1) sq.rear_Some [OF q1(1) b] by simp
      then show False using sq.rear_ge [OF q1(1) b sub [OF that(2)]] that(3) by simp
    qed
    then show ?thesis using True that(1) by (simp add: q2_def pop)
  qed (use that in \<open>simp add: q2_def\<close>)
qed

definition SetTTL_queue :: "string \<Rightarrow> int64 \<Rightarrow> SortedSet \<Rightarrow> SortedSet" where
  "SetTTL_queue key t q =
     (if \<not> SortedSet_empty q \<and> t \<le> SortedSet_max_score q then
        let q1 = snd (SortedSet_add key t q)
        in if BATCH_SIZE < SortedSet_size q1 then snd (SortedSet_pop_back q1) else q1
      else snd (SortedSet_del key q))"

lemma SetTTL_eq:
  "SetTTL key t e = e\<lparr>first_timeout := min t (first_timeout e), sort_set := SetTTL_queue key t (sort_set e)\<rparr>"
  by (auto simp: SetTTL_def SetTTL_queue_def Let_def min_def)

text \<open>
  What it does to the queued times: the key gets the new time or none, the others keep theirs
  or lose them, and nothing is lost that is less than what is left.
\<close>

definition ttl_update :: "string \<Rightarrow> int64 \<Rightarrow> (string \<rightharpoonup> int64) \<Rightarrow> (string \<rightharpoonup> int64) \<Rightarrow> bool" where
  "ttl_update key t f g \<longleftrightarrow>
     (\<forall>j s. j \<noteq> key \<longrightarrow> g j = Some s \<longrightarrow> f j = Some s) \<and>
     (\<forall>s. g key = Some s \<longrightarrow> s = t) \<and>
     (\<forall>j s k v. j \<noteq> key \<longrightarrow> f j = Some s \<longrightarrow> g k = Some v \<longrightarrow> s < v \<longrightarrow> g j = Some s) \<and>
     (\<forall>k v. g k = Some v \<longrightarrow> t < v \<longrightarrow> g key = Some t) \<and>
     (\<forall>k v. g k = Some v \<longrightarrow> (\<exists>k0 v0. f k0 = Some v0 \<and> v \<le> v0))"

lemma ttl_updateD:
  assumes "ttl_update key t f g"
  shows "j \<noteq> key \<Longrightarrow> g j = Some s \<Longrightarrow> f j = Some s"
    "g key = Some s \<Longrightarrow> s = t"
    "j \<noteq> key \<Longrightarrow> f j = Some s \<Longrightarrow> g k = Some v \<Longrightarrow> s < v \<Longrightarrow> g j = Some s"
    "g k = Some v \<Longrightarrow> t < v \<Longrightarrow> g key = Some t"
    "g k = Some v \<Longrightarrow> \<exists>k0 v0. f k0 = Some v0 \<and> v \<le> v0"
  using assms unfolding ttl_update_def by blast+

lemma SetTTL_queue_update:
  assumes q: "SortedSet_inv q" "card (dom (score_of q)) \<le> 1000"
  shows "SortedSet_inv (SetTTL_queue key t q)" "card (dom (score_of (SetTTL_queue key t q))) \<le> 1000"
    and "ttl_update key t (score_of q) (score_of (SetTTL_queue key t q))"
proof -
  have empty: "SortedSet_empty q \<longleftrightarrow> score_of q = Map.empty"
    using sq.size_lookup [OF q(1)] q(2) sq.finite_lookup [OF q(1)] by (simp add: SortedSet_empty_def)
  have "SortedSet_inv (SetTTL_queue key t q) \<and> card (dom (score_of (SetTTL_queue key t q))) \<le> 1000 \<and>
      ttl_update key t (score_of q) (score_of (SetTTL_queue key t q))"
  proof (cases "score_of q \<noteq> Map.empty \<and> t \<le> SortedSet_max_score q")
    case True
    then have ne: "score_of q \<noteq> Map.empty" and le: "t \<le> SortedSet_max_score q" by auto
    note a = add_entry [OF q ne le, of key]
    define q2 where "q2 = SetTTL_queue key t q"
    have q2: "q2 = (if BATCH_SIZE < SortedSet_size (snd (SortedSet_add key t q))
        then snd (SortedSet_pop_back (snd (SortedSet_add key t q))) else snd (SortedSet_add key t q))"
      using True empty by (simp add: q2_def SetTTL_queue_def Let_def)
    have q1: "score_of (snd (SortedSet_add key t q)) = (score_of q)(key \<mapsto> t)" by (rule sq.lookup_add [OF q(1)])
    note b = a [folded q2, unfolded q1]
    have "ttl_update key t (score_of q) (score_of q2)"
      unfolding ttl_update_def
    proof (intro conjI allI impI)
      show "score_of q j = Some s" if "j \<noteq> key" "score_of q2 j = Some s" for j s
        using b(3) [OF that(2)] that(1) by simp
      show "s = t" if "score_of q2 key = Some s" for s using b(3) [OF that] by simp
      show "score_of q2 j = Some s"
        if "j \<noteq> key" "score_of q j = Some s" "score_of q2 k = Some v" "s < v" for j s k v
        using b(4) [of j s k v] that by simp
      show "score_of q2 key = Some t" if "score_of q2 k = Some v" "t < v" for k v
        using b(4) [of key t k v] that by simp
      show "\<exists>k0 v0. score_of q k0 = Some v0 \<and> v \<le> v0" if "score_of q2 k = Some v" for k v
        using b(5) [OF that] max_score_eq(1) [OF q(1) ne] by blast
    qed
    with b(1,2) show ?thesis by (simp add: q2_def)
  next
    case False
    then have eq: "SetTTL_queue key t q = snd (SortedSet_del key q)"
      using empty by (auto simp: SetTTL_queue_def)
    have low: "v < t" if "score_of q k = Some v" for k v
    proof -
      have "score_of q \<noteq> Map.empty" using that by auto
      then show ?thesis using False max_score_eq(2) [OF q(1) _ that] by auto
    qed
    have del: "score_of (snd (SortedSet_del key q)) = (score_of q)(key := None)" by (rule sq.lookup_del [OF q(1)])
    have "ttl_update key t (score_of q) ((score_of q)(key := None))"
      unfolding ttl_update_def by (auto split: if_splits dest: low)
    then show ?thesis using sq.inv_del [OF q(1)] sq.card_del [OF q(1), of key] q(2) by (simp add: eq del)
  qed
  then show "SortedSet_inv (SetTTL_queue key t q)" "card (dom (score_of (SetTTL_queue key t q))) \<le> 1000"
    "ttl_update key t (score_of q) (score_of (SetTTL_queue key t q))" by auto
qed

text \<open>
  Setting the time that is recorded, if one is, re-establishes the invariant for the key; any
  time keeps it for the other keys.
\<close>

lemma SetTTL_inv_other:
  assumes "expire_inv {key} zs e"
  shows "expire_inv {key} zs (SetTTL key t e)"
proof -
  note i = expire_invD [OF assms]
  note u = SetTTL_queue_update [OF i(1,5), of key t]
  note d = ttl_updateD [OF u(3)]
  show ?thesis
  proof (rule expire_invI)
    fix m s assume m: "m \<notin> {key}" "(s, m) \<in> pending zs"
    show "first_timeout (SetTTL key t e) \<le> s" using i(6) [OF m] by (simp add: SetTTL_eq min_def)
    fix k v assume "queued (SetTTL key t e) k = Some v" "s < v"
    then have k: "score_of (SetTTL_queue key t (sort_set e)) k = Some v" "s < v" by (simp_all add: SetTTL_eq)
    obtain k0 v0 where "queued e k0 = Some v0" "v \<le> v0" using d(5) [OF k(1)] by blast
    then have "queued e m = Some s" using i(7) [OF m] k(2) by (metis order_less_le_trans)
    then show "queued (SetTTL key t e) m = Some s" using d(3) [OF _ _ k] m(1) by (simp add: SetTTL_eq)
  next
    fix m s assume "m \<notin> {key}" "queued (SetTTL key t e) m = Some s"
    then show "zs m = None \<or> zs m = Some s" using d(1) [of m s] i(8) [of m s] by (simp add: SetTTL_eq)
  next
    fix m s assume "queued (SetTTL key t e) m = Some s"
    then show "first_timeout (SetTTL key t e) \<le> s"
      using d(1) [of m s] d(2) [of s] i(9) [of m s] by (cases "m = key") (auto simp: SetTTL_eq)
  qed (use i(1-5) u in \<open>simp_all add: SetTTL_eq\<close>)
qed

lemma SetTTL_inv:
  assumes "expire_inv {key} zs e" "zs key = None \<or> zs key = Some t"
  shows "expire_inv {} zs (SetTTL key t e)"
proof -
  note i = expire_invD [OF assms(1)]
  note d = ttl_updateD [OF SetTTL_queue_update(3) [OF i(1,5), of key t]]
  note o = expire_invD [OF SetTTL_inv_other [OF assms(1), of t]]
  show ?thesis
  proof (rule expire_invI)
    fix m s assume m: "(s, m) \<in> pending zs"
    have key: "m = key \<Longrightarrow> s = t" using m assms(2) by (auto simp: pending_iff)
    show "first_timeout (SetTTL key t e) \<le> s"
      using o(6) [OF _ m] key by (cases "m = key") (simp_all add: SetTTL_eq)
    fix k v assume k: "queued (SetTTL key t e) k = Some v" "s < v"
    show "queued (SetTTL key t e) m = Some s"
      using o(7) [OF _ m k] key d(4) [of k v] k by (cases "m = key") (simp_all add: SetTTL_eq)
  next
    fix m s assume m: "queued (SetTTL key t e) m = Some s"
    show "zs m = None \<or> zs m = Some s"
      using o(8) [OF _ m] d(2) [of s] m assms(2) by (cases "m = key") (auto simp: SetTTL_eq)
  qed (fact o)+
qed

text \<open>Changes of the recorded times.\<close>

lemma expire_inv_record:
  assumes "expire_inv X zs e" "\<And>m. m \<notin> X \<Longrightarrow> m \<notin> Y \<Longrightarrow> zs' m = zs m" "X \<subseteq> Y"
  shows "expire_inv Y zs' e"
proof -
  note i = expire_invD [OF assms(1)]
  have x: "m \<notin> Y \<Longrightarrow> m \<notin> X" "m \<notin> Y \<Longrightarrow> zs' m = zs m" for m using assms(2,3) by blast+
  then have p: "m \<notin> Y \<Longrightarrow> (s, m) \<in> pending zs' \<Longrightarrow> (s, m) \<in> pending zs" for s m by (simp add: pending_iff)
  show ?thesis
  proof (rule expire_invI)
    fix m s assume m: "m \<notin> Y" "(s, m) \<in> pending zs'"
    show "first_timeout e \<le> s" using i(6) [OF x(1) [OF m(1)] p [OF m]] .
    fix k v assume "queued e k = Some v" "s < v"
    then show "queued e m = Some s" by (rule i(7) [OF x(1) [OF m(1)] p [OF m]])
  next
    fix m s assume "m \<notin> Y" "queued e m = Some s"
    then show "zs' m = None \<or> zs' m = Some s" using i(8) [of m s] x by simp
  qed (fact i)+
qed

lemma expire_inv_forget:
  assumes "expire_inv X zs e" "\<And>m s. zs' m = Some s \<Longrightarrow> zs m = Some s"
  shows "expire_inv X zs' e"
proof -
  note i = expire_invD [OF assms(1)]
  have p: "(s, m) \<in> pending zs' \<Longrightarrow> (s, m) \<in> pending zs" for s m using assms(2) by (simp add: pending_iff)
  show ?thesis
  proof (rule expire_invI)
    fix m s assume "m \<notin> X" "queued e m = Some s"
    from i(8) [OF this] show "zs' m = None \<or> zs' m = Some s"
      using assms(2) [of m] by (cases "zs' m") auto
  next
    fix m s assume m: "m \<notin> X" "(s, m) \<in> pending zs'"
    show "first_timeout e \<le> s" using i(6) [OF m(1) p [OF m(2)]] .
    fix k v assume "queued e k = Some v" "s < v"
    then show "queued e m = Some s" by (rule i(7) [OF m(1) p [OF m(2)]])
  qed (fact i)+
qed

subsection \<open>Loading\<close>

lemma take_sorted_closed:
  fixes xs :: "'a::linorder list"
  assumes "sorted_wrt (<) xs" "x \<in> set (take n xs)" "y \<in> set xs" "y < x"
  shows "y \<in> set (take n xs)"
proof (rule ccontr)
  assume "y \<notin> set (take n xs)"
  then have "y \<in> set (drop n xs)" using assms(3) by (metis Un_iff append_take_drop_id set_append)
  moreover have "sorted_wrt (<) (take n xs @ drop n xs)" using assms(1) by simp
  ultimately have "x < y" using assms(2) unfolding sorted_wrt_append by blast
  then show False using assms(4) by simp
qed

lemma fold_add_inv:
  "SortedSet_inv q \<Longrightarrow> SortedSet_inv (fold (\<lambda>(s, m) q. snd (SortedSet_add m s q)) es q)"
  by (induction es arbitrary: q) (auto intro: sq.inv_add)

lemma fold_add_score:
  assumes "SortedSet_inv q" "\<And>s s' m. (s, m) \<in> set es \<Longrightarrow> (s', m) \<in> set es \<Longrightarrow> s = s'"
  shows "score_of (fold (\<lambda>(s, m) q. snd (SortedSet_add m s q)) es q) m = Some s \<longleftrightarrow>
    (s, m) \<in> set es \<or> ((\<forall>s'. (s', m) \<notin> set es) \<and> score_of q m = Some s)"
  using assms
proof (induction es arbitrary: q)
  case (Cons e es)
  obtain s1 m1 where e: "e = (s1, m1)" by fastforce
  let ?q = "snd (SortedSet_add m1 s1 q)"
  have q: "SortedSet_inv ?q" "score_of ?q = (score_of q)(m1 \<mapsto> s1)"
    using sq.inv_add [OF Cons.prems(1)] sq.lookup_add [OF Cons.prems(1)] by auto
  have IH: "score_of (fold (\<lambda>(s, m) q. snd (SortedSet_add m s q)) es ?q) m = Some s \<longleftrightarrow>
      (s, m) \<in> set es \<or> ((\<forall>s'. (s', m) \<notin> set es) \<and> score_of ?q m = Some s)"
    using Cons.prems(2) by (intro Cons.IH [OF q(1)]) auto
  show ?case
  proof (cases "m = m1")
    case True
    have "s' = s1" if "(s', m) \<in> set es" for s' using Cons.prems(2) [of s' m s1] that e True by simp
    then show ?thesis using IH e True by (auto simp: q(2))
  next
    case False
    then show ?thesis using IH e by (auto simp: q(2))
  qed
qed simp

lemma load_inv:
  assumes inv: "expire_inv {} zs e" and fin: "finite (pending zs)" and empty: "queued e = Map.empty"
  defines "q \<equiv> fold (\<lambda>(s, m) q. snd (SortedSet_add m s q)) (take 1000 (sorted_list_of_set (pending zs))) (sort_set e)"
  shows "expire_inv {} zs (e\<lparr>sort_set := q\<rparr>)"
    and "score_of q = Map.empty \<Longrightarrow> pending zs = {}"
    and "score_of q m = Some s \<Longrightarrow> (s, m) \<in> pending zs"
proof -
  let ?xs = "sorted_list_of_set (pending zs)"
  note i = expire_invD [OF inv]
  have mem: "(s, m) \<in> set (take 1000 ?xs) \<Longrightarrow> (s, m) \<in> pending zs" for s m
    using fin by (auto dest: in_set_takeD)
  have q: "score_of q m = Some s \<longleftrightarrow> (s, m) \<in> set (take 1000 ?xs)" for m s
    unfolding q_def using mem empty
    by (subst fold_add_score [OF i(1)]) (auto simp: pending_iff dest!: mem)
  show sub: "score_of q m = Some s \<Longrightarrow> (s, m) \<in> pending zs" for m s using q mem by simp
  have dom: "dom (score_of q) = snd ` set (take 1000 ?xs)" by (force simp: q)
  show "pending zs = {}" if "score_of q = Map.empty"
  proof -
    have "set (take 1000 ?xs) = {}" using dom that by simp
    then have "?xs = []" by (cases ?xs) auto
    then show ?thesis using fin by simp
  qed
  show "expire_inv {} zs (e\<lparr>sort_set := q\<rparr>)"
  proof (rule expire_inv_sort_set [OF inv])
    show "SortedSet_inv q" unfolding q_def by (rule fold_add_inv [OF i(1)])
    have "card (dom (score_of q)) \<le> length (take 1000 ?xs)"
      unfolding dom by (rule order_trans [OF card_image_le card_length]) simp
    then show "card (dom (score_of q)) \<le> 1000" by simp
    fix m s k v assume "(s, m) \<in> pending zs" "score_of q k = Some v" "s < v"
    then show "score_of q m = Some s"
      unfolding q using fin take_sorted_closed [OF strict_sorted_list_of_set, of "(v, k)" 1000 "pending zs" "(s, m)"]
      by simp
  next
    fix m s assume q: "score_of q m = Some s"
    then show "zs m = None \<or> zs m = Some s" using sub by (simp add: pending_iff)
    show "first_timeout e \<le> s" using i(6) [OF _ sub [OF q]] by simp
  qed
qed

subsection \<open>The loop\<close>

definition due :: "int64 \<Rightarrow> (string \<rightharpoonup> int64) \<Rightarrow> ExpireManager \<Rightarrow> string set" where
  "due now zs e = {m. (\<exists>s. (s, m) \<in> pending zs \<and> s \<le> now) \<or> (\<exists>s. queued e m = Some s \<and> s \<le> now)}"

text \<open>What deleting an expired key does to the contents.\<close>

definition expire_del :: "string \<Rightarrow> (string \<rightharpoonup> string) \<Rightarrow> string \<rightharpoonup> string" where
  "expire_del key c = zset_del ''expire'' key (c(key_kv key := None))"

definition ttl_inv :: "(string \<rightharpoonup> string) \<Rightarrow> ExpireManager \<Rightarrow> bool" where
  "ttl_inv c e \<longleftrightarrow> db_inv c \<and> c (key_zset ''expire'' []) = None \<and> expire_inv {} (zscore_of c ''expire'') e"

lemma zscore_of_expire_del: "zscore_of (expire_del key c) ''expire'' = (zscore_of c ''expire'')(key := None)"
  by (simp add: expire_del_def zscore_of_del)

lemma db_inv_expire_del: "db_inv c \<Longrightarrow> db_inv (expire_del key c)"
  unfolding db_inv_def expire_del_def by (auto intro!: inv_intros)

lemma pop_front_inv:
  assumes inv: "expire_inv {} zs e" and front: "SortedSet_front (sort_set e) = Some (key, score)"
  shows "expire_inv {} (zs(key := None)) (e\<lparr>sort_set := snd (SortedSet_pop_front (sort_set e))\<rparr>)"
proof -
  note i = expire_invD [OF inv]
  have pop: "score_of (snd (SortedSet_pop_front (sort_set e))) = (queued e)(key := None)"
    by (rule sq.pop_front_Some [OF i(1) front])
  have inv': "expire_inv {} (zs(key := None)) e"
    by (rule expire_inv_forget [OF inv]) (simp split: if_splits)
  note i' = expire_invD [OF inv']
  show ?thesis
  proof (rule expire_inv_sort_set [OF inv'])
    show "SortedSet_inv (snd (SortedSet_pop_front (sort_set e)))" by (rule sq.inv_pop_front [OF i(1)])
    show "card (dom (score_of (snd (SortedSet_pop_front (sort_set e))))) \<le> 1000"
      using sq.card_pop_front [OF i(1) front] i(5) by simp
  next
    fix m s k v
    assume m: "(s, m) \<in> pending (zs(key := None))"
      and k: "score_of (snd (SortedSet_pop_front (sort_set e))) k = Some v" "s < v"
    have "queued e k = Some v" using k(1) by (simp add: pop split: if_splits)
    then have "queued e m = Some s" using i'(7) [OF _ m] k(2) by simp
    moreover have "m \<noteq> key" using m by (auto simp: pending_iff)
    ultimately show "score_of (snd (SortedSet_pop_front (sort_set e))) m = Some s" by (simp add: pop)
  next
    fix m s assume "score_of (snd (SortedSet_pop_front (sort_set e))) m = Some s"
    then have q: "queued e m = Some s" by (simp add: pop split: if_splits)
    then show "(zs(key := None)) m = None \<or> (zs(key := None)) m = Some s" using i'(8) by simp
    show "first_timeout e \<le> s" by (rule i'(9) [OF q])
  qed
qed

lemma front_first:
  assumes inv: "expire_inv {} zs e" and front: "SortedSet_front (sort_set e) = Some (key, score)"
  shows "expire_inv {} zs (e\<lparr>first_timeout := score\<rparr>)"
    and "(s, m) \<in> pending zs \<Longrightarrow> score \<le> s" and "queued e m = Some s \<Longrightarrow> score \<le> s"
proof -
  note i = expire_invD [OF inv]
  show low: "queued e m = Some s \<Longrightarrow> score \<le> s" for m s by (rule sq.front_le [OF i(1) front])
  have key: "queued e key = Some score" using sq.front_Some [OF i(1) front] by simp
  show p: "score \<le> s" if "(s, m) \<in> pending zs" for m s
  proof (rule ccontr)
    assume "\<not> score \<le> s"
    then have "queued e m = Some s" using i(7) [OF _ that key] by simp
    with low show False using \<open>\<not> score \<le> s\<close> by blast
  qed
  show "expire_inv {} zs (e\<lparr>first_timeout := score\<rparr>)"
    by (rule expire_inv_first_timeout [OF inv]) (rule p low, assumption)+
qed

text \<open>The keys that are queued and have no recorded time.\<close>

definition stale :: "(string \<rightharpoonup> string) \<Rightarrow> ExpireManager \<Rightarrow> string set" where
  "stale c e = dom (queued e) - dom (zscore_of c ''expire'')"

text \<open>
  A turn either finds that nothing is due and sets the wake-up time past \<open>now\<close>, or deletes one
  key that is due.
\<close>

definition turn_ok ::
  "int64 \<Rightarrow> (string \<rightharpoonup> string) \<Rightarrow> ExpireManager \<Rightarrow> (string \<rightharpoonup> string) \<Rightarrow> ExpireManager \<Rightarrow> bool" where
  "turn_ok now c e c' e' \<longleftrightarrow> ttl_inv c' e' \<and> stale c' e' \<subseteq> stale c e \<and>
    (now < first_timeout e' \<and> c' = c \<and> due now (zscore_of c ''expire'') e = {} \<or>
     (\<exists>m \<in> due now (zscore_of c ''expire'') e. c' = expire_del m c \<and>
        due now (zscore_of c' ''expire'') e' = due now (zscore_of c ''expire'') e - {m}))"

context rocksdb_reliable
begin

lemma Expire_del_eq:
  assumes "dbp x = Some d" "contents d (key_zset ''expire'' []) = None"
  shows "\<exists>d' r1 r2 x1. xDataBase_Del ops key x = Some (r1, x1) \<and>
    xDataBase_Zdel ops ''expire'' key x1 = Some (r2, x\<lparr>dbp := Some d'\<rparr>) \<and>
    contents d' = expire_del key (contents d)"
proof -
  obtain d1 where d1: "xDataBase_Del ops key x = Some (db_ok, x\<lparr>dbp := Some d1\<rparr>)"
      "contents d1 = (contents d)(key_kv key := None)"
    using Del_eq [OF assms(1), of key] by auto
  let ?x1 = "x\<lparr>dbp := Some d1\<rparr>"
  have p1: "dbp ?x1 = Some d1" by simp
  show ?thesis
  proof (cases "contents d1 (key_zset ''expire'' key)")
    case None
    have "contents d1 = expire_del key (contents d)"
      using None by (simp add: d1(2) expire_del_def zset_del_def zscore_of_def)
    then show ?thesis using d1(1) Zdel_none [OF p1 None] by auto
  next
    case (Some sc)
    then have "key \<noteq> []" using assms(2) d1(2) by auto
    with Zdel_eq [OF p1 _ _ Some] obtain d2 where
      "xDataBase_Zdel ops ''expire'' key ?x1 = Some (db_ok, ?x1\<lparr>dbp := Some d2\<rparr>)"
      "contents d2 = zset_del ''expire'' key (contents d1)" by auto
    then show ?thesis using d1 by (auto simp: expire_del_def)
  qed
qed

lemma ExpireLoop_front_ok:
  assumes "dbp x = Some d" "ttl_inv (contents d) e" "queued e \<noteq> Map.empty"
  shows "\<exists>e' d'. ExpireLoop_front ops now e x = Some (e', x\<lparr>dbp := Some d'\<rparr>) \<and>
    turn_ok now (contents d) e (contents d') e'"
proof -
  let ?zs = "zscore_of (contents d) ''expire''"
  have inv: "expire_inv {} ?zs e" and db: "db_inv (contents d)" and nil: "contents d (key_zset ''expire'' []) = None"
    using assms(2) by (auto simp: ttl_inv_def)
  note i = expire_invD [OF inv]
  obtain key score where front: "SortedSet_front (sort_set e) = Some (key, score)"
    using sq.front_None [OF i(1)] assms(3) by (cases "SortedSet_front (sort_set e)") auto
  note f = front_first [OF inv front]
  let ?e = "e\<lparr>first_timeout := score\<rparr>"
  have key: "queued e key = Some score" using sq.front_Some [OF i(1) front] by simp
  show ?thesis
  proof (cases "score \<le> now")
    case False
    then have none: "due now ?zs e = {}" using f(2,3) unfolding due_def by fastforce
    have same: "x\<lparr>dbp := Some d\<rparr> = x" using assms(1) by simp
    have "ExpireLoop_front ops now e x = Some (?e, x\<lparr>dbp := Some d\<rparr>)"
      using False front same by (simp add: ExpireLoop_front_def Let_def)
    moreover have "ttl_inv (contents d) ?e" using f(1) db nil by (simp add: ttl_inv_def)
    ultimately show ?thesis using False none by (intro exI [of _ ?e] exI [of _ d]) (simp add: turn_ok_def stale_def)
  next
    case True
    let ?e' = "?e\<lparr>sort_set := snd (SortedSet_pop_front (sort_set e))\<rparr>"
    obtain d' r1 r2 x1 where d': "xDataBase_Del ops key x = Some (r1, x1)"
        "xDataBase_Zdel ops ''expire'' key x1 = Some (r2, x\<lparr>dbp := Some d'\<rparr>)"
        "contents d' = expire_del key (contents d)"
      using Expire_del_eq [OF assms(1) nil, of key] by blast
    have run: "ExpireLoop_front ops now e x = Some (?e', x\<lparr>dbp := Some d'\<rparr>)"
      using True front d'(1,2) i(2) by (simp add: ExpireLoop_front_def Let_def)
    have "expire_inv {} (?zs(key := None)) ?e'"
      using pop_front_inv [OF f(1)] front by simp
    moreover have "contents d' (key_zset ''expire'' []) = None"
      using nil by (auto simp: d'(3) expire_del_def zset_del_def split: option.split)
    ultimately have inv': "ttl_inv (contents d') ?e'"
      using db_inv_expire_del [OF db] by (simp add: ttl_inv_def d'(3) zscore_of_expire_del)
    have pop: "queued ?e' = (queued e)(key := None)"
      using sq.pop_front_Some [OF i(1) front] by simp
    have "due now (zscore_of (contents d') ''expire'') ?e' = due now ?zs e - {key}"
      unfolding due_def d'(3) zscore_of_expire_del pop by (auto simp: pending_iff)
    moreover have "key \<in> due now ?zs e" using key True by (auto simp: due_def)
    moreover have "stale (contents d') ?e' \<subseteq> stale (contents d) e"
      unfolding stale_def d'(3) zscore_of_expire_del pop by auto
    ultimately have "turn_ok now (contents d) e (contents d') ?e'"
      using inv' d'(3) unfolding turn_ok_def by blast
    with run show ?thesis by blast
  qed
qed

lemma ExpireLoop_ok:
  assumes "dbp x = Some d" "ttl_inv (contents d) e" "now < INT64_MAX"
  shows "\<exists>e' d'. ExpireLoop ops now e x = Some (e', x\<lparr>dbp := Some d'\<rparr>) \<and>
    turn_ok now (contents d) e (contents d') e'"
proof -
  let ?zs = "zscore_of (contents d) ''expire''"
  have inv: "expire_inv {} ?zs e" and db: "db_inv (contents d)" and nil: "contents d (key_zset ''expire'' []) = None"
    using assms(2) by (auto simp: ttl_inv_def)
  note i = expire_invD [OF inv]
  show ?thesis
  proof (cases "queued e = Map.empty")
    case False
    then show ?thesis using ExpireLoop_front_ok [OF assms(1,2)] empty_iff [OF inv] i(3)
      by (simp add: ExpireLoop_def)
  next
    case True
    define q where "q = fold (\<lambda>(s, m) q. snd (SortedSet_add m s q))
      (take 1000 (sorted_list_of_set (pending ?zs))) (sort_set e)"
    let ?e1 = "e\<lparr>sort_set := q\<rparr>"
    note l = load_inv [OF inv finite_zscore_of True, folded q_def]
    have load: "ExpireManager_LoadExpirationKeys ops BATCH_SIZE e x = Some ?e1"
      using Load_eq [OF assms(1), of "''expire''" "sort_set e" BATCH_SIZE] db i(2)
      by (simp add: ExpireManager_LoadExpirationKeys_def db_inv_def q_def BATCH_SIZE_def)
    have inv1: "ttl_inv (contents d) ?e1" using l(1) db nil by (simp add: ttl_inv_def)
    have due1: "due now ?zs ?e1 = due now ?zs e" using True l(3) by (auto simp: due_def)
    have stale1: "stale (contents d) ?e1 = {}" using l(3) by (auto simp: stale_def pending_iff)
    show ?thesis
    proof (cases "score_of q = Map.empty")
      case False
      then have "ExpireLoop ops now e x = ExpireLoop_front ops now ?e1 x"
        using empty_iff [OF inv] empty_iff [OF l(1)] True load i(3) by (simp add: ExpireLoop_def)
      then show ?thesis using ExpireLoop_front_ok [OF assms(1) inv1, of now] False
        unfolding turn_ok_def due1 stale1 by auto
    next
      case True
      let ?e2 = "?e1\<lparr>first_timeout := INT64_MAX\<rparr>"
      have none: "pending ?zs = {}" using l(2) [OF True] .
      have "expire_inv {} ?zs ?e2" by (rule expire_inv_first_timeout [OF l(1)]) (simp_all add: none True)
      then have "ttl_inv (contents d) ?e2" using db nil by (simp add: ttl_inv_def)
      moreover have "ExpireLoop ops now e x = Some (?e2, x\<lparr>dbp := Some d\<rparr>)"
        using empty_iff [OF inv] empty_iff [OF l(1)] True \<open>queued e = Map.empty\<close> load i(3) assms(1)
        by (simp add: ExpireLoop_def)
      moreover have "due now ?zs e = {}" using none \<open>queued e = Map.empty\<close> by (simp add: due_def)
      moreover have "stale (contents d) ?e2 = {}" using True by (simp add: stale_def)
      ultimately show ?thesis using assms(3) by (intro exI [of _ ?e2] exI [of _ d]) (simp add: turn_ok_def)
    qed
  qed
qed

end

lemma due_quiet:
  assumes "ttl_inv c e" "now < first_timeout e"
  shows "due now (zscore_of c ''expire'') e = {}"
proof -
  note i = expire_invD [OF assms(1) [unfolded ttl_inv_def, THEN conjunct2, THEN conjunct2]]
  have "\<not> s \<le> now" if "(s, m) \<in> pending (zscore_of c ''expire'')" for s m
    using i(6) [OF _ that] assms(2) by simp
  moreover have "\<not> s \<le> now" if "queued e m = Some s" for s m using i(9) [OF that] assms(2) by simp
  ultimately show ?thesis by (auto simp: due_def)
qed

text \<open>
  Some turns delete some of the keys that are due and nothing else; more turns than there are
  such keys delete all of them, and the thread then sleeps.
\<close>

definition deleted :: "string set \<Rightarrow> (string \<rightharpoonup> string) \<Rightarrow> (string \<rightharpoonup> string) \<Rightarrow> bool" where
  "deleted D c c' \<longleftrightarrow> (\<forall>m. c' (key_kv m) = (if m \<in> D then None else c (key_kv m)) \<and>
     c' (key_zset ''expire'' m) = (if m \<in> D then None else c (key_zset ''expire'' m)))"

lemma deleted_one: "deleted {m} c (expire_del m c)"
  by (auto simp: deleted_def expire_del_def zset_del_def zscore_of_def split: option.split)

lemma deleted_step: "deleted D c c' \<Longrightarrow> deleted D' c' c'' \<Longrightarrow> deleted (D \<union> D') c c''"
  by (simp add: deleted_def)

lemma deleted_none: "deleted {} c c"
  by (simp add: deleted_def)

context rocksdb_reliable
begin

lemma finite_due: "ttl_inv (contents d) e \<Longrightarrow> finite (due now (zscore_of (contents d) ''expire'') e)"
proof -
  assume "ttl_inv (contents d) e"
  then have "SortedSet_inv (sort_set e)" by (simp add: ttl_inv_def expire_inv_def)
  then have "finite (snd ` pending (zscore_of (contents d) ''expire'') \<union> dom (queued e))"
    using finite_zscore_of sq.finite_lookup by blast
  then show ?thesis by (rule rev_finite_subset) (force simp: due_def)
qed

lemma Dispatch_quiet: "now < first_timeout e \<Longrightarrow> Dispatch ops now n e x = Some (e, x)"
  by (induction n) (simp_all add: Dispatch_turn_def)

lemma Dispatch_ok:
  assumes "dbp x = Some d" "ttl_inv (contents d) e" "now < INT64_MAX"
  shows "\<exists>e' d' D. Dispatch ops now turns e x = Some (e', x\<lparr>dbp := Some d'\<rparr>) \<and> ttl_inv (contents d') e' \<and>
    stale (contents d') e' \<subseteq> stale (contents d) e \<and> deleted D (contents d) (contents d') \<and>
    D \<subseteq> due now (zscore_of (contents d) ''expire'') e \<and>
    (card (due now (zscore_of (contents d) ''expire'') e) < turns \<longrightarrow>
       D = due now (zscore_of (contents d) ''expire'') e \<and> now < first_timeout e')"
  using assms
proof (induction turns arbitrary: e x d)
  case 0
  have "x\<lparr>dbp := Some d\<rparr> = x" using 0 by simp
  then show ?case using 0 by (intro exI [of _ e] exI [of _ d] exI [of _ "{}"]) (simp add: deleted_none)
next
  case (Suc turns)
  let ?due = "due now (zscore_of (contents d) ''expire'') e"
  have brun: "brun e" using Suc.prems(2) by (simp add: ttl_inv_def expire_inv_def)
  have same: "x\<lparr>dbp := Some d\<rparr> = x" using Suc.prems(1) by simp
  show ?case
  proof (cases "now < first_timeout e")
    case True
    then show ?thesis using due_quiet [OF Suc.prems(2) True] Dispatch_quiet [OF True] same Suc.prems(2)
      by (intro exI [of _ e] exI [of _ d] exI [of _ "{}"]) (simp add: Dispatch_turn_def deleted_none)
  next
    case False
    then have turn: "Dispatch_turn ops now e x = ExpireLoop ops now e x"
      using brun by (simp add: Dispatch_turn_def)
    from ExpireLoop_ok [OF Suc.prems] obtain e1 d1 where
      1: "ExpireLoop ops now e x = Some (e1, x\<lparr>dbp := Some d1\<rparr>)" and ok: "turn_ok now (contents d) e (contents d1) e1" by blast
    have inv1: "ttl_inv (contents d1) e1" and st: "stale (contents d1) e1 \<subseteq> stale (contents d) e"
      and 2: "now < first_timeout e1 \<and> contents d1 = contents d \<and> ?due = {} \<or>
        (\<exists>m \<in> ?due. contents d1 = expire_del m (contents d) \<and>
          due now (zscore_of (contents d1) ''expire'') e1 = ?due - {m})"
      using ok unfolding turn_ok_def by blast+
    from 2 show ?thesis
    proof
      assume q: "now < first_timeout e1 \<and> contents d1 = contents d \<and> ?due = {}"
      then show ?thesis using 1 turn Dispatch_quiet [of now e1] inv1 st
        by (intro exI [of _ e1] exI [of _ d1] exI [of _ "{}"]) (simp add: deleted_none)
    next
      assume "\<exists>m \<in> ?due. contents d1 = expire_del m (contents d) \<and>
          due now (zscore_of (contents d1) ''expire'') e1 = ?due - {m}"
      then obtain m where m: "m \<in> ?due" "contents d1 = expire_del m (contents d)"
          "due now (zscore_of (contents d1) ''expire'') e1 = ?due - {m}" by blast
      have card: "card (?due - {m}) < card ?due"
        by (rule card_Diff1_less [OF finite_due [OF Suc.prems(2)] m(1)])
      from Suc.IH [of "x\<lparr>dbp := Some d1\<rparr>" d1 e1, OF _ inv1 Suc.prems(3)] obtain e' d' D where
        3: "Dispatch ops now turns e1 (x\<lparr>dbp := Some d1\<rparr>) = Some (e', x\<lparr>dbp := Some d'\<rparr>)"
          "ttl_inv (contents d') e'" "stale (contents d') e' \<subseteq> stale (contents d1) e1"
          "deleted D (contents d1) (contents d')" "D \<subseteq> ?due - {m}"
          "card (?due - {m}) < turns \<longrightarrow> D = ?due - {m} \<and> now < first_timeout e'"
        unfolding m(3) by auto
      have "deleted ({m} \<union> D) (contents d) (contents d')"
        using deleted_step [OF deleted_one 3(4) [unfolded m(2)]] .
      moreover have "{m} \<union> D \<subseteq> ?due" using m(1) 3(5) by blast
      moreover have "card ?due < Suc turns \<longrightarrow> {m} \<union> D = ?due \<and> now < first_timeout e'"
        using card 3(6) m(1) by auto
      moreover have "stale (contents d') e' \<subseteq> stale (contents d) e" using 3(3) st by blast
      moreover have "Dispatch ops now (Suc turns) e x = Some (e', x\<lparr>dbp := Some d'\<rparr>)" using 1 turn 3(1) by simp
      ultimately show ?thesis using 3(2) by blast
    qed
  qed
qed

end

subsection \<open>Callers of SetTTL\<close>

lemma ttl_inv_plain:
  "ttl_inv c e \<Longrightarrow> ttl_inv (c(key_kv k \<mapsto> stamped ts val)) e"
  "ttl_inv c e \<Longrightarrow> ttl_inv (c(key_kv k := None)) e"
  by (auto simp: ttl_inv_def db_inv_def intro!: inv_intros)

lemma ttl_inv_empty: "ttl_inv c e \<Longrightarrow> ttl_inv Map.empty e"
  unfolding ttl_inv_def
  by (auto simp: db_inv_empty zscore_of_def intro: expire_inv_forget)

lemma ttl_inv_SetTTL:
  assumes "ttl_inv c e" "zscore_of c ''expire'' m = None \<or> zscore_of c ''expire'' m = Some t"
  shows "ttl_inv c (SetTTL m t e)"
  using assms expire_inv_mono [of "{}" "zscore_of c ''expire''" e "{m}"] SetTTL_inv [of m "zscore_of c ''expire''" e t]
  by (simp add: ttl_inv_def)

lemma ttl_inv_zset_SetTTL:
  assumes "db_inv c" "c (key_zset ''expire'' []) = None" "expire_inv {m} (zscore_of c ''expire'') e" "m \<noteq> []"
  shows "ttl_inv (zset_put ''expire'' m sc c) (SetTTL m (str_to_int64 sc) e)"
proof -
  let ?zs = "(zscore_of c ''expire'')(m \<mapsto> str_to_int64 sc)"
  have "expire_inv {m} ?zs e" by (rule expire_inv_record [OF assms(3)]) auto
  then have "expire_inv {} ?zs (SetTTL m (str_to_int64 sc) e)" by (rule SetTTL_inv) simp
  moreover have "db_inv (zset_put ''expire'' m sc c)" using assms(1) unfolding db_inv_def by (auto intro!: inv_intros)
  moreover have "zset_put ''expire'' m sc c (key_zset ''expire'' []) = None"
    using assms(2,4) by (simp add: zset_put_def split: option.split)
  ultimately show ?thesis by (simp add: ttl_inv_def zscore_of_put)
qed

lemma ttl_inv_new: "ttl_inv Map.empty (snd (ExpireManager_Init True ExpireManager_new))"
proof -
  have "score_of SortedSet_new = Map.empty" by (simp add: fun_eq_iff score_of_def SortedSet_new_def)
  moreover have "zscore_of Map.empty ''expire'' = Map.empty" by (simp add: fun_eq_iff zscore_of_def)
  ultimately show ?thesis
    unfolding ttl_inv_def ExpireManager_Init_def ExpireManager_new_def
    by (auto simp: db_inv_empty pending_def SortedSet_inv_new intro!: expire_invI)
qed

end
