(* ===== verification/Xhc_RedisLib.thy ===== *)
theory Xhc_RedisLib
  imports Xhc_Util
begin


text \<open>
  \<open>common/xRedisServerLib.cpp\<close>: the server side of the Redis protocol. Bytes of a connection are
  collected in \<open>cmdbuffer\<close>; \<open>ProcessCmd\<close> parses one command out of it, across calls when it
  arrives in pieces, runs its callback and drops its bytes.

  A connector's record holds the fields of the class, the bytes waiting in the input buffer of
  its \<open>bufferevent\<close> (\<open>in_buf\<close>) and the bytes written to it (\<open>out_buf\<close>). The array \<open>argv\<close> is
  \<^const>\<open>None\<close> for a null pointer, and \<open>argc\<close> is its length. A callback takes the arguments and
  the state \<open>'s\<close> of the server and returns the new state and what it wrote. Buffers are assumed
  to be shorter than 2 GB, and allocations of less than half of the address space to succeed.

  The lemmas show that the parser is insensitive to how the bytes are cut into pieces and that
  it runs exactly the commands that were encoded.
\<close>

section \<open>Definitions\<close>

definition TIMEOUT_CLOSE :: int where "TIMEOUT_CLOSE = 3600"
definition CMD_CALLBACK_MAX :: nat where "CMD_CALLBACK_MAX = 64"

record xRedisConnectorBase =
  argv :: "string list option"
  argnum :: int
  parsed :: nat
  cmdbuffer :: string
  activetime :: u32
  sid :: u32
  in_buf :: string
  out_buf :: string

definition xRedisConnectorBase_new :: "u32 \<Rightarrow> u32 \<Rightarrow> xRedisConnectorBase" where
  "xRedisConnectorBase_new now sd =
     \<lparr>argv = None, argnum = 0, parsed = 0, cmdbuffer = [], activetime = now, sid = sd, in_buf = [], out_buf = []\<rparr>"

definition FreeArg :: "xRedisConnectorBase \<Rightarrow> xRedisConnectorBase" where
  "FreeArg c = c\<lparr>cmdbuffer := drop (parsed c) (cmdbuffer c), argv := None, argnum := 0, parsed := 0\<rparr>"

definition OnTimer :: "int \<Rightarrow> xRedisConnectorBase \<Rightarrow> bool" where
  "OnTimer now c \<longleftrightarrow> \<not> (now - uint (activetime c) > TIMEOUT_CLOSE)"

subsection \<open>Replies\<close>

text \<open>
  \<open>vsnprintf\<close> into 256 bytes, then a write of as many bytes as the text has: with 256 bytes of
  text the last byte written is the terminating NUL, with more the write reads past the buffer.
\<close>

definition NetPrintf :: "string \<Rightarrow> string ub" where
  "NetPrintf s =
     (if length s \<le> 255 then Some s
      else if length s = 256 then Some (take 255 s @ [NUL])
      else None)"

definition SendStatusReply :: "string \<Rightarrow> string ub" where
  "SendStatusReply s = NetPrintf (''+'' @ c_str s @ CRLF)"

definition SendNullReply :: "string ub" where
  "SendNullReply = NetPrintf (''$-1'' @ CRLF)"

definition SendErrReply :: "string \<Rightarrow> string \<Rightarrow> string ub" where
  "SendErrReply errtype errmsg = NetPrintf (''-'' @ c_str errtype @ '' '' @ c_str errmsg @ CRLF)"

definition SendIntReply :: "int64 \<Rightarrow> string ub" where
  "SendIntReply ret = NetPrintf ('':'' @ dec_int ret @ CRLF)"

definition SendBulkReply :: "string \<Rightarrow> string ub" where
  "SendBulkReply strResult = do {
     h \<leftarrow> NetPrintf (''$'' @ dec_nat (length strResult) @ CRLF);
     Some (h @ strResult @ CRLF)
   }"

primrec SendBulkReplies :: "string list \<Rightarrow> string ub" where
  "SendBulkReplies [] = Some []"
| "SendBulkReplies (r # rs) = do {
     b \<leftarrow> SendBulkReply r;
     bs \<leftarrow> SendBulkReplies rs;
     Some (b @ bs)
   }"

definition SendMultiBulkReply :: "string list \<Rightarrow> string ub" where
  "SendMultiBulkReply vResult = do {
     h \<leftarrow> NetPrintf (''*'' @ dec_nat (length vResult) @ CRLF);
     bs \<leftarrow> SendBulkReplies vResult;
     Some (h @ bs)
   }"

subsection \<open>The command table\<close>

type_synonym 's callback = "string list \<Rightarrow> 's \<Rightarrow> ('s \<times> string) ub"
type_synonym 's cmd_table = "(string \<times> 's callback) list"

definition SetCmdTable :: "string \<Rightarrow> 's callback \<Rightarrow> 's cmd_table \<Rightarrow> bool \<times> 's cmd_table" where
  "SetCmdTable cmd cb tbl =
     (if CMD_CALLBACK_MAX \<le> length tbl then (False, tbl) else (True, tbl @ [(cmd, cb)]))"

text \<open>
  The search ends at the first entry without a name; a full table has none, and the search runs
  past it.
\<close>

definition GetCmdProcessFun :: "string \<Rightarrow> 's cmd_table \<Rightarrow> 's callback option ub" where
  "GetCmdProcessFun cmd tbl =
     (case List.find (\<lambda>(name, _). strcasecmp_eq name cmd) tbl of
        Some (_, cb) \<Rightarrow> Some (Some cb)
      | None \<Rightarrow> if CMD_CALLBACK_MAX \<le> length tbl then None else Some None)"

text \<open>The callback of a command, or the error reply.\<close>

definition run_cmd :: "'s cmd_table \<Rightarrow> string list \<Rightarrow> 's \<Rightarrow> ('s \<times> string) ub" where
  "run_cmd tbl args s =
     (case args of
        [] \<Rightarrow> None
      | name # _ \<Rightarrow> do {
          cmd \<leftarrow> GetCmdProcessFun name tbl;
          case cmd of
            Some cb \<Rightarrow> cb args s
          | None \<Rightarrow> do { out \<leftarrow> SendErrReply name ''not suport''; Some (s, out) }
        })"

definition DoCmd :: "'s cmd_table \<Rightarrow> xRedisConnectorBase \<Rightarrow> 's \<Rightarrow> (xRedisConnectorBase \<times> 's) ub" where
  "DoCmd tbl c s = do {
     args \<leftarrow> argv c;
     (s, out) \<leftarrow> run_cmd tbl args s;
     Some (FreeArg (c\<lparr>out_buf := out_buf c @ out\<rparr>), s)
   }"

subsection \<open>Parsing\<close>

definition first_char :: "string \<Rightarrow> char" where
  "first_char ptr = (case ptr of [] \<Rightarrow> NUL | ch # _ \<Rightarrow> ch)"

text \<open>
  The eleven bytes of \<open>tmp\<close> after the loop: the characters before the line feed at their
  positions, carriage returns left out. A character past the end is a write outside of \<open>tmp\<close>.
\<close>

definition parase_tmp :: "string \<Rightarrow> string ub" where
  "parase_tmp line =
     (if \<forall>ch \<in> set (drop 11 line). ch = CR
      then Some (map (\<lambda>i. if i < length line \<and> line ! i \<noteq> CR then line ! i else NUL) [0..<11])
      else None)"

text \<open>\<open>strtol\<close> runs past \<open>tmp\<close> when all of it is white space, a sign and digits.\<close>

definition strtol_overrun :: "string \<Rightarrow> bool" where
  "strtol_overrun tmp =
     (let s1 = dropWhile isspace tmp;
          s2 = (if s1 \<noteq> [] \<and> (hd s1 = CHR ''-'' \<or> hd s1 = CHR ''+'') then tl s1 else s1)
      in dropWhile isdigit s2 = [])"

text \<open>The return value and \<open>head_count\<close>, which the callers initialise with 0.\<close>

definition ParaseLength :: "string \<Rightarrow> (nat \<times> int) ub" where
  "ParaseLength ptr =
     (if LF \<notin> set ptr then Some (0, 0)
      else if LF \<notin> set (tl ptr) then None
      else do {
        let line = takeWhile (\<lambda>ch. ch \<noteq> LF) (tl ptr);
        tmp \<leftarrow> parase_tmp line;
        if strtol_overrun tmp then None
        else let head_count = wrap32 (fst (strtol tmp))
             in if head_count = 0 then Some (0, 0) else Some (length line + 2, head_count)
      })"

text \<open>
  \<open>len + 2\<close> must not overflow; a negative length passes the check of the size and makes
  \<open>sdsnewlen\<close> copy past everything.
\<close>

definition ParaseData :: "string \<Rightarrow> xRedisConnectorBase \<Rightarrow> (nat \<times> xRedisConnectorBase) ub" where
  "ParaseData ptr c =
     (if first_char ptr \<noteq> CHR ''$'' then Some (0, c)
      else do {
        (ret, len) \<leftarrow> ParaseLength ptr;
        if ret = 0 then Some (0, c)
        else if len + 2 > INT_MAX then None
        else if int (length (drop ret ptr)) < len + 2 then Some (0, c)
        else if len < 0 then None
        else do {
          av \<leftarrow> argv c;
          Some (ret + nat len + 2, c\<lparr>argv := Some (av @ [take (nat len) (drop ret ptr)]), argnum := argnum c - 1\<rparr>)
        }
      })"

text \<open>\<open>ptr\<close> always points \<open>parsed\<close> bytes into the buffer.\<close>

abbreviation unparsed :: "xRedisConnectorBase \<Rightarrow> string" where
  "unparsed c \<equiv> drop (parsed c) (cmdbuffer c)"

definition sds_array_malloc :: "int \<Rightarrow> string list option" where
  "sds_array_malloc num = (if (8 * num) mod 2 ^ 64 < 2 ^ 63 then Some [] else None)"

text \<open>
  The header \<open>*<number>\<close>. \<open>Some None\<close> is the early return of \<open>false\<close>. Where \<open>argv\<close> is still set
  the code frees it and goes on with pointers into the buffer it has changed.
\<close>

definition ProcessCmd_head :: "xRedisConnectorBase \<Rightarrow> xRedisConnectorBase option ub" where
  "ProcessCmd_head c =
     (if argnum c = 0 then
        if first_char (unparsed c) = CHR ''*'' then do {
          (pos, num) \<leftarrow> ParaseLength (unparsed c);
          if pos = 0 then Some None
          else if argv c \<noteq> None then None
          else Some (Some (c\<lparr>parsed := parsed c + pos, argnum := num, argv := sds_array_malloc num\<rparr>))
        } else Some None
      else Some (Some c))"

lemma ParaseData_argnum: "ParaseData ptr c = Some (p, c') \<Longrightarrow> p \<noteq> 0 \<Longrightarrow> argnum c' = argnum c - 1"
  by (auto simp: ParaseData_def split: if_splits bind_splits)

function ProcessCmd_loop :: "xRedisConnectorBase \<Rightarrow> xRedisConnectorBase ub" where
  "ProcessCmd_loop c =
     (if 0 < argnum c then
        case ParaseData (unparsed c) c of
          None \<Rightarrow> None
        | Some (p, c') \<Rightarrow> if p = 0 then Some c' else ProcessCmd_loop (c'\<lparr>parsed := parsed c' + p\<rparr>)
      else Some c)"
  by auto
termination by (relation "measure (\<lambda>c. nat (argnum c))") (auto dest: ParaseData_argnum)

definition ProcessCmd ::
  "'s cmd_table \<Rightarrow> u32 \<Rightarrow> xRedisConnectorBase \<Rightarrow> 's \<Rightarrow> (bool \<times> xRedisConnectorBase \<times> 's) ub" where
  "ProcessCmd tbl now c s =
     (let c = c\<lparr>activetime := now\<rparr>
      in if cmdbuffer c = [] then Some (False, c, s)
         else do {
           h \<leftarrow> ProcessCmd_head c;
           case h of
             None \<Rightarrow> Some (False, c, s)
           | Some c \<Rightarrow> do {
               c \<leftarrow> ProcessCmd_loop c;
               if argnum c = 0 then do { (c, s) \<leftarrow> DoCmd tbl c s; Some (True, c, s) }
               else Some (False, c, s)
             }
         })"


lemma bind_const_None [simp]: "Option.bind x (\<lambda>_. None) = None"
  by (cases x) auto

lemma ProcessCmd_loop_facts:
  "ProcessCmd_loop c = Some c' \<Longrightarrow>
     cmdbuffer c' = cmdbuffer c \<and> parsed c \<le> parsed c' \<and> (argnum c' \<noteq> argnum c \<longrightarrow> parsed c < parsed c') \<and>
     (argnum c < 0 \<longrightarrow> c' = c) \<and> activetime c' = activetime c \<and> sid c' = sid c \<and>
     in_buf c' = in_buf c \<and> out_buf c' = out_buf c"
proof (induction c rule: ProcessCmd_loop.induct)
  case (1 c)
  show ?case
  proof (cases "0 < argnum c")
    case pos: True
    then obtain p c1 where r: "ParaseData (unparsed c) c = Some (p, c1)"
      using 1(2) by (subst (asm) ProcessCmd_loop.simps) (auto split: option.splits)
    have c1: "cmdbuffer c1 = cmdbuffer c" "parsed c1 = parsed c" "p = 0 \<longrightarrow> c1 = c"
      "activetime c1 = activetime c" "sid c1 = sid c" "in_buf c1 = in_buf c" "out_buf c1 = out_buf c"
      using r by (auto simp: ParaseData_def split: if_splits bind_splits)
    show ?thesis
    proof (cases "p = 0")
      case True
      then show ?thesis using 1(2) r pos c1 by (subst (asm) ProcessCmd_loop.simps) simp
    next
      case False
      then have "ProcessCmd_loop (c1\<lparr>parsed := parsed c1 + p\<rparr>) = Some c'"
        using 1(2) r pos by (subst (asm) ProcessCmd_loop.simps) simp
      from 1(1)[OF pos r refl False this] c1 pos False show ?thesis by auto
    qed
  qed (use 1(2) in \<open>subst (asm) ProcessCmd_loop.simps, simp\<close>)
qed

declare ProcessCmd_loop.simps [simp del]

lemma ProcessCmd_True_shorter:
  assumes "ProcessCmd tbl now c s = Some (True, c', s')"
  shows "length (cmdbuffer c') < length (cmdbuffer c)"
proof -
  obtain c1 c2 where h: "ProcessCmd_head (c\<lparr>activetime := now\<rparr>) = Some (Some c1)" and ne: "cmdbuffer c \<noteq> []"
    and l: "ProcessCmd_loop c1 = Some c2" and z: "argnum c2 = 0" and d: "DoCmd tbl c2 s = Some (c', s')"
    using assms by (auto simp: ProcessCmd_def Let_def split: bind_splits if_splits option.splits)
  have c1: "cmdbuffer c1 = cmdbuffer c" "argnum c1 \<noteq> 0 \<or> 0 < parsed c1"
    using h by (auto simp: ProcessCmd_head_def split: bind_splits if_splits)
  have "cmdbuffer c2 = cmdbuffer c" "0 < parsed c2"
    using ProcessCmd_loop_facts[OF l] c1 z by (auto)
  moreover have "cmdbuffer c' = drop (parsed c2) (cmdbuffer c2)"
    using d by (auto simp: DoCmd_def FreeArg_def split: bind_splits)
  ultimately show ?thesis using ne by simp
qed

function ReadCallback_loop ::
  "'s cmd_table \<Rightarrow> u32 \<Rightarrow> xRedisConnectorBase \<Rightarrow> 's \<Rightarrow> (xRedisConnectorBase \<times> 's) ub" where
  "ReadCallback_loop tbl now c s =
     (case ProcessCmd tbl now c s of
        None \<Rightarrow> None
      | Some (again, c', s') \<Rightarrow> if again then ReadCallback_loop tbl now c' s' else Some (c', s'))"
  by pat_completeness auto
termination
  by (relation "measure (\<lambda>(tbl, now, c, s). length (cmdbuffer c))") (auto dest: ProcessCmd_True_shorter)

declare ReadCallback_loop.simps [simp del]

text \<open>Bytes that have arrived are moved to \<open>cmdbuffer\<close> unless there is only one of them.\<close>

definition ReadCallback ::
  "'s cmd_table \<Rightarrow> u32 \<Rightarrow> xRedisConnectorBase \<Rightarrow> 's \<Rightarrow> (xRedisConnectorBase \<times> 's) ub" where
  "ReadCallback tbl now c s =
     (let c = (if length (in_buf c) < 2 then c
               else c\<lparr>cmdbuffer := cmdbuffer c @ in_buf c, in_buf := []\<rparr>)
      in if cmdbuffer c = [] then Some (c, s) else ReadCallback_loop tbl now c s)"

text \<open>libevent appends what it has read to the input buffer and calls \<open>ReadCallback\<close>.\<close>

definition receive ::
  "'s cmd_table \<Rightarrow> u32 \<Rightarrow> xRedisConnectorBase \<times> 's \<Rightarrow> string \<Rightarrow> (xRedisConnectorBase \<times> 's) ub" where
  "receive tbl now cs bytes = (case cs of (c, s) \<Rightarrow> ReadCallback tbl now (c\<lparr>in_buf := in_buf c @ bytes\<rparr>) s)"

subsection \<open>Connections\<close>

text \<open>
  Connector objects are numbered in the order of their creation; \<open>heap\<close> holds those that are
  not deleted. \<open>connectionmap\<close> maps session numbers to objects.
\<close>

record 's xRedisServerBase =
  heap :: "nat \<Rightarrow> xRedisConnectorBase option"
  created :: nat
  connectionmap :: "u32 \<Rightarrow> nat option"
  sessionbase :: u32
  mCmdTables :: "'s cmd_table"
  app :: 's

definition xRedisServerBase_new :: "'s \<Rightarrow> 's xRedisServerBase" where
  "xRedisServerBase_new s =
     \<lparr>heap = Map.empty, created = 0, connectionmap = Map.empty, sessionbase = 1000, mCmdTables = [], app = s\<rparr>"

text \<open>\<open>std::map::insert\<close> leaves an existing entry as it is.\<close>

definition MallocConnection :: "u32 \<Rightarrow> 's xRedisServerBase \<Rightarrow> 's xRedisServerBase" where
  "MallocConnection now srv =
     srv\<lparr>heap := (heap srv)(created srv \<mapsto> xRedisConnectorBase_new now (sessionbase srv)),
         created := created srv + 1,
         sessionbase := sessionbase srv + 1,
         connectionmap := (case connectionmap srv (sessionbase srv) of
                             None \<Rightarrow> (connectionmap srv)(sessionbase srv \<mapsto> created srv)
                           | Some _ \<Rightarrow> connectionmap srv)\<rparr>"

definition FindConnection :: "u32 \<Rightarrow> 's xRedisServerBase \<Rightarrow> nat option" where
  "FindConnection sd srv = connectionmap srv sd"

text \<open>Freeing an object a second time is undefined.\<close>

definition FreeConnection :: "u32 \<Rightarrow> 's xRedisServerBase \<Rightarrow> (bool \<times> 's xRedisServerBase) ub" where
  "FreeConnection sd srv =
     (case connectionmap srv sd of
        None \<Rightarrow> Some (False, srv)
      | Some a \<Rightarrow>
          if heap srv a = None then None
          else Some (True, srv\<lparr>heap := (heap srv)(a := None), connectionmap := (connectionmap srv)(sd := None)\<rparr>))"

definition AcceptCallback :: "int \<Rightarrow> u32 \<Rightarrow> 's xRedisServerBase \<Rightarrow> 's xRedisServerBase" where
  "AcceptCallback fd now srv = (if fd < 0 then srv else MallocConnection now srv)"

text \<open>The other callbacks have the address of a connector as their argument.\<close>

definition TimeoutCallback :: "int \<Rightarrow> nat \<Rightarrow> 's xRedisServerBase \<Rightarrow> 's xRedisServerBase ub" where
  "TimeoutCallback now a srv = do {
     c \<leftarrow> heap srv a;
     if OnTimer now c then Some srv else map_option snd (FreeConnection (sid c) srv)
   }"

definition ErrorCallback :: "nat \<Rightarrow> 's xRedisServerBase \<Rightarrow> 's xRedisServerBase ub" where
  "ErrorCallback a srv = do {
     c \<leftarrow> heap srv a;
     map_option snd (FreeConnection (sid c) srv)
   }"

definition ReadEvent :: "u32 \<Rightarrow> nat \<Rightarrow> string \<Rightarrow> 's xRedisServerBase \<Rightarrow> 's xRedisServerBase ub" where
  "ReadEvent now a bytes srv = do {
     c \<leftarrow> heap srv a;
     (c, s) \<leftarrow> receive (mCmdTables srv) now (c, app srv) bytes;
     Some (srv\<lparr>heap := (heap srv)(a \<mapsto> c), app := s\<rparr>)
   }"


section \<open>Lemmas\<close>

subsection \<open>Parsing a prefix of the input\<close>

abbreviation pushed :: "xRedisConnectorBase \<Rightarrow> string \<Rightarrow> xRedisConnectorBase" where
  "pushed c b \<equiv> c\<lparr>cmdbuffer := cmdbuffer c @ b\<rparr>"

definition conn_inv :: "xRedisConnectorBase \<Rightarrow> bool" where
  "conn_inv c \<longleftrightarrow> parsed c \<le> length (cmdbuffer c) \<and> (argnum c = 0 \<longrightarrow> argv c = None \<and> parsed c = 0)"

lemma parsed_pushed: "(pushed c b)\<lparr>parsed := n\<rparr> = pushed (c\<lparr>parsed := n\<rparr>) b"
  by simp

lemma takeWhile_append_mem: "x \<in> set xs \<Longrightarrow> takeWhile (\<lambda>y. y \<noteq> x) (xs @ ys) = takeWhile (\<lambda>y. y \<noteq> x) xs"
  by (induction xs) auto

lemma ParaseLength_append:
  assumes "LF \<in> set ptr"
  shows "ParaseLength ptr = None \<Longrightarrow> first_char ptr \<noteq> LF \<Longrightarrow> ParaseLength (ptr @ b) = None"
    and "ParaseLength ptr = Some r \<Longrightarrow> ParaseLength (ptr @ b) = Some r"
proof -
  obtain a xs where p: "ptr = a # xs" using assms by (cases ptr) auto
  have eq: "LF \<in> set xs \<Longrightarrow> ParaseLength (ptr @ b) = ParaseLength ptr"
    by (simp add: ParaseLength_def p takeWhile_append_mem)
  show "ParaseLength ptr = None \<Longrightarrow> first_char ptr \<noteq> LF \<Longrightarrow> ParaseLength (ptr @ b) = None"
    using eq assms by (simp add: p first_char_def)
  show "ParaseLength ptr = Some r \<Longrightarrow> ParaseLength (ptr @ b) = Some r"
    using eq assms by (cases "LF \<in> set xs") (simp_all add: p ParaseLength_def)
qed

lemma ParaseLength_no_line: "LF \<notin> set ptr \<Longrightarrow> ParaseLength ptr = Some (0, 0)"
  by (simp add: ParaseLength_def)

lemma ParaseLength_bound: "ParaseLength ptr = Some (r, n) \<Longrightarrow> r \<le> length ptr \<and> (r = 0 \<longleftrightarrow> n = 0)"
proof -
  assume a: "ParaseLength ptr = Some (r, n)"
  have "LF \<in> set xs \<Longrightarrow> length (takeWhile (\<lambda>ch. ch \<noteq> LF) xs) < length xs" for xs
    by (induction xs) auto
  from this[of "tl ptr"] a show ?thesis
    by (cases ptr) (auto simp: ParaseLength_def Let_def split: if_splits bind_splits)
qed

lemma first_char_append: "ptr \<noteq> [] \<Longrightarrow> first_char (ptr @ b) = first_char ptr"
  by (cases ptr) (auto simp: first_char_def)

lemma ParaseData_pushed:
  "ParaseData ptr (pushed c b) = map_option (apsnd (\<lambda>c. pushed c b)) (ParaseData ptr c)"
  by (auto simp: ParaseData_def split: bind_splits)

lemma ParaseData_append:
  shows "ParaseData ptr c = None \<Longrightarrow> ParaseData (ptr @ b) c = None"
    and "ParaseData ptr c = Some (p, c') \<Longrightarrow> p \<noteq> 0 \<Longrightarrow> ParaseData (ptr @ b) c = Some (p, c')"
    and "ParaseData ptr c = Some (p, c') \<Longrightarrow> p \<le> length ptr \<and> (p = 0 \<longrightarrow> c' = c)"
proof -
  have ne: "ptr \<noteq> []" if "first_char ptr = CHR ''$''" using that by (auto simp: first_char_def)
  have lf: "LF \<in> set ptr" if "ParaseLength ptr = None \<or> (\<exists>r n. ParaseLength ptr = Some (r, n) \<and> r \<noteq> 0)"
    using that by (auto intro: ccontr simp: ParaseLength_no_line)
  show "ParaseData (ptr @ b) c = None" if a: "ParaseData ptr c = None"
  proof (cases "ParaseLength ptr")
    case None
    with a lf have "ParaseLength (ptr @ b) = None"
      by (auto simp: ParaseData_def split: if_splits intro!: ParaseLength_append)
    with a ne show ?thesis by (auto simp: ParaseData_def first_char_append split: if_splits)
  next
    case (Some rn)
    then obtain r n where rn: "ParaseLength ptr = Some (r, n)" by (cases rn) auto
    have d: "first_char ptr = CHR ''$''" "r \<noteq> 0" using a rn by (auto simp: ParaseData_def split: if_splits)
    have "ParaseLength (ptr @ b) = Some (r, n)" using ParaseLength_append(2)[OF lf rn] rn d by auto
    with a rn d ne ParaseLength_bound[OF rn] show ?thesis
      by (auto simp: ParaseData_def first_char_append split: if_splits)
  qed
  show "ParaseData (ptr @ b) c = Some (p, c')" if a: "ParaseData ptr c = Some (p, c')" and p: "p \<noteq> 0"
  proof -
    obtain r n where rn: "ParaseLength ptr = Some (r, n)" and d: "first_char ptr = CHR ''$''" "r \<noteq> 0"
      using a p by (auto simp: ParaseData_def split: if_splits bind_splits)
    have "ParaseLength (ptr @ b) = Some (r, n)" using ParaseLength_append(2)[OF lf rn] rn d by auto
    with a p rn d ne ParaseLength_bound[OF rn] show ?thesis
      by (auto simp: ParaseData_def first_char_append split: if_splits bind_splits)
  qed
  show "p \<le> length ptr \<and> (p = 0 \<longrightarrow> c' = c)" if a: "ParaseData ptr c = Some (p, c')"
    using a ParaseLength_bound[of ptr] by (auto simp: ParaseData_def split: if_splits bind_splits)
qed

lemma ParaseData_frame:
  "ParaseData ptr c = Some (p, c') \<Longrightarrow> cmdbuffer c' = cmdbuffer c \<and> parsed c' = parsed c \<and>
     out_buf c' = out_buf c \<and> in_buf c' = in_buf c \<and> activetime c' = activetime c \<and> sid c' = sid c"
  by (auto simp: ParaseData_def split: if_splits bind_splits)

text \<open>More bytes in the buffer: the loop goes on from where it has stopped.\<close>

lemma ProcessCmd_loop_pushed:
  "parsed c \<le> length (cmdbuffer c) \<Longrightarrow>
     (case ProcessCmd_loop c of
        None \<Rightarrow> ProcessCmd_loop (pushed c b) = None
      | Some c' \<Rightarrow> ProcessCmd_loop (pushed c b) = ProcessCmd_loop (pushed c' b) \<and> parsed c' \<le> length (cmdbuffer c'))"
proof (induction c rule: ProcessCmd_loop.induct)
  case (1 c)
  have un: "drop (parsed c) (cmdbuffer c @ b) = unparsed c @ b" using 1(2) by simp
  consider (stop) "\<not> 0 < argnum c" | (ub) "0 < argnum c" "ParaseData (unparsed c) c = None"
    | (wait) c1 where "0 < argnum c" "ParaseData (unparsed c) c = Some (0, c1)"
    | (go) p c1 where "0 < argnum c" "ParaseData (unparsed c) c = Some (p, c1)" "p \<noteq> 0"
    by (cases "ParaseData (unparsed c) c") auto
  then show ?case
  proof cases
    case stop
    then show ?thesis using 1(2) by (simp add: ProcessCmd_loop.simps[of c])
  next
    case ub
    then show ?thesis using ParaseData_append(1)[OF ub(2), of b] un
      by (simp add: ProcessCmd_loop.simps[of c] ProcessCmd_loop.simps[of "pushed c b"] ParaseData_pushed)
  next
    case wait
    then have "c1 = c" using ParaseData_append(3)[OF wait(2)] by simp
    with wait show ?thesis using 1(2) by (simp add: ProcessCmd_loop.simps[of c])
  next
    case go
    let ?c = "c1\<lparr>parsed := parsed c1 + p\<rparr>"
    have l: "ProcessCmd_loop c = ProcessCmd_loop ?c"
      using go by (simp add: ProcessCmd_loop.simps[of c])
    have lb: "ProcessCmd_loop (pushed c b) = ProcessCmd_loop (pushed ?c b)"
      using go ParaseData_append(2)[OF go(2,3), of b] un
      by (simp add: ProcessCmd_loop.simps[of "pushed c b"] ParaseData_pushed parsed_pushed)
    have "parsed ?c \<le> length (cmdbuffer ?c)"
      using ParaseData_frame[OF go(2)] ParaseData_append(3)[OF go(2)] 1(2) by auto
    from 1(1)[OF go(1,2) refl go(3) this] show ?thesis unfolding l lb .
  qed
qed

lemma DoCmd_pushed:
  "parsed c \<le> length (cmdbuffer c) \<Longrightarrow>
     DoCmd tbl (pushed c b) s = map_option (\<lambda>(c', s'). (pushed c' b, s')) (DoCmd tbl c s)"
  by (auto simp: DoCmd_def FreeArg_def split: bind_splits)

lemma DoCmd_inv: "DoCmd tbl c s = Some (c', s') \<Longrightarrow> conn_inv c'"
  by (auto simp: DoCmd_def FreeArg_def conn_inv_def split: bind_splits)

lemma ProcessCmd_head_facts:
  assumes "conn_inv c"
  shows "ProcessCmd_head c = None \<Longrightarrow> ProcessCmd_head (pushed c b) = None"
    and "ProcessCmd_head c = Some (Some c1) \<Longrightarrow>
           ProcessCmd_head (pushed c b) = Some (Some (pushed c1 b)) \<and> argnum c1 \<noteq> 0 \<and>
           parsed c1 \<le> length (cmdbuffer c1) \<and> cmdbuffer c1 = cmdbuffer c \<and>
           activetime c1 = activetime c \<and> sid c1 = sid c"
proof -
  note inv = assms[unfolded conn_inv_def]
  show "ProcessCmd_head (pushed c b) = None" if h: "ProcessCmd_head c = None"
  proof -
    have z: "argnum c = 0" "first_char (cmdbuffer c) = CHR ''*''" "ParaseLength (cmdbuffer c) = None"
      using h inv by (auto simp: ProcessCmd_head_def split: if_splits bind_splits)
    then have "LF \<in> set (cmdbuffer c)" "cmdbuffer c \<noteq> []"
      using ParaseLength_no_line by (force simp: first_char_def)+
    with z inv show ?thesis
      by (simp add: ProcessCmd_head_def first_char_append ParaseLength_append(1))
  qed
  show "ProcessCmd_head (pushed c b) = Some (Some (pushed c1 b)) \<and> argnum c1 \<noteq> 0 \<and>
           parsed c1 \<le> length (cmdbuffer c1) \<and> cmdbuffer c1 = cmdbuffer c \<and>
           activetime c1 = activetime c \<and> sid c1 = sid c"
    if h: "ProcessCmd_head c = Some (Some c1)"
  proof (cases "argnum c = 0")
    case True
    then obtain pos num where z: "first_char (cmdbuffer c) = CHR ''*''" "pos \<noteq> 0"
      "ParaseLength (cmdbuffer c) = Some (pos, num)"
      "c1 = c\<lparr>parsed := pos, argnum := num, argv := sds_array_malloc num\<rparr>"
      using h inv by (auto simp: ProcessCmd_head_def split: if_splits bind_splits)
    then have ne: "LF \<in> set (cmdbuffer c)" "cmdbuffer c \<noteq> []"
      using ParaseLength_no_line by (force simp: first_char_def)+
    then have "ParaseLength (cmdbuffer c @ b) = Some (pos, num)" using z ParaseLength_append(2) by blast
    with z True inv ne ParaseLength_bound[OF z(3)] show ?thesis
      by (simp add: ProcessCmd_head_def first_char_append)
  next
    case False
    with h inv show ?thesis by (auto simp: ProcessCmd_head_def)
  qed
qed

text \<open>
  The three outcomes of \<open>ProcessCmd\<close>, with more bytes in the buffer: a command that was run is
  run, a command that was not complete is continued, an undefined one stays undefined.
\<close>

lemma ProcessCmd_pushed:
  assumes inv: "conn_inv c"
  shows "case ProcessCmd tbl now c s of
           None \<Rightarrow> ProcessCmd tbl now (pushed c b) s = None
         | Some (True, c', s') \<Rightarrow> ProcessCmd tbl now (pushed c b) s = Some (True, pushed c' b, s') \<and> conn_inv c'
         | Some (False, c', s') \<Rightarrow>
             ProcessCmd tbl now (pushed c b) s = ProcessCmd tbl now (pushed c' b) s' \<and> conn_inv c' \<and> s' = s"
proof (cases "cmdbuffer c = []")
  case True
  with inv show ?thesis by (simp add: ProcessCmd_def conn_inv_def)
next
  case ne: False
  let ?c = "c\<lparr>activetime := now\<rparr>"
  have inv': "conn_inv ?c" using inv by (simp add: conn_inv_def)
  have act: "(pushed c b)\<lparr>activetime := now\<rparr> = pushed ?c b" by simp
  show ?thesis
  proof (cases "ProcessCmd_head ?c")
    case None
    with ProcessCmd_head_facts(1)[OF inv' None] ne show ?thesis
      by (simp add: ProcessCmd_def act)
  next
    case (Some h)
    show ?thesis
    proof (cases h)
      case None
      with Some ne inv' show ?thesis by (simp add: ProcessCmd_def)
    next
      case c1: (Some c1)
      note f = ProcessCmd_head_facts(2)[OF inv' Some[unfolded c1]]
      have l: "case ProcessCmd_loop c1 of
          None \<Rightarrow> ProcessCmd_loop (pushed c1 b) = None
        | Some c' \<Rightarrow> ProcessCmd_loop (pushed c1 b) = ProcessCmd_loop (pushed c' b) \<and> parsed c' \<le> length (cmdbuffer c')"
        by (rule ProcessCmd_loop_pushed) (use f in blast)
      show ?thesis
      proof (cases "ProcessCmd_loop c1")
        case None
        with l Some c1 f ne show ?thesis by (simp add: ProcessCmd_def act)
      next
        case c2: (Some c2)
        with l have l2: "ProcessCmd_loop (pushed c1 b) = ProcessCmd_loop (pushed c2 b)"
          "parsed c2 \<le> length (cmdbuffer c2)" by auto
        show ?thesis
        proof (cases "argnum c2 = 0")
          case True
          then have "ProcessCmd_loop (pushed c2 b) = Some (pushed c2 b)"
            by (simp add: ProcessCmd_loop.simps[of "pushed c2 b"])
          with l2 True Some c1 f ne c2 show ?thesis
            by (cases "DoCmd tbl c2 s") (auto simp: ProcessCmd_def act DoCmd_pushed dest: DoCmd_inv)
        next
          case False
          have ac: "activetime c2 = now" using ProcessCmd_loop_facts[OF c2] f by simp
          have c2ne: "cmdbuffer c2 \<noteq> []" using ProcessCmd_loop_facts[OF c2] f ne by simp
          have "conn_inv c2" using False l2 by (simp add: conn_inv_def)
          moreover have "ProcessCmd_head (pushed c2 b) = Some (Some (pushed c2 b))"
            using False by (simp add: ProcessCmd_head_def)
          moreover have "(pushed c2 b)\<lparr>activetime := now\<rparr> = pushed c2 b" using ac by simp
          ultimately show ?thesis using False l2 Some c1 f ne c2 c2ne
            by (simp add: ProcessCmd_def act)
        qed
      qed
    qed
  qed
qed

lemma ReadCallback_loop_pushed:
  "conn_inv c \<Longrightarrow>
     (case ReadCallback_loop tbl now c s of
        None \<Rightarrow> ReadCallback_loop tbl now (pushed c b) s = None
      | Some (c', s') \<Rightarrow> ReadCallback_loop tbl now (pushed c b) s = ReadCallback_loop tbl now (pushed c' b) s' \<and> conn_inv c')"
proof (induction tbl now c s rule: ReadCallback_loop.induct)
  case (1 tbl now c s)
  note p = ProcessCmd_pushed[OF 1(2), of tbl now b s]
  consider (ub) "ProcessCmd tbl now c s = None"
    | (cmd) c' s' where "ProcessCmd tbl now c s = Some (True, c', s')"
    | (wait) c' s' where "ProcessCmd tbl now c s = Some (False, c', s')"
    by (cases "ProcessCmd tbl now c s") auto
  then show ?case
  proof cases
    case ub
    then show ?thesis using p
      by (simp add: ReadCallback_loop.simps[of tbl now c] ReadCallback_loop.simps[of tbl now "pushed c b"])
  next
    case cmd
    then have eqs: "ReadCallback_loop tbl now c s = ReadCallback_loop tbl now c' s'"
      "ReadCallback_loop tbl now (pushed c b) s = ReadCallback_loop tbl now (pushed c' b) s'" "conn_inv c'"
      using p
      by (simp_all add: ReadCallback_loop.simps[of tbl now c] ReadCallback_loop.simps[of tbl now "pushed c b"])
    from 1(1)[OF cmd refl refl TrueI eqs(3)] show ?thesis unfolding eqs(1,2) .
  next
    case wait
    then have "ReadCallback_loop tbl now c s = Some (c', s')"
      "ReadCallback_loop tbl now (pushed c b) s = ReadCallback_loop tbl now (pushed c' b) s'" "conn_inv c'"
      using p
      by (simp_all add: ReadCallback_loop.simps[of tbl now c] ReadCallback_loop.simps[of tbl now "pushed c b"]
          ReadCallback_loop.simps[of tbl now "pushed c' b"])
    then show ?thesis by simp
  qed
qed

text \<open>The read loop on a connection to which bytes have been added is a stream consumer.\<close>

definition feed_conn :: "'s cmd_table \<Rightarrow> u32 \<Rightarrow> xRedisConnectorBase \<times> 's \<Rightarrow> string \<Rightarrow> (xRedisConnectorBase \<times> 's) ub" where
  "feed_conn tbl now cs bytes = (case cs of (c, s) \<Rightarrow> ReadCallback_loop tbl now (pushed c bytes) s)"

lemma pushed_pushed [simp]: "pushed (pushed c a) b = pushed c (a @ b)"
  by simp

lemma conn_inv_pushed: "conn_inv c \<Longrightarrow> conn_inv (pushed c b)"
  by (auto simp: conn_inv_def)

interpretation conn: stream_consumer "feed_conn tbl now" "\<lambda>(c, s). conn_inv c" for tbl :: "'s cmd_table" and now
proof (unfold_locales, goal_cases)
  case (1 cs a cs')
  obtain c s c' s' where p: "cs = (c, s)" "cs' = (c', s')" by (cases cs; cases cs') auto
  have "conn_inv (pushed c a)" using 1 p by (simp add: conn_inv_pushed)
  from ReadCallback_loop_pushed[OF this, of tbl now "[]" s] 1 p show ?case
    by (simp add: feed_conn_def)
next
  case (2 cs a b)
  obtain c s where p: "cs = (c, s)" by (cases cs) auto
  have "conn_inv (pushed c a)" using 2 p by (simp add: conn_inv_pushed)
  from ReadCallback_loop_pushed[OF this, of tbl now b s] p show ?case
    by (auto simp: feed_conn_def split: bind_splits option.splits)
qed

subsection \<open>Encoded commands\<close>

text \<open>What a client sends.\<close>

definition resp_bulk :: "string \<Rightarrow> string" where
  "resp_bulk a = ''$'' @ dec_nat (length a) @ CRLF @ a @ CRLF"

definition resp_command :: "string list \<Rightarrow> string" where
  "resp_command args = ''*'' @ dec_nat (length args) @ CRLF @ concat (map resp_bulk args)"

definition sendable :: "string list \<Rightarrow> bool" where
  "sendable args \<longleftrightarrow> args \<noteq> [] \<and> int (length args) \<le> INT_MAX \<and>
     (\<forall>a \<in> set args. a \<noteq> [] \<and> int (length a) + 2 \<le> INT_MAX)"

lemma strtol_dec_nat_stop:
  assumes "\<not> isdigit x"
  shows "fst (strtol (dec_nat n @ x # r)) = clamp64 (int n)" "\<not> strtol_overrun (dec_nat n @ x # r)"
proof -
  obtain d ds where d: "dec_nat n = d # ds" by (cases "dec_nat n") auto
  have dg: "isdigit d" using hd_dec_nat[of n] d by simp
  have sp: "\<not> isspace d" "d \<noteq> CHR ''-''" "d \<noteq> CHR ''+''" using dg isdigit_not_space isdigit_not_sign by blast+
  have tw: "takeWhile isdigit (dec_nat n @ x # r) = dec_nat n"
    using dec_nat_digits[of n] assms by (simp add: takeWhile_append2)
  have dw: "dropWhile isdigit (dec_nat n @ x # r) = x # r"
    using dec_nat_digits[of n] assms by (simp add: dropWhile_append2)
  show "fst (strtol (dec_nat n @ x # r)) = clamp64 (int n)"
    using tw num_val_dec_nat[of n] sp by (simp add: strtol_def Let_def d)
  show "\<not> strtol_overrun (dec_nat n @ x # r)"
    using dw sp assms dg by (simp add: strtol_overrun_def Let_def d)
qed

lemma not_digit_ctl: "\<not> isdigit NUL" "\<not> isdigit CR" "\<not> isdigit LF"
  by (simp_all add: isdigit_def byte_val_def)

lemma dec_nat_no_ctl: "CR \<notin> set (dec_nat n)" "LF \<notin> set (dec_nat n)"
  using dec_nat_digits not_digit_ctl by blast+

lemma parase_tmp_dec_nat:
  assumes "length (dec_nat n) \<le> 10"
  shows "parase_tmp (dec_nat n @ [CR]) = Some (dec_nat n @ NUL # replicate (10 - length (dec_nat n)) NUL)"
proof -
  let ?l = "dec_nat n @ [CR]" and ?d = "dec_nat n"
  have "map (\<lambda>i. if i < length ?l \<and> ?l ! i \<noteq> CR then ?l ! i else NUL) [0..<11]
      = ?d @ NUL # replicate (10 - length ?d) NUL"
  proof (rule nth_equalityI)
    fix i assume "i < length (map (\<lambda>i. if i < length ?l \<and> ?l ! i \<noteq> CR then ?l ! i else NUL) [0..<11])"
    then have i: "i < 11" by simp
    consider "i < length ?d" | "i = length ?d" | "length ?d < i" by linarith
    then show "map (\<lambda>i. if i < length ?l \<and> ?l ! i \<noteq> CR then ?l ! i else NUL) [0..<11] ! i
        = (?d @ NUL # replicate (10 - length ?d) NUL) ! i"
    proof cases
      case 1
      then have "?d ! i \<noteq> CR" using dec_nat_no_ctl(1) by (metis nth_mem)
      with 1 i show ?thesis by (simp add: nth_append del: upt_Suc)
    next
      case 3
      with i have "?l = ?l" "(NUL # replicate (10 - length ?d) NUL) ! (i - length ?d) = NUL"
        by (auto simp: nth_Cons' nth_append)
      with 3 i show ?thesis by (simp add: nth_append del: upt_Suc)
    qed (use i in \<open>simp add: nth_append del: upt_Suc\<close>)
  qed (use assms in simp)
  then show ?thesis using assms by (simp add: parase_tmp_def del: upt_Suc)
qed

lemma ParaseLength_dec_nat:
  assumes "0 < n" "int n \<le> INT_MAX"
  shows "ParaseLength (x # dec_nat n @ CRLF @ r) = Some (length (dec_nat n) + 3, int n)"
proof -
  have len: "length (dec_nat n) \<le> 10"
    using assms by (intro length_dec_nat) (simp_all add: INT_MAX_def)
  have line: "takeWhile (\<lambda>ch. ch \<noteq> LF) (dec_nat n @ CRLF @ r) = dec_nat n @ [CR]"
    using dec_nat_no_ctl[of n] by (subst takeWhile_append2) auto
  have "wrap32 (clamp64 (int n)) = int n"
    using assms by (simp add: clamp64_def INT64_MIN_def INT64_MAX_def INT_MAX_def wrap32_id INT_MIN_def)
  with assms line show ?thesis
    by (simp add: ParaseLength_def Let_def parase_tmp_dec_nat[OF len] strtol_dec_nat_stop not_digit_ctl)
qed

lemma resp_bulk_nonempty [simp]: "resp_bulk a \<noteq> []"
  by (simp add: resp_bulk_def)

lemma drop_header: "drop (length d + 3) (x # d @ CRLF @ r) = r"
  by (simp add: numeral_3_eq_3)

lemma ParaseData_bulk:
  assumes "a \<noteq> []" "int (length a) + 2 \<le> INT_MAX" "argv c = Some av"
  shows "ParaseData (resp_bulk a @ r) c =
     Some (length (resp_bulk a), c\<lparr>argv := Some (av @ [a]), argnum := argnum c - 1\<rparr>)"
  using assms ParaseLength_dec_nat[of "length a" "CHR ''$''" "a @ CRLF @ r"]
    drop_header[of "dec_nat (length a)" "CHR ''$''" "a @ CRLF @ r"]
  by (simp add: ParaseData_def resp_bulk_def first_char_def)

lemma ProcessCmd_loop_bulks:
  "\<lbrakk>\<forall>a \<in> set args. a \<noteq> [] \<and> int (length a) + 2 \<le> INT_MAX; argv c = Some av; argnum c = int (length args) + k;
    0 \<le> k; unparsed c = concat (map resp_bulk args) @ r\<rbrakk> \<Longrightarrow>
   ProcessCmd_loop c = ProcessCmd_loop (c\<lparr>argv := Some (av @ args), argnum := k,
     parsed := parsed c + length (concat (map resp_bulk args))\<rparr>)"
proof (induction args arbitrary: c av)
  case Nil
  then have "c\<lparr>argv := Some av, argnum := k\<rparr> = c" by (cases c) simp
  then show ?case by simp
next
  case (Cons a args)
  let ?c = "c\<lparr>argv := Some (av @ [a]), argnum := argnum c - 1, parsed := parsed c + length (resp_bulk a)\<rparr>"
  have "ProcessCmd_loop c = ProcessCmd_loop ?c"
    using Cons.prems ParaseData_bulk[of a c av "concat (map resp_bulk args) @ r"]
    by (subst ProcessCmd_loop.simps) simp
  also have "\<dots> = ProcessCmd_loop (?c\<lparr>argv := Some ((av @ [a]) @ args), argnum := k,
     parsed := parsed ?c + length (concat (map resp_bulk args))\<rparr>)"
  proof (rule Cons.IH)
    have "drop (length (resp_bulk a)) (unparsed c) = concat (map resp_bulk args) @ r"
      using Cons.prems(5) by simp
    then show "unparsed ?c = concat (map resp_bulk args) @ r" by (simp add: add.commute)
  qed (use Cons.prems in auto)
  finally show ?case by (simp add: add.assoc)
qed

text \<open>A connection with nothing parsed of a command.\<close>

definition idle :: "xRedisConnectorBase \<Rightarrow> bool" where
  "idle c \<longleftrightarrow> argnum c = 0 \<and> argv c = None \<and> parsed c = 0"

lemma idle_inv: "idle c \<Longrightarrow> conn_inv c"
  by (simp add: idle_def conn_inv_def)

lemma malloc_pos: "0 \<le> n \<Longrightarrow> n \<le> INT_MAX \<Longrightarrow> sds_array_malloc n = Some []"
  by (simp add: sds_array_malloc_def INT_MAX_def)

lemma ProcessCmd_command:
  assumes "idle c" "sendable args" "cmdbuffer c = resp_command args @ r"
  shows "ProcessCmd tbl now c s =
     map_option (\<lambda>(s', out). (True, c\<lparr>cmdbuffer := r, out_buf := out_buf c @ out, activetime := now\<rparr>, s'))
       (run_cmd tbl args s)"
proof -
  let ?c = "c\<lparr>activetime := now\<rparr>"
  let ?n = "length (dec_nat (length args)) + 3"
  let ?b = "concat (map resp_bulk args)"
  let ?c1 = "?c\<lparr>parsed := ?n, argnum := int (length args), argv := Some []\<rparr>"
  note id = assms(1)[unfolded idle_def] and sd = assms(2)[unfolded sendable_def]
  have "ParaseLength (cmdbuffer c) = Some (?n, int (length args))"
    using ParaseLength_dec_nat[of "length args" "CHR ''*''" "?b @ r"] sd assms(3) by (simp add: resp_command_def)
  moreover have "first_char (cmdbuffer c) = CHR ''*''" "cmdbuffer c \<noteq> []"
    using assms(3) by (simp_all add: resp_command_def first_char_def)
  ultimately have h: "ProcessCmd_head ?c = Some (Some ?c1)"
    using id sd by (simp add: ProcessCmd_head_def malloc_pos)
  let ?c2 = "?c1\<lparr>argv := Some args, argnum := 0, parsed := ?n + length ?b\<rparr>"
  have un: "unparsed ?c1 = ?b @ r" using assms(3) drop_header[of "dec_nat (length args)" "CHR ''*''" "?b @ r"] by (simp add: resp_command_def)
  have "ProcessCmd_loop ?c1 = ProcessCmd_loop (?c1\<lparr>argv := Some ([] @ args), argnum := 0,
      parsed := parsed ?c1 + length ?b\<rparr>)"
    by (rule ProcessCmd_loop_bulks[where r = r]) (use sd un in simp_all)
  also have "\<dots> = Some ?c2" by (subst ProcessCmd_loop.simps) simp
  finally have l: "ProcessCmd_loop ?c1 = Some ?c2" .
  have dr: "drop (?n + length ?b) (cmdbuffer c) = r"
    using un drop_drop[of "length ?b" ?n "cmdbuffer c"] by (simp add: add.commute)
  have "\<lparr>argv = None, argnum = 0, parsed = 0, cmdbuffer = x, activetime = now, sid = sid c, in_buf = in_buf c, out_buf = y\<rparr>
     = c\<lparr>cmdbuffer := x, out_buf := y, activetime := now\<rparr>" for x y using id by simp
  then have "DoCmd tbl ?c2 s = map_option (\<lambda>(s', out).
      (c\<lparr>cmdbuffer := r, out_buf := out_buf c @ out, activetime := now\<rparr>, s')) (run_cmd tbl args s)"
    using dr id by (auto simp: DoCmd_def FreeArg_def split: bind_splits)
  with h l \<open>cmdbuffer c \<noteq> []\<close> show ?thesis
    by (cases "run_cmd tbl args s") (auto simp: ProcessCmd_def)
qed

subsection \<open>Delivery in pieces\<close>

definition stamped_at :: "u32 \<Rightarrow> string \<Rightarrow> xRedisConnectorBase \<Rightarrow> xRedisConnectorBase" where
  "stamped_at t h c = c\<lparr>activetime := t, in_buf := h\<rparr>"

lemma stamped_at_fields [simp]:
  "argv (stamped_at t h c) = argv c" "argnum (stamped_at t h c) = argnum c"
  "parsed (stamped_at t h c) = parsed c" "cmdbuffer (stamped_at t h c) = cmdbuffer c"
  "out_buf (stamped_at t h c) = out_buf c" "in_buf (stamped_at t h c) = h"
  "(stamped_at t h c)\<lparr>argv := av, argnum := n\<rparr> = stamped_at t h (c\<lparr>argv := av, argnum := n\<rparr>)"
  "(stamped_at t h c)\<lparr>parsed := p\<rparr> = stamped_at t h (c\<lparr>parsed := p\<rparr>)"
  "(stamped_at t h c)\<lparr>parsed := p, argnum := n, argv := av\<rparr> = stamped_at t h (c\<lparr>parsed := p, argnum := n, argv := av\<rparr>)"
  "(stamped_at t h c)\<lparr>out_buf := x\<rparr> = stamped_at t h (c\<lparr>out_buf := x\<rparr>)"
  "(stamped_at t h c)\<lparr>cmdbuffer := x\<rparr> = stamped_at t h (c\<lparr>cmdbuffer := x\<rparr>)"
  "stamped_at t h (c\<lparr>activetime := t'\<rparr>) = stamped_at t h c"
  "(stamped_at t' h c)\<lparr>activetime := t\<rparr> = stamped_at t h c"
  "stamped_at t h (stamped_at t' h' c) = stamped_at t h c"
  by (simp_all add: stamped_at_def)

lemma FreeArg_stamped: "FreeArg (stamped_at t h c) = stamped_at t h (FreeArg c)"
  by (simp add: FreeArg_def stamped_at_def)

lemma ParaseData_stamped:
  "ParaseData ptr (stamped_at t h c) = map_option (apsnd (stamped_at t h)) (ParaseData ptr c)"
  by (auto simp: ParaseData_def split: bind_splits)

lemma ProcessCmd_loop_stamped:
  "ProcessCmd_loop (stamped_at t h c) = map_option (stamped_at t h) (ProcessCmd_loop c)"
proof (induction c rule: ProcessCmd_loop.induct)
  case (1 c)
  show ?case
    unfolding ProcessCmd_loop.simps[of c] ProcessCmd_loop.simps[of "stamped_at t h c"]
    using 1 by (cases "0 < argnum c"; cases "ParaseData (unparsed c) c") (auto simp: ParaseData_stamped)
qed

lemma DoCmd_stamped: "DoCmd tbl (stamped_at t h d) s = map_option (apfst (stamped_at t h)) (DoCmd tbl d s)"
  by (auto simp: DoCmd_def FreeArg_stamped split: bind_splits)

lemma ProcessCmd_stamped:
  "ProcessCmd tbl t (stamped_at t' h c) s =
     map_option (\<lambda>(r, c', s'). (r, stamped_at t h c', s')) (ProcessCmd tbl t'' c s)"
proof -
  have h: "ProcessCmd_head (stamped_at t h c) = map_option (map_option (stamped_at t h)) (ProcessCmd_head (c\<lparr>activetime := t''\<rparr>))"
    by (auto simp: ProcessCmd_head_def stamped_at_def split: bind_splits)
  show ?thesis
    by (auto simp: ProcessCmd_def Let_def h ProcessCmd_loop_stamped DoCmd_stamped split: bind_splits option.splits)
qed

lemma ReadCallback_loop_stamped:
  "ReadCallback_loop tbl t (stamped_at t' h c) s =
     map_option (\<lambda>(c', s'). (stamped_at t h c', s')) (ReadCallback_loop tbl t'' c s)"
proof (induction tbl t'' c s arbitrary: t' rule: ReadCallback_loop.induct)
  case (1 tbl t'' c s)
  show ?case
    unfolding ReadCallback_loop.simps[of tbl t'' c] ReadCallback_loop.simps[of tbl t "stamped_at t' h c"]
      ProcessCmd_stamped[where t'' = t'']
    using 1 by (cases "ProcessCmd tbl t'' c s") auto
qed

text \<open>What of a connector determines the processing of further bytes.\<close>

abbreviation parse_state :: "xRedisConnectorBase \<Rightarrow> xRedisConnectorBase" where
  "parse_state \<equiv> stamped_at 0 []"

lemma parse_state_empty: "in_buf c = [] \<Longrightarrow> parse_state c = c\<lparr>activetime := 0\<rparr>"
  by (cases c) (simp add: stamped_at_def)

lemma stamped_self: "stamped_at (activetime c) (in_buf c) c = c"
  by (simp add: stamped_at_def)

lemma conn_inv_stamped [simp]: "conn_inv (stamped_at t h c) = conn_inv c"
  by (simp add: conn_inv_def)

lemma ReadCallback_loop_parse_state:
  "ReadCallback_loop tbl now c s =
     map_option (\<lambda>(c', s'). (stamped_at now (in_buf c) c', s')) (ReadCallback_loop tbl 0 (parse_state c) s)"
  using ReadCallback_loop_stamped[of tbl now "activetime c" "in_buf c" "parse_state c" s 0]
  by (simp add: stamped_self)

lemma feed_conn_parse_state:
  "feed_conn tbl 0 (parse_state c, s) b = Some (c', s') \<Longrightarrow> parse_state c' = c'"
  using ReadCallback_loop_stamped[of tbl 0 0 "[]" "pushed (parse_state c) b" s 0]
  by (auto simp: feed_conn_def)

lemma feed_conn_nothing: "cmdbuffer c = [] \<Longrightarrow> feed_conn tbl now (c, s) [] = Some (c\<lparr>activetime := now\<rparr>, s)"
  by (subst feed_conn_def, simp, subst ReadCallback_loop.simps) (simp add: ProcessCmd_def)

text \<open>The part of the received bytes that \<open>ReadCallback\<close> takes.\<close>

definition taken :: "string \<Rightarrow> string" where
  "taken inp = (if length inp < 2 then [] else inp)"

definition held :: "string \<Rightarrow> string" where
  "held inp = (if length inp < 2 then inp else [])"

lemma taken_held: "taken inp @ held inp = inp" "length (held inp) \<le> 1"
  by (auto simp: taken_def held_def)

lemma receive_feed:
  assumes "conn_inv c"
  shows "map_option (\<lambda>(c', s'). (parse_state c', in_buf c', s')) (receive tbl now (c, s) bytes) =
    map_option (\<lambda>(c', s'). (c', held (in_buf c @ bytes), s'))
      (feed_conn tbl 0 (parse_state c, s) (taken (in_buf c @ bytes)))"
proof -
  let ?inp = "in_buf c @ bytes"
  define d where "d = stamped_at (activetime c) (held ?inp) (pushed c (taken ?inp))"
  have r: "receive tbl now (c, s) bytes = (if cmdbuffer d = [] then Some (d, s) else ReadCallback_loop tbl now d s)"
    by (auto simp: receive_def ReadCallback_def d_def Let_def taken_def held_def stamped_at_def)
  have pd: "parse_state d = pushed (parse_state c) (taken ?inp)" "in_buf d = held ?inp" by (simp_all add: d_def)
  then have f: "feed_conn tbl 0 (parse_state c, s) (taken ?inp) = ReadCallback_loop tbl 0 (parse_state d) s"
    by (simp add: feed_conn_def)
  show ?thesis
  proof (cases "cmdbuffer d = []")
    case True
    then have "ReadCallback_loop tbl 0 (parse_state d) s = Some (parse_state d, s)"
      using feed_conn_nothing[of "parse_state d" tbl 0 s] by (simp add: feed_conn_def)
    with True r f pd show ?thesis by simp
  next
    case False
    have "parse_state c' = c'" if "ReadCallback_loop tbl 0 (parse_state d) s = Some (c', s')" for c' s'
      using feed_conn_parse_state[of tbl c s "taken ?inp" c' s'] that f by simp
    with False r f pd(2) ReadCallback_loop_parse_state[of tbl now d s] show ?thesis
      by (cases "ReadCallback_loop tbl 0 (parse_state d) s") auto
  qed
qed


text \<open>The pieces of a stream, each with the time of its delivery.\<close>

primrec receive_all ::
  "'s cmd_table \<Rightarrow> xRedisConnectorBase \<times> 's \<Rightarrow> (u32 \<times> string) list \<Rightarrow> (xRedisConnectorBase \<times> 's) ub" where
  "receive_all tbl cs [] = Some cs"
| "receive_all tbl cs (p # ps) = Option.bind (receive tbl (fst p) cs (snd p)) (\<lambda>cs'. receive_all tbl cs' ps)"

lemma receive_all_feed:
  assumes "conn_inv c"
  shows "case receive_all tbl (c, s) ps of
      None \<Rightarrow> feed_conn tbl 0 (parse_state c, s) (in_buf c @ concat (map snd ps)) = None
    | Some (c', s') \<Rightarrow> ps \<noteq> [] \<longrightarrow> conn_inv c' \<and> length (in_buf c') \<le> 1 \<and>
        (\<exists>b. in_buf c @ concat (map snd ps) = b @ in_buf c' \<and>
           feed_conn tbl 0 (parse_state c, s) b = Some (parse_state c', s'))"
  using assms
proof (induction ps arbitrary: c s)
  case Nil
  then show ?case by simp
next
  case (Cons p ps)
  let ?inp = "in_buf c @ snd p"
  note r = receive_feed[OF Cons.prems, of tbl "fst p" s "snd p"]
  have app: "feed_conn tbl 0 (parse_state c, s) (taken ?inp @ b) =
      Option.bind (feed_conn tbl 0 (parse_state c, s) (taken ?inp)) (\<lambda>cs'. feed_conn tbl 0 cs' b)" for b
    using conn.feed_append[of "(parse_state c, s)" tbl 0 "taken ?inp" b] Cons.prems by simp
  have inp: "in_buf c @ concat (map snd (p # ps)) = taken ?inp @ held ?inp @ concat (map snd ps)"
    using taken_held(1)[of ?inp] by (metis append.assoc concat.simps(2) list.simps(9))
  show ?case
  proof (cases "receive tbl (fst p) (c, s) (snd p)")
    case None
    with r have "feed_conn tbl 0 (parse_state c, s) (taken ?inp) = None" by simp
    with None show ?thesis unfolding inp app by simp
  next
    case (Some cs)
    obtain c1 s1 where cs: "cs = (c1, s1)" by (cases cs) auto
    from r[symmetric] Some cs have f: "feed_conn tbl 0 (parse_state c, s) (taken ?inp) = Some (parse_state c1, s1)"
      and hd: "in_buf c1 = held ?inp"
      by auto
    have i1: "conn_inv c1"
      using conn.feed_ok[of "(parse_state c, s)" tbl 0 "taken ?inp"] f Cons.prems by simp
    note IH = Cons.IH[OF i1, of s1]
    show ?thesis
    proof (cases "ps = []")
      case True
      with Some cs f hd i1 inp show ?thesis using taken_held(2)[of ?inp] by auto
    next
      case False
      show ?thesis
      proof (cases "receive_all tbl (c1, s1) ps")
        case None
        with IH hd have "feed_conn tbl 0 (parse_state c1, s1) (held ?inp @ concat (map snd ps)) = None" by simp
        with None Some cs f show ?thesis unfolding inp app by simp
      next
        case s2: (Some cs2)
        obtain c2 s2 where cs2: "cs2 = (c2, s2)" by (cases cs2) auto
        from IH s2 cs2 False hd obtain b where b: "held ?inp @ concat (map snd ps) = b @ in_buf c2"
          "feed_conn tbl 0 (parse_state c1, s1) b = Some (parse_state c2, s2)" "conn_inv c2" "length (in_buf c2) \<le> 1"
          by auto
        have "in_buf c @ concat (map snd (p # ps)) = (taken ?inp @ b) @ in_buf c2" using inp b(1) by simp
        moreover have "feed_conn tbl 0 (parse_state c, s) (taken ?inp @ b) = Some (parse_state c2, s2)"
          unfolding app f using b(2) by simp
        ultimately show ?thesis using Some cs s2 cs2 b(3,4) by (auto intro!: exI[of _ "taken ?inp @ b"])
      qed
    qed
  qed
qed

lemma receive_in_buf:
  "receive tbl now (c, s) bytes = Some (c', s') \<Longrightarrow> conn_inv c \<Longrightarrow> in_buf c' = held (in_buf c @ bytes)"
  using receive_feed[of c tbl now s bytes] by (auto simp: map_option_case split: option.splits)


lemma ReadCallback_loop_step:
  "ProcessCmd tbl now c s = None \<Longrightarrow> ReadCallback_loop tbl now c s = None"
  "ProcessCmd tbl now c s = Some (True, c', s') \<Longrightarrow> ReadCallback_loop tbl now c s = ReadCallback_loop tbl now c' s'"
  "ProcessCmd tbl now c s = Some (False, c', s') \<Longrightarrow> ReadCallback_loop tbl now c s = Some (c', s')"
  by (simp_all add: ReadCallback_loop.simps[of tbl now c])

lemma ProcessCmd_loop_wait:
  "0 < argnum c \<Longrightarrow> ParaseData (unparsed c) c = Some (0, c') \<Longrightarrow> ProcessCmd_loop c = Some c'"
  by (simp add: ProcessCmd_loop.simps[of c])

primrec run_cmds :: "'s cmd_table \<Rightarrow> 's \<Rightarrow> string list list \<Rightarrow> ('s \<times> string) ub" where
  "run_cmds tbl s [] = Some (s, [])"
| "run_cmds tbl s (args # cmds) = do {
     (s, out) \<leftarrow> run_cmd tbl args s;
     (s, outs) \<leftarrow> run_cmds tbl s cmds;
     Some (s, out @ outs)
   }"

lemma feed_commands:
  "\<lbrakk>idle c; cmdbuffer c = []; \<forall>args \<in> set cmds. sendable args\<rbrakk> \<Longrightarrow>
   feed_conn tbl now (c, s) (concat (map resp_command cmds)) =
     map_option (\<lambda>(s', out). (c\<lparr>out_buf := out_buf c @ out, activetime := now\<rparr>, s')) (run_cmds tbl s cmds)"
proof (induction cmds arbitrary: c s)
  case Nil
  have "c\<lparr>out_buf := out_buf c @ [], activetime := now\<rparr> = c\<lparr>activetime := now\<rparr>" by simp
  with Nil show ?case by (simp add: feed_conn_nothing)
next
  case (Cons args cmds)
  let ?r = "concat (map resp_command cmds)"
  let ?c = "pushed c (resp_command args @ ?r)"
  have id: "idle ?c" using Cons.prems by (simp add: idle_def)
  note p = ProcessCmd_command[OF id, of args ?r tbl now s]
  show ?case
  proof (cases "run_cmd tbl args s")
    case None
    with p Cons.prems have "ProcessCmd tbl now ?c s = None" by simp
    from ReadCallback_loop_step(1)[OF this] None show ?thesis by (simp add: feed_conn_def)
  next
    case (Some so)
    obtain s1 o1 where so: "so = (s1, o1)" by (cases so) auto
    let ?d = "c\<lparr>out_buf := out_buf c @ o1, activetime := now\<rparr>"
    have "feed_conn tbl now (c, s) (resp_command args @ ?r) = feed_conn tbl now (?d, s1) ?r"
    proof -
      have "ProcessCmd tbl now ?c s = Some (True, ?c\<lparr>cmdbuffer := ?r, out_buf := out_buf c @ o1, activetime := now\<rparr>, s1)"
        using p Some so Cons.prems by simp
      moreover have "?c\<lparr>cmdbuffer := ?r, out_buf := out_buf c @ o1, activetime := now\<rparr> = pushed ?d ?r"
        using Cons.prems(2) by simp
      ultimately have "ProcessCmd tbl now ?c s = Some (True, pushed ?d ?r, s1)" by (simp only:)
      from ReadCallback_loop_step(2)[OF this] show ?thesis by (simp only: feed_conn_def prod.case)
    qed
    also have "\<dots> = map_option (\<lambda>(s', out). (?d\<lparr>out_buf := out_buf ?d @ out, activetime := now\<rparr>, s')) (run_cmds tbl s1 cmds)"
      by (rule Cons.IH) (use Cons.prems in \<open>auto simp: idle_def\<close>)
    finally show ?thesis using Some so by (cases "run_cmds tbl s1 cmds") auto
  qed
qed

lemma receive_all_last:
  assumes "conn_inv c" "receive_all tbl (c, s) (ps @ [p]) = Some (c', s')"
  shows "\<exists>h. in_buf c' = held (h @ snd p)"
  using assms
proof (induction ps arbitrary: c s)
  case Nil
  then show ?case using receive_in_buf[of tbl "fst p" c s "snd p"] by (auto split: bind_splits)
next
  case (Cons q ps)
  then obtain c1 s1 where r: "receive tbl (fst q) (c, s) (snd q) = Some (c1, s1)"
    "receive_all tbl (c1, s1) (ps @ [p]) = Some (c', s')" by (auto split: bind_splits)
  have "conn_inv c1" using receive_all_feed[OF Cons.prems(1), of tbl s "[q]"] r by simp
  from Cons.IH[OF this r(2)] show ?case .
qed

text \<open>A command is not run before its last byte.\<close>

lemma feed_incomplete:
  assumes c: "idle c" "cmdbuffer c = []" and args: "sendable args" "run_cmd tbl args s \<noteq> None"
    and split: "resp_command args = p @ q" "q \<noteq> []"
  shows "\<exists>c'. feed_conn tbl now (c, s) p = Some (c', s) \<and> out_buf c' = out_buf c"
proof -
  let ?c = "pushed c p"
  have id: "idle (pushed c (p @ q))" using c by (simp add: idle_def)
  have inv: "conn_inv ?c" using c by (simp add: conn_inv_def idle_def)
  obtain s1 o1 where whole: "ProcessCmd tbl now (pushed c (p @ q)) s =
      Some (True, (pushed c (p @ q))\<lparr>cmdbuffer := [], out_buf := out_buf c @ o1, activetime := now\<rparr>, s1)"
    using ProcessCmd_command[OF id args(1), of "[]" tbl now s] args(2) c split by auto
  note ext = ProcessCmd_pushed[OF inv, of tbl now q s]
  consider (ub) "ProcessCmd tbl now ?c s = None"
    | (cmd) c' s' where "ProcessCmd tbl now ?c s = Some (True, c', s')"
    | (wait) c' s' where "ProcessCmd tbl now ?c s = Some (False, c', s')"
    by (cases "ProcessCmd tbl now ?c s") auto
  then show ?thesis
  proof cases
    case ub
    with ext whole show ?thesis by simp
  next
    case cmd
    with ext whole have "(pushed c (p @ q))\<lparr>cmdbuffer := [], out_buf := out_buf c @ o1, activetime := now\<rparr> = pushed c' q"
      by simp
    from arg_cong[OF this, of cmdbuffer] split(2) show ?thesis by simp
  next
    case wait
    have "out_buf c' = out_buf c"
      using wait by (auto simp: ProcessCmd_def ProcessCmd_head_def Let_def
          dest!: ProcessCmd_loop_facts split: bind_splits if_splits option.splits)
    moreover have "s' = s" using ext wait by simp
    moreover have "feed_conn tbl now (c, s) p = Some (c', s')"
      using ReadCallback_loop_step(3)[OF wait] by (simp add: feed_conn_def)
    ultimately show ?thesis by blast
  qed
qed

text \<open>An argument of no bytes is never accepted.\<close>

lemma ParaseLength_zero: "ParaseLength (x # dec_nat 0 @ CRLF @ r) = Some (0, 0)"
proof -
  have line: "takeWhile (\<lambda>ch. ch \<noteq> LF) (dec_nat 0 @ CRLF @ r) = dec_nat 0 @ [CR]"
    using dec_nat_no_ctl[of 0] by (subst takeWhile_append2) auto
  have "length (dec_nat 0) \<le> 10" by (simp add: dec_nat.simps)
  then show ?thesis
    using line by (simp add: ParaseLength_def Let_def parase_tmp_dec_nat strtol_dec_nat_stop not_digit_ctl
        clamp64_def INT64_MIN_def INT64_MAX_def wrap32_id INT_MIN_def INT_MAX_def)
qed

lemma feed_empty_argument:
  assumes c: "idle c" "cmdbuffer c = []"
    and args: "\<forall>a \<in> set args. a \<noteq> [] \<and> int (length a) + 2 \<le> INT_MAX" "length args < n" "int n \<le> INT_MAX"
  shows "\<exists>c'. feed_conn tbl now (c, s) (''*'' @ dec_nat n @ CRLF @ concat (map resp_bulk args) @ resp_bulk [] @ r)
           = Some (c', s) \<and> out_buf c' = out_buf c"
proof -
  let ?b = "concat (map resp_bulk args)" and ?r = "resp_bulk [] @ r"
  let ?bytes = "''*'' @ dec_nat n @ CRLF @ ?b @ ?r"
  let ?m = "length (dec_nat n) + 3"
  let ?c = "(pushed c ?bytes)\<lparr>activetime := now\<rparr>"
  let ?c1 = "?c\<lparr>parsed := ?m, argnum := int n, argv := Some []\<rparr>"
  let ?c2 = "?c1\<lparr>argv := Some ([] @ args), argnum := int (n - length args), parsed := parsed ?c1 + length ?b\<rparr>"
  have "0 < n" using args by simp
  then have h: "ProcessCmd_head ?c = Some (Some ?c1)"
    using ParaseLength_dec_nat[of n "CHR ''*''" "?b @ ?r"] args c
    by (simp add: ProcessCmd_head_def malloc_pos first_char_def idle_def)
  have un: "unparsed ?c1 = ?b @ ?r" using c drop_header[of "dec_nat n" "CHR ''*''" "?b @ ?r"] by simp
  have "ProcessCmd_loop ?c1 = ProcessCmd_loop ?c2"
    by (rule ProcessCmd_loop_bulks[where r = ?r]) (use args un in simp_all)
  moreover have "unparsed ?c2 = ?r"
    using un drop_drop[of "length ?b" ?m "cmdbuffer ?c"] by (simp add: add.commute)
  moreover from this have "ParaseData (unparsed ?c2) ?c2 = Some (0, ?c2)"
    using ParaseLength_zero[of "CHR ''$''" "CRLF @ r"] by (simp add: ParaseData_def resp_bulk_def first_char_def)
  moreover have "ProcessCmd_loop ?c2 = Some ?c2"
    by (rule ProcessCmd_loop_wait) (use args(2) calculation(3) in \<open>simp, blast\<close>)
  ultimately have l: "ProcessCmd_loop ?c1 = Some ?c2" by (simp only:)
  have "ProcessCmd tbl now (pushed c ?bytes) s = Some (False, ?c2, s)"
    using h l args(2) by (simp add: ProcessCmd_def)
  from ReadCallback_loop_step(3)[OF this] have "feed_conn tbl now (c, s) ?bytes = Some (?c2, s)"
    by (simp add: feed_conn_def)
  then show ?thesis by (intro exI[of _ ?c2]) simp
qed


lemma receive_commands:
  assumes "idle c" "cmdbuffer c = []" "in_buf c = []" "\<forall>args \<in> set cmds. sendable args"
    and "concat (map snd ps) = concat (map resp_command cmds)" "ps \<noteq> []" "2 \<le> length (snd (last ps))"
  shows "map_option (\<lambda>(c', s'). (c'\<lparr>activetime := 0\<rparr>, s')) (receive_all tbl (c, s) ps) =
         map_option (\<lambda>(s', out). (c\<lparr>out_buf := out_buf c @ out, activetime := 0\<rparr>, s')) (run_cmds tbl s cmds)"
proof -
  have id: "idle (parse_state c)" "conn_inv c" using assms(1) by (simp_all add: idle_def conn_inv_def)
  note ps = parse_state_empty[OF assms(3)]
  have f: "feed_conn tbl 0 (parse_state c, s) (concat (map snd ps)) =
      map_option (\<lambda>(s', out). (c\<lparr>out_buf := out_buf c @ out, activetime := 0\<rparr>, s')) (run_cmds tbl s cmds)"
    using feed_commands[OF id(1), of cmds tbl 0 s] assms(2-5) by (simp add: ps)
  note r = receive_all_feed[OF id(2), of tbl s ps]
  show ?thesis
  proof (cases "receive_all tbl (c, s) ps")
    case None
    with r f assms(3) show ?thesis by simp
  next
    case (Some cs)
    obtain c' s' where cs: "cs = (c', s')" by (cases cs) auto
    have "receive_all tbl (c, s) (butlast ps @ [last ps]) = Some (c', s')" using Some cs assms(6) by simp
    from receive_all_last[OF id(2) this] assms(7) have "in_buf c' = []" by (auto simp: held_def)
    moreover from this r Some cs assms(3,6) f
    have "map_option (\<lambda>(s', out). (c\<lparr>out_buf := out_buf c @ out, activetime := 0\<rparr>, s')) (run_cmds tbl s cmds)
        = Some (parse_state c', s')" by simp
    ultimately show ?thesis using Some cs by (auto simp: parse_state_empty)
  qed
qed

subsection \<open>Connections\<close>

text \<open>The callbacks that libevent runs, one at a time.\<close>

inductive srv_step :: "'s xRedisServerBase \<Rightarrow> 's xRedisServerBase \<Rightarrow> bool" where
  accept: "srv_step srv (AcceptCallback fd now srv)"
| read: "ReadEvent now a bytes srv = Some srv' \<Longrightarrow> srv_step srv srv'"
| timer: "TimeoutCallback now' a srv = Some srv' \<Longrightarrow> srv_step srv srv'"
| error: "ErrorCallback a srv = Some srv' \<Longrightarrow> srv_step srv srv'"

abbreviation srv_reaches :: "'s xRedisServerBase \<Rightarrow> 's xRedisServerBase \<Rightarrow> bool" where
  "srv_reaches \<equiv> srv_step\<^sup>*\<^sup>*"

definition srv_inv :: "'s xRedisServerBase \<Rightarrow> bool" where
  "srv_inv srv \<longleftrightarrow>
     sessionbase srv = 1000 + of_nat (created srv) \<and>
     (\<forall>a c. heap srv a = Some c \<longrightarrow>
        a < created srv \<and> sid c = 1000 + of_nat a \<and> connectionmap srv (1000 + of_nat a) = Some a \<and> conn_inv c) \<and>
     (\<forall>sd a. connectionmap srv sd = Some a \<longrightarrow> (\<exists>c. heap srv a = Some c \<and> sid c = sd))"

lemma srv_invD:
  assumes "srv_inv srv"
  shows "sessionbase srv = 1000 + of_nat (created srv)"
    and "heap srv a = Some c \<Longrightarrow> a < created srv \<and> sid c = 1000 + of_nat a \<and> connectionmap srv (1000 + of_nat a) = Some a \<and> conn_inv c"
    and "connectionmap srv sd = Some a \<Longrightarrow> \<exists>c. heap srv a = Some c \<and> sid c = sd"
  using assms unfolding srv_inv_def by blast+

lemma srv_inv_new: "srv_inv (xRedisServerBase_new s)"
  by (simp add: srv_inv_def xRedisServerBase_new_def)

lemma of_nat_u32_inj: "a < 2 ^ 32 \<Longrightarrow> b < 2 ^ 32 \<Longrightarrow> (of_nat a :: u32) = of_nat b \<longleftrightarrow> a = b"
proof -
  assume "a < 2 ^ 32" "b < 2 ^ 32"
  then have "unat (of_nat a :: u32) = a" "unat (of_nat b :: u32) = b"
    by (simp_all add: unsigned_of_nat take_bit_nat_eq_self)
  then show ?thesis by metis
qed

lemma session_fresh:
  assumes "srv_inv srv" "created srv < 2 ^ 32"
  shows "connectionmap srv (sessionbase srv) = None"
proof (rule ccontr)
  assume "connectionmap srv (sessionbase srv) \<noteq> None"
  then obtain a where "connectionmap srv (sessionbase srv) = Some a" by auto
  from srv_invD(3)[OF assms(1) this] obtain c where c: "heap srv a = Some c" "sid c = sessionbase srv" by blast
  note d = srv_invD(2)[OF assms(1) c(1)]
  then have "(of_nat a :: u32) = of_nat (created srv)" using c(2) srv_invD(1)[OF assms(1)] by simp
  with d assms(2) show False using of_nat_u32_inj[of a "created srv"] by simp
qed

lemma MallocConnection_inv:
  assumes "srv_inv srv" "created srv < 2 ^ 32"
  shows "srv_inv (MallocConnection now srv)"
proof -
  note f = session_fresh[OF assms] and inv = srv_invD[OF assms(1)]
  have ne: "sid c \<noteq> sessionbase srv" if "heap srv a = Some c" for a c
    using inv(2)[OF that] f by auto
  show ?thesis
    unfolding srv_inv_def
  proof (intro conjI allI impI, goal_cases)
    case 1
    show ?case by (simp add: MallocConnection_def inv(1))
  next
    case (2 a c)
    then show ?case using inv(2)[of a c]
      by (auto simp: MallocConnection_def split: if_splits)
  next
    case (3 a c)
    then show ?case using inv(2)[of a c]
      by (auto simp: MallocConnection_def xRedisConnectorBase_new_def inv(1) split: if_splits)
  next
    case (4 a c)
    then show ?case using inv(2)[of a c] ne[of a c] f
      by (auto simp: MallocConnection_def xRedisConnectorBase_new_def inv(1) split: if_splits)
  next
    case (5 a c)
    then show ?case using inv(2)[of a c]
      by (auto simp: MallocConnection_def xRedisConnectorBase_new_def conn_inv_def split: if_splits)
  next
    case (6 sd a)
    show ?case
    proof (cases "sd = sessionbase srv")
      case True
      with 6 f have "a = created srv" by (simp add: MallocConnection_def)
      with True show ?thesis by (simp add: MallocConnection_def xRedisConnectorBase_new_def)
    next
      case False
      with 6 f have "connectionmap srv sd = Some a" by (simp add: MallocConnection_def)
      from inv(3)[OF this] obtain c where c: "heap srv a = Some c" "sid c = sd" by blast
      with inv(2)[OF c(1)] show ?thesis by (simp add: MallocConnection_def)
    qed
  qed
qed

lemma FreeConnection_own:
  assumes "srv_inv srv" "heap srv a = Some c"
  shows "FreeConnection (sid c) srv =
    Some (True, srv\<lparr>heap := (heap srv)(a := None), connectionmap := (connectionmap srv)(sid c := None)\<rparr>)"
  using srv_invD(2)[OF assms] assms(2) by (simp add: FreeConnection_def)

lemma Free_inv:
  assumes "srv_inv srv" "heap srv a = Some c"
  shows "srv_inv (srv\<lparr>heap := (heap srv)(a := None), connectionmap := (connectionmap srv)(sid c := None)\<rparr>)"
proof -
  note inv = srv_invD[OF assms(1)]
  note own = inv(2)[OF assms(2)]
  have "sid d \<noteq> sid c" if "heap srv b = Some d" "b \<noteq> a" for b d
    using inv(2)[OF that(1)] own that(2) by auto
  moreover have "\<exists>d. heap srv b = Some d \<and> sid d = sd \<and> b \<noteq> a"
    if "connectionmap srv sd = Some b" "sd \<noteq> sid c" for sd b
    using inv(3)[OF that(1)] assms(2) that(2) by auto
  ultimately show ?thesis
    unfolding srv_inv_def using inv(1,2) own by (fastforce split: if_splits)
qed

lemma ProcessCmd_sid: "ProcessCmd tbl now c s = Some (r, c', s') \<Longrightarrow> sid c' = sid c"
  by (auto simp: ProcessCmd_def ProcessCmd_head_def DoCmd_def FreeArg_def Let_def
      dest!: ProcessCmd_loop_facts split: bind_splits if_splits option.splits)

lemma ReadCallback_loop_sid: "ReadCallback_loop tbl now c s = Some (c', s') \<Longrightarrow> sid c' = sid c"
proof (induction tbl now c s rule: ReadCallback_loop.induct)
  case (1 tbl now c s)
  then obtain r c1 s1 where p: "ProcessCmd tbl now c s = Some (r, c1, s1)"
    by (cases "ProcessCmd tbl now c s") (auto simp: ReadCallback_loop_step)
  show ?case
  proof (cases r)
    case True
    have "ReadCallback_loop tbl now c1 s1 = Some (c', s')"
      using 1(2) ReadCallback_loop_step(2)[of tbl now c s c1 s1] p True by simp
    from 1(1)[OF p refl refl True this] ProcessCmd_sid[OF p] show ?thesis by simp
  next
    case False
    with 1(2) ReadCallback_loop_step(3)[of tbl now c s c1 s1] p ProcessCmd_sid[OF p] show ?thesis by simp
  qed
qed

lemma receive_inv:
  assumes "conn_inv c" "receive tbl now (c, s) b = Some (c', s')"
  shows "conn_inv c'" "sid c' = sid c"
proof -
  show "conn_inv c'" using receive_all_feed[OF assms(1), of tbl s "[(now, b)]"] assms(2) by simp
  show "sid c' = sid c"
    using assms(2) by (auto simp: receive_def ReadCallback_def Let_def split: if_splits dest!: ReadCallback_loop_sid)
qed

lemma ReadEvent_inv:
  assumes "srv_inv srv" "ReadEvent now a b srv = Some srv'"
  shows "srv_inv srv'" "created srv' = created srv"
proof -
  obtain c c' s' where c: "heap srv a = Some c" and r: "receive (mCmdTables srv) now (c, app srv) b = Some (c', s')"
    and srv': "srv' = srv\<lparr>heap := (heap srv)(a \<mapsto> c'), app := s'\<rparr>"
    using assms(2) by (auto simp: ReadEvent_def split: bind_splits)
  note inv = srv_invD[OF assms(1)]
  have "conn_inv c" using inv(2)[OF c] by simp
  note r' = receive_inv[OF this r]
  show "created srv' = created srv" by (simp add: srv')
  show "srv_inv srv'"
    unfolding srv_inv_def
  proof (intro conjI allI impI, goal_cases)
    case (6 sd b)
    then have "connectionmap srv sd = Some b" by (simp add: srv')
    from inv(3)[OF this] c r'(2) show ?case by (auto simp: srv')
  qed (use inv(1) inv(2) inv(2)[OF c] r' in \<open>auto simp: srv' split: if_splits\<close>)
qed

lemma srv_step_inv: "srv_step srv srv' \<Longrightarrow> created srv' \<le> 2 ^ 32 \<Longrightarrow> srv_inv srv \<Longrightarrow> srv_inv srv'"
proof (induction rule: srv_step.induct)
  case (accept srv fd now)
  have "created (MallocConnection now srv) = Suc (created srv)" by (simp add: MallocConnection_def)
  with accept show ?case by (cases "fd < 0") (auto simp: AcceptCallback_def intro: MallocConnection_inv)
next
  case (read now a bytes srv srv')
  then show ?case by (blast intro: ReadEvent_inv)
next
  case (timer now' a srv srv')
  then show ?case
    by (auto simp: TimeoutCallback_def FreeConnection_own Free_inv split: bind_splits if_splits)
next
  case (error a srv srv')
  then show ?case by (auto simp: ErrorCallback_def FreeConnection_own Free_inv split: bind_splits)
qed

lemma srv_step_created: "srv_step srv srv' \<Longrightarrow> created srv \<le> created srv'"
  by (erule srv_step.cases)
    (auto simp: AcceptCallback_def MallocConnection_def ReadEvent_def TimeoutCallback_def ErrorCallback_def
      FreeConnection_def split: bind_splits if_splits option.splits)

lemma srv_reaches_inv:
  "srv_reaches srv0 srv \<Longrightarrow> srv_inv srv0 \<Longrightarrow> created srv \<le> 2 ^ 32 \<Longrightarrow> srv_inv srv"
proof (induction rule: rtranclp_induct)
  case (step y z)
  then show ?case using srv_step_created[of y z] srv_step_inv[of y z] by simp
qed


text \<open>The server after \<open>n\<close> connections were accepted and none has ended.\<close>

primrec accepted :: "nat \<Rightarrow> 's xRedisServerBase \<Rightarrow> 's xRedisServerBase" where
  "accepted 0 srv = srv"
| "accepted (Suc n) srv = AcceptCallback 3 0 (accepted n srv)"

lemma accepted_heap:
  "heap (accepted n (xRedisServerBase_new s)) = (\<lambda>a. if a < n then Some (xRedisConnectorBase_new 0 (1000 + of_nat a)) else None)
   \<and> created (accepted n (xRedisServerBase_new s)) = n \<and> sessionbase (accepted n (xRedisServerBase_new s)) = 1000 + of_nat n
   \<and> (0 < n \<longrightarrow> connectionmap (accepted n (xRedisServerBase_new s)) 1000 = Some 0)"
proof (induction n)
  case 0
  show ?case by (simp add: xRedisServerBase_new_def fun_eq_iff)
next
  case (Suc n)
  let ?srv = "accepted n (xRedisServerBase_new s)"
  have "heap (accepted (Suc n) (xRedisServerBase_new s)) = (heap ?srv)(n \<mapsto> xRedisConnectorBase_new 0 (1000 + of_nat n))"
    using Suc by (simp add: AcceptCallback_def MallocConnection_def)
  also have "\<dots> = (\<lambda>a. if a < Suc n then Some (xRedisConnectorBase_new 0 (1000 + of_nat a)) else None)"
    using Suc by (auto simp: fun_eq_iff less_Suc_eq)
  finally have h: "heap (accepted (Suc n) (xRedisServerBase_new s)) = \<dots>" .
  have m: "connectionmap (accepted (Suc n) (xRedisServerBase_new s)) 1000 = Some 0"
  proof (cases "n = 0")
    case True
    then show ?thesis by (simp add: AcceptCallback_def MallocConnection_def xRedisServerBase_new_def)
  next
    case False
    with Suc have "connectionmap ?srv 1000 = Some 0" by blast
    then show ?thesis by (auto simp: AcceptCallback_def MallocConnection_def split: option.splits)
  qed
  have "created (accepted (Suc n) (xRedisServerBase_new s)) = Suc n"
    "sessionbase (accepted (Suc n) (xRedisServerBase_new s)) = 1000 + of_nat (Suc n)"
    using Suc by (simp_all add: AcceptCallback_def MallocConnection_def)
  with h m show ?case by blast
qed

lemma accepted_reachable: "srv_reaches (xRedisServerBase_new s) (accepted n (xRedisServerBase_new s))"
  by (induction n) (auto intro: rtranclp.rtrancl_into_rtrancl srv_step.accept)

lemma receive_incomplete:
  assumes "idle c" "cmdbuffer c = []" "in_buf c = []" "sendable args" "run_cmd tbl args s \<noteq> None"
    and "resp_command args = b @ q" "q \<noteq> []" "feed_conn tbl 0 (parse_state c, s) b = r"
  shows "\<exists>c'. r = Some (c', s) \<and> out_buf c' = out_buf c"
  using feed_incomplete[of "parse_state c" args tbl s b q 0] assms by (auto simp: idle_def)

lemma resp_command_long: "2 \<le> length (butlast (resp_command args))"
proof -
  have "1 \<le> length (dec_nat n)" for n by (cases "dec_nat n") (use dec_nat_nonempty in auto)
  from this[of "length args"] show ?thesis by (simp add: resp_command_def)
qed

subsection \<open>Replies\<close>

lemma NetPrintf_short: "length s \<le> 255 \<Longrightarrow> NetPrintf s = Some s"
  by (simp add: NetPrintf_def)

lemma SendBulkReply_eq: "length r < 10 ^ 200 \<Longrightarrow> SendBulkReply r = Some (resp_bulk r)"
  using length_dec_nat[of "length r" 200] by (simp add: SendBulkReply_def resp_bulk_def NetPrintf_short)

lemma SendBulkReplies_eq:
  "\<forall>r \<in> set rs. length r < 10 ^ 200 \<Longrightarrow> SendBulkReplies rs = Some (concat (map resp_bulk rs))"
  by (induction rs) (simp_all add: SendBulkReply_eq)

lemma SendMultiBulkReply_eq:
  "\<forall>r \<in> set rs. length r < 10 ^ 200 \<Longrightarrow> length rs < 10 ^ 200 \<Longrightarrow> SendMultiBulkReply rs = Some (resp_command rs)"
  using length_dec_nat[of "length rs" 200]
  by (simp add: SendMultiBulkReply_def resp_command_def NetPrintf_short SendBulkReplies_eq)

lemma SendIntReply_eq: "is_int64 n \<Longrightarrow> SendIntReply n = Some ('':'' @ dec_int n @ CRLF)"
proof -
  assume a: "is_int64 n"
  have "nat n < 10 ^ 19" "nat (- n) < 10 ^ 19"
    using a by (auto simp: is_int64_def INT64_MIN_def INT64_MAX_def nat_less_iff)
  from this[THEN length_dec_nat] show ?thesis
    unfolding SendIntReply_def by (intro NetPrintf_short) (simp add: dec_int_def)
qed

lemma SendNullReply_eq: "SendNullReply = Some (''$-1'' @ CRLF)"
  by (simp add: SendNullReply_def NetPrintf_def)

section \<open>Properties\<close>


text \<open>
  C31: No callback runs and nothing is written before the last byte of a command has arrived.
\<close>

theorem redis_incomplete:
  assumes "idle c" "cmdbuffer c = []" "in_buf c = []" "sendable args" "run_cmd tbl args s \<noteq> None"
    and "resp_command args = concat (map snd ps) @ q" "q \<noteq> []"
  shows "\<exists>c'. receive_all tbl (c, s) ps = Some (c', s) \<and> out_buf c' = out_buf c"
proof (cases "receive_all tbl (c, s) ps")
  case None
  then have "feed_conn tbl 0 (parse_state c, s) (concat (map snd ps)) = None"
    using receive_all_feed[OF idle_inv[OF assms(1)], of tbl s ps] assms(3) by simp
  from receive_incomplete[OF assms this] show ?thesis by simp
next
  case (Some cs)
  obtain c' s' where cs: "cs = (c', s')" by (cases cs) auto
  show ?thesis
  proof (cases "ps = []")
    case True
    with Some cs show ?thesis by simp
  next
    case False
    then obtain b where b: "concat (map snd ps) = b @ in_buf c'"
      "feed_conn tbl 0 (parse_state c, s) b = Some (parse_state c', s')"
      using receive_all_feed[OF idle_inv[OF assms(1)], of tbl s ps] Some cs assms(3) by auto
    from receive_incomplete[OF assms(1-5) _ _ b(2), of "in_buf c' @ q"] assms(6,7) b(1) Some cs show ?thesis by auto
  qed
qed

text \<open>
  When the last byte of a command arrives alone it stays in the input buffer: the
  command is complete, and it is neither run nor answered.
\<close>

theorem redis_last_byte:
  assumes "idle c" "cmdbuffer c = []" "in_buf c = []" "sendable args" "run_cmd tbl args s \<noteq> None"
    and "resp_command args = b @ [x]"
  shows "\<exists>c'. receive_all tbl (c, s) [(t1, b), (t2, [x])] = Some (c', s) \<and> out_buf c' = out_buf c \<and> in_buf c' = [x]"
proof -
  have lb: "2 \<le> length b" using resp_command_long[of args] assms(6) by simp
  have inv: "conn_inv c" by (rule idle_inv[OF assms(1)])
  obtain c1 where c1: "receive tbl t1 (c, s) b = Some (c1, s)" "in_buf c1 = []" "out_buf c1 = out_buf c"
    "feed_conn tbl 0 (parse_state c, s) b = Some (parse_state c1, s)"
  proof -
    obtain d where d: "feed_conn tbl 0 (parse_state c, s) b = Some (d, s)" "out_buf d = out_buf c"
      using receive_incomplete[OF assms(1-6) _ refl] by auto
    have "taken b = b" "held b = []" using lb by (auto simp: taken_def held_def)
    with receive_feed[OF inv, of tbl t1 s b] d assms(3) that show ?thesis by auto
  qed
  have i1: "conn_inv c1" using receive_inv(1)[OF inv c1(1)] .
  have "feed_conn tbl 0 (parse_state c1, s) [] = feed_conn tbl 0 (parse_state c, s) b"
    using conn.feed_append[of "(parse_state c, s)" tbl 0 b "[]"] c1(4) inv by simp
  then have "map_option (\<lambda>(c', s'). (parse_state c', in_buf c', s')) (receive tbl t2 (c1, s) [x]) =
      Some (parse_state c1, [x], s)"
    using receive_feed[OF i1, of tbl t2 s "[x]"] c1 by (simp add: taken_def held_def)
  then obtain c2 where c2: "receive tbl t2 (c1, s) [x] = Some (c2, s)" "parse_state c2 = parse_state c1" "in_buf c2 = [x]"
    by auto
  have "out_buf c2 = out_buf c1" using arg_cong[OF c2(2), of out_buf] by simp
  with c1 c2 show ?thesis by simp
qed

text \<open>
  C39: A command with an empty argument is never run, and nothing sent after it is either:
  the connection stays silent whatever bytes follow.
\<close>

theorem redis_empty_argument:
  assumes "idle c" "cmdbuffer c = []" "in_buf c = []"
    and "\<forall>a \<in> set args. a \<noteq> [] \<and> int (length a) + 2 \<le> INT_MAX" "length args < n" "int n \<le> INT_MAX"
    and "concat (map snd ps) = ''*'' @ dec_nat n @ CRLF @ concat (map resp_bulk args) @ resp_bulk [] @ later" "later \<noteq> []"
  shows "\<exists>c'. receive_all tbl (c, s) ps = Some (c', s) \<and> out_buf c' = out_buf c"
proof -
  let ?pre = "''*'' @ dec_nat n @ CRLF @ concat (map resp_bulk args) @ resp_bulk []"
  have id: "idle (parse_state c)" "conn_inv c" using assms(1) by (simp_all add: idle_def conn_inv_def)
  have f: "\<exists>c'. feed_conn tbl 0 (parse_state c, s) (?pre @ r) = Some (c', s) \<and> out_buf c' = out_buf c" for r
    using feed_empty_argument[OF id(1) _ assms(4-6), of tbl 0 s r] assms(2) by simp
  note r = receive_all_feed[OF id(2), of tbl s ps]
  show ?thesis
  proof (cases "receive_all tbl (c, s) ps")
    case None
    with r f[of later] assms(3,7) show ?thesis by simp
  next
    case (Some cs)
    obtain c' s' where cs: "cs = (c', s')" by (cases cs) auto
    have "ps \<noteq> []" using assms(7) by auto
    then obtain b where b: "?pre @ later = b @ in_buf c'" "length (in_buf c') \<le> 1"
      "feed_conn tbl 0 (parse_state c, s) b = Some (parse_state c', s')"
      using r Some cs assms(3,7) by auto
    obtain l where "b = ?pre @ l"
    proof (cases "in_buf c'")
      case Nil
      with b(1) that show ?thesis by auto
    next
      case (Cons x xs)
      with b(2) have "in_buf c' = [x]" by simp
      then have "b = ?pre @ butlast later" using b(1) assms(8) by (metis butlast_append butlast_snoc)
      with that show ?thesis by blast
    qed
    with f[of l] b(3) Some cs show ?thesis by auto
  qed
qed

text \<open>
  C30: In every state reached with at most \<open>2\<^sup>3\<^sup>2\<close> connections accepted, the error callback of a
  live connector frees that connector and no other; the timer callback does so exactly when the
  connection has been idle for more than an hour; the session number finds the connector.
\<close>

theorem connections_isolated:
  assumes "srv_reaches (xRedisServerBase_new s) srv" "created srv \<le> 2 ^ 32" "heap srv a = Some c"
  shows "let closed = srv\<lparr>heap := (heap srv)(a := None), connectionmap := (connectionmap srv)(sid c := None)\<rparr>
    in ErrorCallback a srv = Some closed \<and>
       TimeoutCallback now a srv = Some (if now - uint (activetime c) > 3600 then closed else srv) \<and>
       FindConnection (sid c) srv = Some a"
  using FreeConnection_own[OF srv_reaches_inv[OF assms(1) srv_inv_new assms(2)] assms(3)]
    srv_invD(2)[OF srv_reaches_inv[OF assms(1) srv_inv_new assms(2)] assms(3)] assms(3)
  by (simp add: ErrorCallback_def TimeoutCallback_def OnTimer_def TIMEOUT_CLOSE_def FindConnection_def Let_def)

text \<open>
  After \<open>2\<^sup>3\<^sup>2\<close> accepted connections session numbers repeat, and the error callback of one
  connection frees the object of another that is still in use.
\<close>

theorem session_number_reuse:
  "\<exists>srv srv' other. srv_reaches (xRedisServerBase_new s) srv \<and> heap srv other \<noteq> None \<and> heap srv 0 \<noteq> None \<and> other \<noteq> 0 \<and>
     ErrorCallback other srv = Some srv' \<and> heap srv' other \<noteq> None \<and> heap srv' 0 = None"
proof -
  let ?n = "2 ^ 32 :: nat"
  let ?srv = "accepted (Suc ?n) (xRedisServerBase_new s)"
  note h = accepted_heap[of "Suc ?n" s]
  have z: "(of_nat ?n :: u32) = 0" by simp
  have "heap ?srv ?n = Some (xRedisConnectorBase_new 0 1000)" "heap ?srv 0 = Some (xRedisConnectorBase_new 0 1000)"
    "connectionmap ?srv 1000 = Some 0"
    using h z by (simp_all del: accepted.simps of_nat_power of_nat_numeral)
  then show ?thesis using accepted_reachable[of s "Suc ?n"]
    by (intro exI[of _ ?srv] exI[of _ "?srv\<lparr>heap := (heap ?srv)(0 := None), connectionmap := (connectionmap ?srv)(1000 := None)\<rparr>"]
        exI[of _ ?n])
      (simp add: ErrorCallback_def FreeConnection_def xRedisConnectorBase_new_def del: accepted.simps)
qed


text \<open>
  C40: The reply to an unknown command names it when the name has at most 241 bytes, ends in a
  NUL instead of the line feed when it has 242, and is read from beyond the reply buffer when it
  has more.
\<close>

theorem unknown_command_reply:
  assumes "\<forall>e \<in> set tbl. \<not> strcasecmp_eq (fst e) name" "length tbl < 64"
  shows "run_cmd tbl (name # args) s =
    (let n = length (c_str name); reply = ''-'' @ c_str name @ '' not suport'' @ CRLF
     in if n \<le> 241 then Some (s, reply) else if n = 242 then Some (s, butlast reply @ [NUL]) else None)"
proof -
  have "List.find (\<lambda>(n, _). strcasecmp_eq n name) tbl = None"
    using assms(1) by (auto simp: find_None_iff case_prod_unfold)
  moreover have "c_str ''not suport'' = ''not suport''" by (simp add: c_str_def)
  ultimately show ?thesis using assms(2)
    by (auto simp: run_cmd_def GetCmdProcessFun_def CMD_CALLBACK_MAX_def SendErrReply_def NetPrintf_def Let_def butlast_append)
qed

definition ping_table :: "nat cmd_table" where
  "ping_table = [(''ping'', \<lambda>args s. Some (Suc s, ''+PONG'' @ CRLF))]"

lemma ping_run: "run_cmd ping_table [''PING''] n = Some (Suc n, ''+PONG'' @ CRLF)"
proof -
  have "strcasecmp_eq ''ping'' ''PING''" by code_simp
  then show ?thesis by (simp add: run_cmd_def GetCmdProcessFun_def ping_table_def)
qed

lemma ping_bytes: "resp_command [''PING''] = ''*1'' @ CRLF @ ''$4'' @ CRLF @ ''PING'' @ CRLF"
  by (simp add: resp_command_def resp_bulk_def dec_nat.simps mk_byte_digits)

lemma ping_sendable: "sendable [''PING'']"
  by (simp add: sendable_def INT_MAX_def)

lemma new_conn: "idle (xRedisConnectorBase_new t n)" "cmdbuffer (xRedisConnectorBase_new t n) = []"
  "in_buf (xRedisConnectorBase_new t n) = []" "out_buf (xRedisConnectorBase_new t n) = []"
  by (simp_all add: xRedisConnectorBase_new_def idle_def)


theorem redis_incomplete_witness:
  "\<exists>c'. receive_all ping_table (xRedisConnectorBase_new 0 1000, 0) [(7, ''*1'' @ CRLF @ ''$4''), (8, CRLF @ ''PING'' @ [CR])]
     = Some (c', 0) \<and> out_buf c' = []"
  using redis_incomplete[OF new_conn(1-3) ping_sendable, of ping_table 0 "[(7, ''*1'' @ CRLF @ ''$4''), (8, CRLF @ ''PING'' @ [CR])]" "[LF]"]
  by (simp add: ping_bytes ping_run new_conn(4))

theorem redis_last_byte_witness:
  "\<exists>c'. receive_all ping_table (xRedisConnectorBase_new 0 1000, 0)
     [(7, ''*1'' @ CRLF @ ''$4'' @ CRLF @ ''PING'' @ [CR]), (8, [LF])] = Some (c', 0) \<and> out_buf c' = [] \<and> in_buf c' = [LF]"
  using redis_last_byte[OF new_conn(1-3) ping_sendable, of ping_table 0 "''*1'' @ CRLF @ ''$4'' @ CRLF @ ''PING'' @ [CR]" LF 0 1000 7 8]
  by (simp add: ping_bytes ping_run new_conn(4))

theorem redis_empty_argument_witness:
  "\<exists>c'. receive_all ping_table (xRedisConnectorBase_new 0 1000, 0)
     [(7, ''*2'' @ CRLF @ ''$4'' @ CRLF @ ''PING'' @ CRLF @ ''$0'' @ CRLF @ CRLF),
      (8, ''*1'' @ CRLF @ ''$4'' @ CRLF @ ''PING'' @ CRLF)] = Some (c', 0) \<and> out_buf c' = []"
  using redis_empty_argument[OF new_conn(1-3), of "[''PING'']" 2
     "[(7, ''*2'' @ CRLF @ ''$4'' @ CRLF @ ''PING'' @ CRLF @ ''$0'' @ CRLF @ CRLF),
      (8, ''*1'' @ CRLF @ ''$4'' @ CRLF @ ''PING'' @ CRLF)]" "''*1'' @ CRLF @ ''$4'' @ CRLF @ ''PING'' @ CRLF" ping_table 0]
  by (simp add: resp_bulk_def dec_nat.simps mk_byte_digits INT_MAX_def new_conn(4))

theorem connections_isolated_witness:
  "\<exists>srv :: nat xRedisServerBase. heap srv 0 \<noteq> None \<and> heap srv 1 \<noteq> None \<and>
     (\<exists>srv'. ErrorCallback 0 srv = Some srv' \<and> heap srv' 0 = None \<and> heap srv' 1 = heap srv 1)"
proof -
  let ?srv = "accepted 2 (xRedisServerBase_new (0 :: nat))"
  have h: "heap ?srv 0 = Some (xRedisConnectorBase_new 0 1000)" "heap ?srv 1 \<noteq> None" "created ?srv \<le> 2 ^ 32"
    using accepted_heap[of 2 "0 :: nat"] by simp_all
  from connections_isolated[OF accepted_reachable h(3,1), of 0] h show ?thesis
    by (intro exI[of _ ?srv]) (simp add: Let_def)
qed


theorem unknown_command_reply_witness:
  "run_cmd ping_table [''foo'', ''1''] 5 = Some (5, ''-foo not suport'' @ CRLF)"
proof -
  have "\<not> strcasecmp_eq ''ping'' ''foo''" by code_simp
  then show ?thesis
    by (subst unknown_command_reply) (simp_all add: ping_table_def c_str_def Let_def)
qed

end
