(* ===== verification/Xhc_RedisServer.thy ===== *)
theory Xhc_RedisServer
  imports Xhc_Expire Xhc_RedisLib
begin


text \<open>
  \<open>src/xRedisServer.cpp\<close>: the commands of the Redis interface, as callbacks of
  \<open>xRedisServerLib\<close>, over the database and the expiry manager.

  A callback reads the clock from two fields of the state: \<open>clock_stamp\<close> is what \<open>getCurrentTime\<close>
  returns, \<open>clock_ms\<close> what \<open>time_ms\<close> returns. Signed overflow is undefined.

  The lemmas show that the server behaves as a map of values and a map of expiry times, and that
  the expiry thread deletes exactly the keys whose time has come.
\<close>

section \<open>Definitions\<close>

record 'db xRedisServer =
  xdb :: "'db xDataBase"
  expiremgr :: ExpireManager
  clock_stamp :: u64
  clock_ms :: int64

definition int64_arith :: "int \<Rightarrow> int64 ub" where
  "int64_arith v = (if is_int64 v then Some v else None)"

text \<open>\<open>time_ms() + ttl * 1000\<close>.\<close>

definition expired_at :: "int64 \<Rightarrow> int64 \<Rightarrow> int64 ub" where
  "expired_at now t = do {
     ms \<leftarrow> int64_arith (t * 1000);
     int64_arith (now + ms)
   }"

definition ProcessCmd_get :: "('db, 'it) rocksdb_ops \<Rightarrow> 'db xRedisServer callback" where
  "ProcessCmd_get ops args sv =
     (if length args \<noteq> 2 then do {
        out \<leftarrow> SendErrReply ''arg error'' ''arg error'';
        Some (sv, out)
      } else do {
        (ret, val, x) \<leftarrow> xDataBase_Get ops (args ! 1) \<lparr>timestamp = 0, strValue = []\<rparr> (xdb sv);
        let sv = sv\<lparr>xdb := x\<rparr>;
        if ret = db_ok then do { out \<leftarrow> SendBulkReply (strValue val); Some (sv, out) }
        else if ret = db_null then do { out \<leftarrow> SendNullReply; Some (sv, out) }
        else Some (sv, [])
      })"

definition ProcessCmd_set :: "('db, 'it) rocksdb_ops \<Rightarrow> 'db xRedisServer callback" where
  "ProcessCmd_set ops args sv =
     (if length args = 3 then do {
        (_, x) \<leftarrow> xDataBase_Set ops (clock_stamp sv) (args ! 1) (args ! 2) (xdb sv);
        out \<leftarrow> SendStatusReply ''OK'';
        Some (sv\<lparr>xdb := x\<rparr>, out)
      }
      else if length args = 5 \<and> strcasecmp_eq ''ex'' (args ! 3) then do {
        let key = args ! 1;
        expired \<leftarrow> expired_at (clock_ms sv) (str_to_int64 (args ! 4));
        let ttl_data = snprintf 30 (dec_int expired);
        (_, x) \<leftarrow> xDataBase_Set ops (clock_stamp sv) key (args ! 2) (xdb sv);
        let e = SetTTL key expired (expiremgr sv);
        (ret, x) \<leftarrow> xDataBase_Zset ops (expire_key e) key ttl_data x;
        if ret = db_ok then do {
          out \<leftarrow> SendStatusReply ''OK'';
          Some (sv\<lparr>xdb := x, expiremgr := SetTTL key expired e\<rparr>, out)
        } else do {
          out \<leftarrow> SendNullReply;
          Some (sv\<lparr>xdb := x, expiremgr := e\<rparr>, out)
        }
      }
      else do {
        out \<leftarrow> SendErrReply ''set error '' ''argc error'';
        Some (sv, out)
      })"

definition ProcessCmd_del :: "('db, 'it) rocksdb_ops \<Rightarrow> 'db xRedisServer callback" where
  "ProcessCmd_del ops args sv =
     (if length args \<noteq> 2 then do {
        out \<leftarrow> SendErrReply ''del error'' ''arg error'';
        Some (sv, out)
      } else do {
        (ret, x) \<leftarrow> xDataBase_Del ops (args ! 1) (xdb sv);
        out \<leftarrow> SendIntReply (if ret = db_ok then 1 else 0);
        Some (sv\<lparr>xdb := x\<rparr>, out)
      })"

definition ProcessCmd_expire :: "('db, 'it) rocksdb_ops \<Rightarrow> 'db xRedisServer callback" where
  "ProcessCmd_expire ops args sv =
     (if length args \<noteq> 3 then do {
        out \<leftarrow> SendErrReply ''expire error'' ''arg error'';
        Some (sv, out)
      } else do {
        let key = args ! 1;
        expired \<leftarrow> expired_at (clock_ms sv) (str_to_int64 (args ! 2));
        let ttl_data = snprintf 30 (dec_int expired);
        (ret, _, x) \<leftarrow> xDataBase_Get ops key \<lparr>timestamp = 0, strValue = []\<rparr> (xdb sv);
        if ret = db_ok then do {
          (ret, x) \<leftarrow> xDataBase_Zset ops (expire_key (expiremgr sv)) key ttl_data x;
          if ret = db_ok then do {
            out \<leftarrow> SendIntReply 1;
            Some (sv\<lparr>xdb := x, expiremgr := SetTTL key expired (expiremgr sv)\<rparr>, out)
          } else do { out \<leftarrow> SendIntReply 0; Some (sv\<lparr>xdb := x\<rparr>, out) }
        } else do { out \<leftarrow> SendIntReply 0; Some (sv\<lparr>xdb := x\<rparr>, out) }
      })"

definition ProcessCmd_ttl :: "('db, 'it) rocksdb_ops \<Rightarrow> 'db xRedisServer callback" where
  "ProcessCmd_ttl ops args sv =
     (if length args \<noteq> 2 then do {
        out \<leftarrow> SendErrReply ''ttl error'' ''arg error'';
        Some (sv, out)
      } else do {
        (ret, score) \<leftarrow> xDataBase_Zget ops (expire_key (expiremgr sv)) (args ! 1) [] (xdb sv);
        if ret = db_ok then do {
          left \<leftarrow> int64_arith (str_to_int64 score - clock_ms sv);
          out \<leftarrow> SendIntReply (c_div left 1000);
          Some (sv, out)
        }
        else if ret = db_null then do { out \<leftarrow> SendIntReply (- 2); Some (sv, out) }
        else do { out \<leftarrow> SendIntReply 0; Some (sv, out) }
      })"

text \<open>The arguments of \<open>scan\<close>: start, end, limit and whether to delete; \<^const>\<open>None\<close> for a wrong call.\<close>

definition scan_args :: "string list \<Rightarrow> (string \<times> string \<times> int \<times> bool) option" where
  "scan_args args =
     (let argc = length args; cEnd = [mk_byte 255]
      in if argc = 5 \<and> strcasecmp_eq ''limit'' (args ! (argc - 2)) then
           Some (args ! 1, args ! 2, atoi (args ! (argc - 1)), False)
         else if argc = 4 \<and> strcasecmp_eq ''limit'' (args ! (argc - 2)) then
           Some (args ! 1, cEnd, atoi (args ! (argc - 1)), False)
         else if argc = 4 \<and> strcasecmp_eq ''del'' (args ! 3) then
           Some (args ! 1, args ! 2, INT_MAX, True)
         else if argc = 3 then Some (args ! 1, args ! 2, INT_MAX, False)
         else if argc = 2 then Some (args ! 1, cEnd, INT_MAX, False)
         else None)"

primrec del_all :: "('db, 'it) rocksdb_ops \<Rightarrow> string list \<Rightarrow> 'db xDataBase \<Rightarrow> 'db xDataBase ub" where
  "del_all ops [] x = Some x"
| "del_all ops (k # ks) x = do {
     (_, x) \<leftarrow> xDataBase_Del ops k x;
     del_all ops ks x
   }"

definition ProcessCmd_scan :: "('db, 'it) rocksdb_ops \<Rightarrow> 'db xRedisServer callback" where
  "ProcessCmd_scan ops args sv =
     (case scan_args args of
        None \<Rightarrow> do { out \<leftarrow> SendErrReply ''scan error'' ''arg error''; Some (sv, out) }
      | Some (start, stop, limit, del_result) \<Rightarrow> do {
          (ret, vResult) \<leftarrow> xDataBase_ScanKey ops start stop limit [] (xdb sv);
          if ret_val ret < 0 then do { out \<leftarrow> SendErrReply ''xdb error'' ''scankey error''; Some (sv, out) }
          else if del_result then do {
            x \<leftarrow> del_all ops vResult (xdb sv);
            out \<leftarrow> SendIntReply (int (length vResult));
            Some (sv\<lparr>xdb := x\<rparr>, out)
          }
          else do { out \<leftarrow> SendMultiBulkReply vResult; Some (sv, out) }
        })"

definition ProcessCmd_flushall :: "('db, 'it) rocksdb_ops \<Rightarrow> 'db xRedisServer callback" where
  "ProcessCmd_flushall ops args sv = do {
     (ret, x) \<leftarrow> xDataBase_Flushall ops (xdb sv);
     let sv = sv\<lparr>xdb := x\<rparr>;
     if ret \<noteq> db_ok then Some (sv, [])
     else do { out \<leftarrow> SendStatusReply ''OK''; Some (sv, out) }
   }"

text \<open>The registrations end at the first that fails.\<close>

primrec register_all :: "(string \<times> 's callback) list \<Rightarrow> 's cmd_table \<Rightarrow> bool \<times> 's cmd_table" where
  "register_all [] tbl = (True, tbl)"
| "register_all (r # rs) tbl =
     (case SetCmdTable (fst r) (snd r) tbl of
        (True, tbl) \<Rightarrow> register_all rs tbl
      | (False, tbl) \<Rightarrow> (False, tbl))"

definition SystemCmdRegister ::
  "('db, 'it) rocksdb_ops \<Rightarrow> 'db xRedisServer cmd_table \<Rightarrow> bool \<times> 'db xRedisServer cmd_table" where
  "SystemCmdRegister ops =
     register_all
       [(''set'', ProcessCmd_set ops), (''get'', ProcessCmd_get ops), (''del'', ProcessCmd_del ops),
        (''expire'', ProcessCmd_expire ops), (''ttl'', ProcessCmd_ttl ops), (''scan'', ProcessCmd_scan ops),
        (''flushall'', ProcessCmd_flushall ops)]"

text \<open>\<open>Init\<close> returns the command table and the state; the thread started by \<open>StartTTL\<close> runs \<^const>\<open>Dispatch\<close>.\<close>

definition xRedisServer_Init ::
  "('db, 'it) rocksdb_ops \<Rightarrow> 'db xDataBase \<Rightarrow> u64 \<Rightarrow> int64 \<Rightarrow> 'db xRedisServer cmd_table \<times> 'db xRedisServer" where
  "xRedisServer_Init ops db us ms =
     (snd (SystemCmdRegister ops []),
      \<lparr>xdb = db, expiremgr = snd (ExpireManager_Init True ExpireManager_new), clock_stamp = us, clock_ms = ms\<rparr>)"

section \<open>Specification\<close>

datatype rcmd = RGet string | RSet string string | RSetEx string string int64 | RDel string | RExpire string int64
  | RTtl string | RScan string string int | RScanFrom string int | RScanAll string | RScanDel string string | RFlush

primrec rcmd_args :: "rcmd \<Rightarrow> string list" where
  "rcmd_args (RGet k) = [''get'', k]"
| "rcmd_args (RSet k v) = [''set'', k, v]"
| "rcmd_args (RSetEx k v n) = [''set'', k, v, ''ex'', dec_int n]"
| "rcmd_args (RDel k) = [''del'', k]"
| "rcmd_args (RExpire k n) = [''expire'', k, dec_int n]"
| "rcmd_args (RTtl k) = [''ttl'', k]"
| "rcmd_args (RScan a b n) = [''scan'', a, b, ''limit'', dec_int n]"
| "rcmd_args (RScanFrom a n) = [''scan'', a, ''limit'', dec_int n]"
| "rcmd_args (RScanAll a) = [''scan'', a]"
| "rcmd_args (RScanDel a b) = [''scan'', a, b, ''del'']"
| "rcmd_args RFlush = [''flushall'']"

text \<open>Two maps: the values and the expiry times.\<close>

type_synonym rstate = "(string \<rightharpoonup> string) \<times> (string \<rightharpoonup> int64)"

definition rint :: "int \<Rightarrow> string" where "rint n = '':'' @ dec_int n @ CRLF"
definition rnull :: string where "rnull = ''$-1'' @ CRLF"
definition rok :: string where "rok = ''+OK'' @ CRLF"

definition key_range :: "(string \<rightharpoonup> string) \<Rightarrow> string \<Rightarrow> string \<Rightarrow> int \<Rightarrow> string list" where
  "key_range p a b n = take (nat n) (sorted_list_of_set {k. p k \<noteq> None \<and> a \<le> k \<and> k < b})"

text \<open>
  A plain \<open>set\<close>, \<open>del\<close> and \<open>scan ... del\<close> leave the expiry time of the key; \<open>del\<close> reports one
  key also if there was none; a new expiry time that equals the old one is reported as a failure.
\<close>

fun spec_cmd :: "int64 \<Rightarrow> rcmd \<Rightarrow> rstate \<Rightarrow> string \<times> rstate" where
  "spec_cmd now (RGet k) (p, z) = (case p k of None \<Rightarrow> rnull | Some v \<Rightarrow> resp_bulk v, p, z)"
| "spec_cmd now (RSet k v) (p, z) = (rok, p(k \<mapsto> v), z)"
| "spec_cmd now (RSetEx k v n) (p, z) =
     (let t = now + n * 1000
      in if z k = Some t then (rnull, p(k \<mapsto> v), z) else (rok, p(k \<mapsto> v), z(k \<mapsto> t)))"
| "spec_cmd now (RDel k) (p, z) = (rint 1, p(k := None), z)"
| "spec_cmd now (RExpire k n) (p, z) =
     (let t = now + n * 1000
      in if p k = None \<or> z k = Some t then (rint 0, p, z) else (rint 1, p, z(k \<mapsto> t)))"
| "spec_cmd now (RTtl k) (p, z) = (case z k of None \<Rightarrow> rint (- 2) | Some t \<Rightarrow> rint (c_div (t - now) 1000), p, z)"
| "spec_cmd now (RScan a b n) (p, z) = (resp_command (key_range p a b n), p, z)"
| "spec_cmd now (RScanFrom a n) (p, z) = (resp_command (key_range p a [mk_byte 255] n), p, z)"
| "spec_cmd now (RScanAll a) (p, z) = (resp_command (key_range p a [mk_byte 255] INT_MAX), p, z)"
| "spec_cmd now (RScanDel a b) (p, z) =
     (let ks = key_range p a b INT_MAX in (rint (int (length ks)), p |` (- set ks), z))"
| "spec_cmd now RFlush (p, z) = (rok, Map.empty, Map.empty)"


section \<open>Lemmas\<close>

subsection \<open>The invariant\<close>

definition canonical :: "(string \<rightharpoonup> string) \<Rightarrow> bool" where
  "canonical c \<longleftrightarrow> (\<forall>m sc. c (key_zset ''expire'' m) = Some sc \<longrightarrow> (\<exists>t. is_int64 t \<and> sc = dec_int t))"

definition small :: "(string \<rightharpoonup> string) \<Rightarrow> bool" where
  "small c \<longleftrightarrow> (\<forall>k v. c (key_kv k) = Some v \<longrightarrow> int (length k) \<le> INT_MAX \<and> int (length v) \<le> INT_MAX + 8)"

definition rs_abs :: "(string \<rightharpoonup> string) \<Rightarrow> rstate" where
  "rs_abs c = (\<lambda>k. map_option (snd \<circ> value_parts) (c (key_kv k)), zscore_of c ''expire'')"

definition rs_inv :: "('db \<Rightarrow> string \<rightharpoonup> string) \<Rightarrow> 'db xRedisServer \<Rightarrow> bool" where
  "rs_inv contents sv \<longleftrightarrow> (\<exists>d. dbp (xdb sv) = Some d \<and> etag_ready (xdb sv) \<and> ttl_inv (contents d) (expiremgr sv) \<and>
     canonical (contents d) \<and> small (contents d))"

definition rs_contents :: "('db \<Rightarrow> string \<rightharpoonup> string) \<Rightarrow> 'db xRedisServer \<Rightarrow> string \<rightharpoonup> string" where
  "rs_contents contents sv = contents (the (dbp (xdb sv)))"

abbreviation rs_view :: "('db \<Rightarrow> string \<rightharpoonup> string) \<Rightarrow> 'db xRedisServer \<Rightarrow> rstate" where
  "rs_view contents sv \<equiv> rs_abs (rs_contents contents sv)"

definition rs_stale :: "('db \<Rightarrow> string \<rightharpoonup> string) \<Rightarrow> 'db xRedisServer \<Rightarrow> string set" where
  "rs_stale contents sv = stale (rs_contents contents sv) (expiremgr sv)"

definition served :: "('db \<Rightarrow> string \<rightharpoonup> string) \<Rightarrow> rcmd \<Rightarrow> 'db xRedisServer \<Rightarrow> 'db xRedisServer \<times> string \<Rightarrow> bool" where
  "served contents c sv r \<longleftrightarrow>
     rs_inv contents (fst r) \<and> clock_stamp (fst r) = clock_stamp sv \<and> clock_ms (fst r) = clock_ms sv \<and>
     spec_cmd (clock_ms sv) c (rs_view contents sv) = (snd r, rs_view contents (fst r)) \<and>
     (c \<noteq> RFlush \<longrightarrow> rs_stale contents (fst r) \<subseteq> rs_stale contents sv)"

lemma servedI:
  assumes "dbp x' = Some d'" "etag_ready x'" "ttl_inv (contents d') e'" "canonical (contents d')" "small (contents d')"
    and "spec_cmd (clock_ms sv) c (rs_view contents sv) = (out, rs_abs (contents d'))"
    and "c = RFlush \<or> stale (contents d') e' \<subseteq> rs_stale contents sv"
  shows "served contents c sv (sv\<lparr>xdb := x', expiremgr := e'\<rparr>, out)"
  using assms by (auto simp: served_def rs_inv_def rs_contents_def rs_stale_def)

lemma served_db:
  "served contents c sv (sv\<lparr>xdb := x', expiremgr := expiremgr sv\<rparr>, out) \<Longrightarrow> served contents c sv (sv\<lparr>xdb := x'\<rparr>, out)"
  by simp

lemma canonical_upd:
  "canonical c \<Longrightarrow> canonical (c(key_kv k := v))"
  "canonical c \<Longrightarrow> is_int64 t \<Longrightarrow> canonical (zset_put ''expire'' m (dec_int t) c)"
  "canonical Map.empty"
  by (auto simp: canonical_def zset_put_def split: option.splits if_splits)

lemma small_upd:
  "small c \<Longrightarrow> int (length k) \<le> INT_MAX \<Longrightarrow> int (length v) \<le> INT_MAX \<Longrightarrow> small (c(key_kv k \<mapsto> stamped ts v))"
  "small c \<Longrightarrow> small (c(key_kv k := None))"
  "small c \<Longrightarrow> small (zset_put ''expire'' m sc c)"
  "small Map.empty"
  by (auto simp: small_def stamped_def)

lemma rs_abs_upd:
  "rs_abs (c(key_kv k \<mapsto> stamped ts v)) = ((fst (rs_abs c))(k \<mapsto> v), snd (rs_abs c))"
  "rs_abs (c(key_kv k := None)) = ((fst (rs_abs c))(k := None), snd (rs_abs c))"
  "is_int64 t \<Longrightarrow> rs_abs (zset_put ''expire'' m (dec_int t) c) = (fst (rs_abs c), (snd (rs_abs c))(m \<mapsto> t))"
  "rs_abs Map.empty = (Map.empty, Map.empty)"
  by (auto simp: rs_abs_def fun_eq_iff zscore_of_put str_to_int64_dec_int zscore_of_def)

lemma canonical_eq:
  assumes "canonical c" "is_int64 t"
  shows "c (key_zset ''expire'' m) = Some (dec_int t) \<longleftrightarrow> zscore_of c ''expire'' m = Some t"
proof (cases "c (key_zset ''expire'' m)")
  case (Some sc)
  then obtain u where "is_int64 u" "sc = dec_int u" using assms(1) by (auto simp: canonical_def)
  moreover have "dec_int u = dec_int t \<longleftrightarrow> u = t"
    using assms(2) \<open>is_int64 u\<close> by (metis str_to_int64_dec_int)
  ultimately show ?thesis using Some by (auto simp: zscore_of_def str_to_int64_dec_int)
qed (simp add: zscore_of_def)

lemma queued_SetTTL:
  assumes "expire_inv X zs e"
  shows "dom (queued (SetTTL k t e)) \<subseteq> insert k (dom (queued e))"
  using ttl_updateD(1) [OF SetTTL_queue_update(3) [OF expire_invD(1,5) [OF assms], of k t]]
  by (auto simp: SetTTL_eq)

lemma stale_upd:
  "stale (c(key_kv k := v)) e = stale c e"
  "expire_inv X zs e \<Longrightarrow> stale (zset_put ''expire'' k sc c) (SetTTL k t e) \<subseteq> stale (zset_put ''expire'' k sc c) e"
  "stale (zset_put ''expire'' k sc c) e \<subseteq> stale c e"
  "expire_inv X zs e \<Longrightarrow> zscore_of c ''expire'' k \<noteq> None \<Longrightarrow> stale c (SetTTL k t e) \<subseteq> stale c e"
  using queued_SetTTL [of X zs e k t] by (auto simp: stale_def zscore_of_put)

text \<open>A command the server can answer: it can be sent, and its times do not overflow.\<close>

fun cmd_ok :: "int64 \<Rightarrow> rcmd \<Rightarrow> rstate \<Rightarrow> bool" where
  "cmd_ok now (RSetEx k v n) s \<longleftrightarrow>
     sendable (rcmd_args (RSetEx k v n)) \<and> is_int64 n \<and> is_int64 (n * 1000) \<and> is_int64 (now + n * 1000)"
| "cmd_ok now (RExpire k n) s \<longleftrightarrow>
     sendable (rcmd_args (RExpire k n)) \<and> is_int64 n \<and> is_int64 (n * 1000) \<and> is_int64 (now + n * 1000)"
| "cmd_ok now (RTtl k) s \<longleftrightarrow> sendable (rcmd_args (RTtl k)) \<and> (\<forall>t. snd s k = Some t \<longrightarrow> is_int64 (t - now))"
| "cmd_ok now (RScan a b n) s \<longleftrightarrow> sendable (rcmd_args (RScan a b n)) \<and> INT_MIN \<le> n \<and> n \<le> INT_MAX"
| "cmd_ok now (RScanFrom a n) s \<longleftrightarrow> sendable (rcmd_args (RScanFrom a n)) \<and> INT_MIN \<le> n \<and> n \<le> INT_MAX"
| "cmd_ok now (RScanDel a b) s \<longleftrightarrow> sendable (rcmd_args (RScanDel a b)) \<and> \<not> strcasecmp_eq ''limit'' b"
| "cmd_ok now c s \<longleftrightarrow> sendable (rcmd_args c)"

subsection \<open>The table\<close>

abbreviation server_table :: "('db, 'it) rocksdb_ops \<Rightarrow> 'db xRedisServer cmd_table" where
  "server_table ops \<equiv> snd (SystemCmdRegister ops [])"

lemma server_table_eq:
  "SystemCmdRegister ops [] = (True,
     [(''set'', ProcessCmd_set ops), (''get'', ProcessCmd_get ops), (''del'', ProcessCmd_del ops),
      (''expire'', ProcessCmd_expire ops), (''ttl'', ProcessCmd_ttl ops), (''scan'', ProcessCmd_scan ops),
      (''flushall'', ProcessCmd_flushall ops)])"
  by (simp add: SystemCmdRegister_def SetCmdTable_def CMD_CALLBACK_MAX_def)

lemma strcasecmp_refl [simp]: "strcasecmp_eq a a"
  by (simp add: strcasecmp_eq_def)

lemma cmd_names_differ:
  "\<not> strcasecmp_eq ''set'' ''get''" "\<not> strcasecmp_eq ''set'' ''del''" "\<not> strcasecmp_eq ''set'' ''expire''"
  "\<not> strcasecmp_eq ''set'' ''ttl''" "\<not> strcasecmp_eq ''set'' ''scan''" "\<not> strcasecmp_eq ''set'' ''flushall''"
  "\<not> strcasecmp_eq ''get'' ''del''" "\<not> strcasecmp_eq ''get'' ''expire''" "\<not> strcasecmp_eq ''get'' ''ttl''"
  "\<not> strcasecmp_eq ''get'' ''scan''" "\<not> strcasecmp_eq ''get'' ''flushall''" "\<not> strcasecmp_eq ''del'' ''expire''"
  "\<not> strcasecmp_eq ''del'' ''ttl''" "\<not> strcasecmp_eq ''del'' ''scan''" "\<not> strcasecmp_eq ''del'' ''flushall''"
  "\<not> strcasecmp_eq ''expire'' ''ttl''" "\<not> strcasecmp_eq ''expire'' ''scan''" "\<not> strcasecmp_eq ''expire'' ''flushall''"
  "\<not> strcasecmp_eq ''ttl'' ''scan''" "\<not> strcasecmp_eq ''ttl'' ''flushall''" "\<not> strcasecmp_eq ''scan'' ''flushall''"
  "\<not> strcasecmp_eq ''limit'' ''del''"
  by code_simp+

lemma run_server_table:
  "run_cmd (server_table ops) (''set'' # as) sv = ProcessCmd_set ops (''set'' # as) sv"
  "run_cmd (server_table ops) (''get'' # as) sv = ProcessCmd_get ops (''get'' # as) sv"
  "run_cmd (server_table ops) (''del'' # as) sv = ProcessCmd_del ops (''del'' # as) sv"
  "run_cmd (server_table ops) (''expire'' # as) sv = ProcessCmd_expire ops (''expire'' # as) sv"
  "run_cmd (server_table ops) (''ttl'' # as) sv = ProcessCmd_ttl ops (''ttl'' # as) sv"
  "run_cmd (server_table ops) (''scan'' # as) sv = ProcessCmd_scan ops (''scan'' # as) sv"
  "run_cmd (server_table ops) (''flushall'' # as) sv = ProcessCmd_flushall ops (''flushall'' # as) sv"
  by (simp_all add: run_cmd_def GetCmdProcessFun_def server_table_eq cmd_names_differ)

subsection \<open>The handlers\<close>

lemma rok_eq: "SendStatusReply ''OK'' = Some rok"
  by (simp add: SendStatusReply_def rok_def NetPrintf_def c_str_def)

lemma rint_eq: "is_int64 n \<Longrightarrow> SendIntReply n = Some (rint n)"
  by (simp add: rint_def SendIntReply_eq)

lemma rnull_eq: "SendNullReply = Some rnull"
  by (simp add: rnull_def SendNullReply_eq)

lemma small_int64: "INT_MIN \<le> n \<Longrightarrow> n \<le> INT_MAX \<Longrightarrow> is_int64 n"
  by (simp add: is_int64_def INT64_MIN_def INT64_MAX_def INT_MIN_def INT_MAX_def)

lemma ttl_data_eq: "is_int64 n \<Longrightarrow> snprintf 30 (dec_int n) = dec_int n"
  using length_dec_int[of n] by (simp add: snprintf_def)

lemma expired_at_eq:
  "is_int64 (n * 1000) \<Longrightarrow> is_int64 (now + n * 1000) \<Longrightarrow> expired_at now n = Some (now + n * 1000)"
  by (simp add: expired_at_def int64_arith_def)


lemma value_of:
  assumes "ttl_inv c e"
  shows "fst (rs_abs c) k = None \<longleftrightarrow> c (key_kv k) = None"
    and "fst (rs_abs c) k = Some v \<Longrightarrow> \<exists>ts. c (key_kv k) = Some (stamped ts v)"
proof -
  show "fst (rs_abs c) k = None \<longleftrightarrow> c (key_kv k) = None" by (simp add: rs_abs_def)
  assume a: "fst (rs_abs c) k = Some v"
  then obtain w where w: "c (key_kv k) = Some w" "snd (value_parts w) = v" by (auto simp: rs_abs_def)
  from values_stampedD [of c k w] assms w(1) obtain ts val where "w = stamped ts val"
    by (auto simp: ttl_inv_def db_inv_def)
  with w show "\<exists>ts. c (key_kv k) = Some (stamped ts v)" by auto
qed

lemma small_reply:
  assumes "small c" "fst (rs_abs c) k = Some v"
  shows "length k < 10 ^ 200" "length v < 10 ^ 200"
proof -
  obtain w where w: "c (key_kv k) = Some w" "snd (value_parts w) = v" using assms(2) by (auto simp: rs_abs_def)
  then have "int (length k) \<le> INT_MAX" "int (length w) \<le> INT_MAX + 8" using assms(1) unfolding small_def by blast+
  moreover have "length v \<le> length w" using w(2) by (auto simp: value_parts_def)
  ultimately have "length k \<le> 2147483647" "length v \<le> 2147483655" by (simp_all add: INT_MAX_def)
  then show "length k < 10 ^ 200" "length v < 10 ^ 200" by (simp_all add: order.strict_trans1)
qed

definition del_keys :: "string list \<Rightarrow> (string \<rightharpoonup> string) \<Rightarrow> string \<rightharpoonup> string" where
  "del_keys ks c = fold (\<lambda>k c. c(key_kv k := None)) ks c"

lemma del_keys_inv:
  "ttl_inv c e \<Longrightarrow> ttl_inv (del_keys ks c) e"
  "canonical c \<Longrightarrow> canonical (del_keys ks c)"
  "small c \<Longrightarrow> small (del_keys ks c)"
  "stale (del_keys ks c) e = stale c e"
  "rs_abs (del_keys ks c) = (fst (rs_abs c) |` (- set ks), snd (rs_abs c))"
  unfolding del_keys_def
  by (induction ks arbitrary: c)
    (auto simp: ttl_inv_plain canonical_upd small_upd stale_upd rs_abs_upd restrict_map_def fun_eq_iff prod_eq_iff)

lemmas rs_upd = canonical_upd small_upd rs_abs_upd stale_upd ttl_inv_plain

context rocksdb_reliable
begin

lemmas served_intro = servedI [where contents = contents]

lemma rs_invE:
  assumes "rs_inv contents sv"
  obtains d where "dbp (xdb sv) = Some d" "etag_ready (xdb sv)" "ttl_inv (contents d) (expiremgr sv)"
    "canonical (contents d)" "small (contents d)" "rs_contents contents sv = contents d"
  using assms by (auto simp: rs_inv_def rs_contents_def)

lemma serve_get:
  assumes "rs_inv contents sv"
  shows "\<exists>r. ProcessCmd_get ops [''get'', k] sv = Some r \<and> served contents (RGet k) sv r"
proof -
  obtain d where d: "dbp (xdb sv) = Some d" "etag_ready (xdb sv)" "ttl_inv (contents d) (expiremgr sv)"
    "canonical (contents d)" "small (contents d)" "rs_contents contents sv = contents d"
    using assms by (rule rs_invE)
  show ?thesis
  proof (cases "fst (rs_abs (contents d)) k")
    case None
    then have "contents d (key_kv k) = None" using value_of(1) [OF d(3)] by simp
    then have "ProcessCmd_get ops [''get'', k] sv = Some (sv\<lparr>xdb := xdb sv, expiremgr := expiremgr sv\<rparr>, rnull)"
      using Get_null [OF d(1)] by (simp add: ProcessCmd_get_def rnull_eq)
    moreover have "served contents (RGet k) sv (sv\<lparr>xdb := xdb sv, expiremgr := expiremgr sv\<rparr>, rnull)"
      by (rule served_intro [OF d(1-5)]) (use d None in \<open>simp_all add: rs_stale_def split_beta\<close>, cases "rs_abs (contents d)", simp)
    ultimately show ?thesis by blast
  next
    case (Some v)
    then obtain ts where "contents d (key_kv k) = Some (stamped ts v)" using value_of(2) [OF d(3)] by blast
    from Get_value [OF d(1) this d(2)] obtain x' where
      x': "xDataBase_Get ops k \<lparr>timestamp = 0, strValue = []\<rparr> (xdb sv) = Some (db_ok, \<lparr>timestamp = ts, strValue = v\<rparr>, x')"
      "dbp x' = Some d" "etag_ready x'" by blast
    have "ProcessCmd_get ops [''get'', k] sv = Some (sv\<lparr>xdb := x', expiremgr := expiremgr sv\<rparr>, resp_bulk v)"
      using x'(1) SendBulkReply_eq [OF small_reply(2) [OF d(5) Some]] by (simp add: ProcessCmd_get_def)
    moreover have "served contents (RGet k) sv (sv\<lparr>xdb := x', expiremgr := expiremgr sv\<rparr>, resp_bulk v)"
      by (rule served_intro [OF x'(2,3) d(3-5)]) (use d Some in \<open>simp_all add: rs_stale_def split_beta\<close>, cases "rs_abs (contents d)", simp)
    ultimately show ?thesis by blast
  qed
qed

lemma serve_set:
  assumes "rs_inv contents sv" "sendable [''set'', k, v]"
  shows "\<exists>r. ProcessCmd_set ops [''set'', k, v] sv = Some r \<and> served contents (RSet k v) sv r"
proof -
  obtain d where d: "dbp (xdb sv) = Some d" "etag_ready (xdb sv)" "ttl_inv (contents d) (expiremgr sv)"
    "canonical (contents d)" "small (contents d)" "rs_contents contents sv = contents d"
    using assms(1) by (rule rs_invE)
  from Set_eq [OF d(1,2), of "clock_stamp sv" k v] obtain d' x' where
    x': "xDataBase_Set ops (clock_stamp sv) k v (xdb sv) = Some (db_ok, x')" "dbp x' = Some d'" "etag_ready x'"
    "contents d' = (contents d)(key_kv k \<mapsto> stamped (clock_stamp sv) v)" by blast
  have "ProcessCmd_set ops [''set'', k, v] sv = Some (sv\<lparr>xdb := x', expiremgr := expiremgr sv\<rparr>, rok)"
    using x'(1) by (simp add: ProcessCmd_set_def rok_eq)
  moreover have "served contents (RSet k v) sv (sv\<lparr>xdb := x', expiremgr := expiremgr sv\<rparr>, rok)"
    by (rule served_intro [OF x'(2,3)]; unfold x'(4) d(6) rs_stale_def)
      (use d assms(2) in \<open>simp_all add: rs_upd sendable_def\<close>, cases "rs_abs (contents d)", simp)
  ultimately show ?thesis by blast
qed

lemma serve_del:
  assumes "rs_inv contents sv"
  shows "\<exists>r. ProcessCmd_del ops [''del'', k] sv = Some r \<and> served contents (RDel k) sv r"
proof -
  obtain d where d: "dbp (xdb sv) = Some d" "etag_ready (xdb sv)" "ttl_inv (contents d) (expiremgr sv)"
    "canonical (contents d)" "small (contents d)" "rs_contents contents sv = contents d"
    using assms(1) by (rule rs_invE)
  from Del_eq [OF d(1), of k] obtain d' where
    x': "xDataBase_Del ops k (xdb sv) = Some (db_ok, (xdb sv)\<lparr>dbp := Some d'\<rparr>)"
    "contents d' = (contents d)(key_kv k := None)" by blast
  let ?x = "(xdb sv)\<lparr>dbp := Some d'\<rparr>"
  have e: "etag_ready ?x" "dbp ?x = Some d'" using d(2) by (simp_all add: etag_ready_def)
  have "ProcessCmd_del ops [''del'', k] sv = Some (sv\<lparr>xdb := ?x, expiremgr := expiremgr sv\<rparr>, rint 1)"
    using x'(1) rint_eq [of 1] by (simp add: ProcessCmd_del_def small_int64 INT_MIN_def INT_MAX_def)
  moreover have "served contents (RDel k) sv (sv\<lparr>xdb := ?x, expiremgr := expiremgr sv\<rparr>, rint 1)"
    by (rule served_intro [OF e(2,1)]; unfold x'(2) d(6) rs_stale_def)
      (use d in \<open>simp_all add: rs_upd\<close>, cases "rs_abs (contents d)", simp)
  ultimately show ?thesis by blast
qed

text \<open>Recording an expiry time: the entry in the database and the queue.\<close>

lemma ttl_inv_db: "ttl_inv c e \<Longrightarrow> expire_inv {m} (zscore_of c ''expire'') e"
  unfolding ttl_inv_def using expire_inv_mono [of "{}"] by blast

lemma record_time:
  assumes "dbp x = Some d" "ttl_inv (contents d) e" "canonical (contents d)" "small (contents d)" "k \<noteq> []" "is_int64 t"
    and "zscore_of (contents d) ''expire'' k \<noteq> Some t"
  shows "\<exists>d'. xDataBase_Zset ops ''expire'' k (dec_int t) x = Some (db_ok, x\<lparr>dbp := Some d'\<rparr>) \<and>
    contents d' = zset_put ''expire'' k (dec_int t) (contents d)"
    and "expire_inv {k} (zscore_of (contents d) ''expire'') e' \<Longrightarrow>
      ttl_inv (zset_put ''expire'' k (dec_int t) (contents d)) (SetTTL k t e')"
proof -
  show "\<exists>d'. xDataBase_Zset ops ''expire'' k (dec_int t) x = Some (db_ok, x\<lparr>dbp := Some d'\<rparr>) \<and>
    contents d' = zset_put ''expire'' k (dec_int t) (contents d)"
    using Zset_eq [OF assms(1), of "''expire''" k "dec_int t"] assms(5,7) canonical_eq [OF assms(3,6), of k] by simp
  show "ttl_inv (zset_put ''expire'' k (dec_int t) (contents d)) (SetTTL k t e')"
    if "expire_inv {k} (zscore_of (contents d) ''expire'') e'"
    using ttl_inv_zset_SetTTL [OF _ _ that assms(5), of "dec_int t"] assms(2,6)
    by (simp add: ttl_inv_def str_to_int64_dec_int)
qed

lemma expire_key_eq: "ttl_inv c e \<Longrightarrow> expire_key e = ''expire''"
  by (simp add: ttl_inv_def expire_inv_def)

lemma SetTTL_expire_key [simp]: "expire_key (SetTTL k t e) = expire_key e"
  by (simp add: SetTTL_eq)

lemma serve_setex:
  assumes "rs_inv contents sv" "cmd_ok (clock_ms sv) (RSetEx k v n) s"
  shows "\<exists>r. ProcessCmd_set ops (rcmd_args (RSetEx k v n)) sv = Some r \<and> served contents (RSetEx k v n) sv r"
proof -
  obtain d where d: "dbp (xdb sv) = Some d" "etag_ready (xdb sv)" "ttl_inv (contents d) (expiremgr sv)"
    "canonical (contents d)" "small (contents d)" "rs_contents contents sv = contents d"
    using assms(1) by (rule rs_invE)
  let ?t = "clock_ms sv + n * 1000" and ?e = "expiremgr sv"
  have t: "is_int64 ?t" "is_int64 n" and at: "expired_at (clock_ms sv) n = Some ?t" and k: "k \<noteq> []"
    and len: "int (length k) \<le> INT_MAX" "int (length v) \<le> INT_MAX"
    using assms(2) by (simp_all add: expired_at_eq sendable_def)
  from Set_eq [OF d(1,2), of "clock_stamp sv" k v] obtain d1 x1 where
    x1: "xDataBase_Set ops (clock_stamp sv) k v (xdb sv) = Some (db_ok, x1)" "dbp x1 = Some d1" "etag_ready x1"
    "contents d1 = (contents d)(key_kv k \<mapsto> stamped (clock_stamp sv) v)" by blast
  let ?e1 = "SetTTL k ?t ?e"
  have c1: "ttl_inv (contents d1) ?e" "canonical (contents d1)" "small (contents d1)"
    and zs: "zscore_of (contents d1) ''expire'' = zscore_of (contents d) ''expire''"
    using d len by (simp_all add: x1(4) rs_upd)
  note key = expire_key_eq [OF d(3)]
  have inv1: "expire_inv {k} (zscore_of (contents d1) ''expire'') ?e1" by (rule SetTTL_inv_other [OF ttl_inv_db [OF c1(1)]])
  have abs: "rs_abs (contents d1) = ((fst (rs_abs (contents d)))(k \<mapsto> v), snd (rs_abs (contents d)))"
    by (simp add: x1(4) rs_upd)
  have z: "snd (rs_abs (contents d)) = zscore_of (contents d) ''expire''" by (simp add: rs_abs_def)
  show ?thesis
  proof (cases "zscore_of (contents d) ''expire'' k = Some ?t")
    case True
    have "xDataBase_Zset ops ''expire'' k (dec_int ?t) x1 = Some (db_err, x1)"
      by (rule Zset_same [OF x1(2)]) (use canonical_eq [OF c1(2) t(1), of k] True zs in simp)
    then have "ProcessCmd_set ops (rcmd_args (RSetEx k v n)) sv = Some (sv\<lparr>xdb := x1, expiremgr := ?e1\<rparr>, rnull)"
      using x1(1) at key t by (simp add: ProcessCmd_set_def str_to_int64_dec_int ttl_data_eq rnull_eq)
    moreover have "served contents (RSetEx k v n) sv (sv\<lparr>xdb := x1, expiremgr := ?e1\<rparr>, rnull)"
    proof (rule served_intro [OF x1(2,3) _ c1(2,3)])
      show "ttl_inv (contents d1) ?e1" by (rule ttl_inv_SetTTL [OF c1(1)]) (use True zs in simp)
      show "RSetEx k v n = RFlush \<or> stale (contents d1) ?e1 \<subseteq> rs_stale contents sv"
        using stale_upd(4) [OF ttl_inv_db [OF c1(1)], of "contents d1" k ?t] True zs
        by (simp add: rs_stale_def d(6) x1(4) stale_upd(1))
      show "spec_cmd (clock_ms sv) (RSetEx k v n) (rs_view contents sv) = (rnull, rs_abs (contents d1))"
        using True by (cases "rs_abs (contents d)") (simp add: d(6) abs z [symmetric])
    qed
    ultimately show ?thesis by blast
  next
    case False
    have ne: "zscore_of (contents d1) ''expire'' k \<noteq> Some ?t" using False zs by simp
    note rt = record_time [OF x1(2) c1 k t(1) ne]
    from rt(1) obtain d2 where d2: "xDataBase_Zset ops ''expire'' k (dec_int ?t) x1 = Some (db_ok, x1\<lparr>dbp := Some d2\<rparr>)"
      "contents d2 = zset_put ''expire'' k (dec_int ?t) (contents d1)" by blast
    let ?x2 = "x1\<lparr>dbp := Some d2\<rparr>" and ?e2 = "SetTTL k ?t ?e1"
    have "ProcessCmd_set ops (rcmd_args (RSetEx k v n)) sv = Some (sv\<lparr>xdb := ?x2, expiremgr := ?e2\<rparr>, rok)"
      using x1(1) at key t d2(1) by (simp add: ProcessCmd_set_def str_to_int64_dec_int ttl_data_eq rok_eq)
    moreover have "served contents (RSetEx k v n) sv (sv\<lparr>xdb := ?x2, expiremgr := ?e2\<rparr>, rok)"
    proof (rule served_intro [where d' = d2])
      show "ttl_inv (contents d2) ?e2" using rt(2) [OF inv1] d2(2) by simp
      show "RSetEx k v n = RFlush \<or> stale (contents d2) ?e2 \<subseteq> rs_stale contents sv"
        using stale_upd(2) [OF inv1, of k "dec_int ?t" "contents d1" ?t]
          stale_upd(2) [OF ttl_inv_db [OF c1(1)], of k "dec_int ?t" "contents d1" ?t]
          stale_upd(3) [of k "dec_int ?t" "contents d1" ?e]
        by (simp add: d2(2)) (simp add: rs_stale_def d(6) x1(4) stale_upd(1))
      show "spec_cmd (clock_ms sv) (RSetEx k v n) (rs_view contents sv) = (rok, rs_abs (contents d2))"
        using False by (cases "rs_abs (contents d)") (simp add: d(6) d2(2) rs_abs_upd(3) t abs z [symmetric])
    qed (use x1 c1 t in \<open>simp_all add: d2(2) rs_upd\<close>)
    ultimately show ?thesis by blast
  qed
qed

lemma serve_expire:
  assumes "rs_inv contents sv" "cmd_ok (clock_ms sv) (RExpire k n) s"
  shows "\<exists>r. ProcessCmd_expire ops (rcmd_args (RExpire k n)) sv = Some r \<and> served contents (RExpire k n) sv r"
proof -
  obtain d where d: "dbp (xdb sv) = Some d" "etag_ready (xdb sv)" "ttl_inv (contents d) (expiremgr sv)"
    "canonical (contents d)" "small (contents d)" "rs_contents contents sv = contents d"
    using assms(1) by (rule rs_invE)
  let ?t = "clock_ms sv + n * 1000" and ?e = "expiremgr sv"
  have t: "is_int64 ?t" "is_int64 n" and at: "expired_at (clock_ms sv) n = Some ?t" and k: "k \<noteq> []"
    using assms(2) by (simp_all add: expired_at_eq sendable_def)
  note key = expire_key_eq [OF d(3)]
  have z: "snd (rs_abs (contents d)) = zscore_of (contents d) ''expire''" by (simp add: rs_abs_def)
  have i01: "is_int64 0" "is_int64 1" by (simp_all add: small_int64 INT_MIN_def INT_MAX_def)
  show ?thesis
  proof (cases "fst (rs_abs (contents d)) k")
    case None
    then have "contents d (key_kv k) = None" using value_of(1) [OF d(3)] by simp
    then have "ProcessCmd_expire ops (rcmd_args (RExpire k n)) sv = Some (sv\<lparr>xdb := xdb sv, expiremgr := ?e\<rparr>, rint 0)"
      using Get_null [OF d(1)] at t i01 by (simp add: ProcessCmd_expire_def str_to_int64_dec_int rint_eq)
    moreover have "served contents (RExpire k n) sv (sv\<lparr>xdb := xdb sv, expiremgr := ?e\<rparr>, rint 0)"
      by (rule served_intro [OF d(1-5)]) (use d None in \<open>simp_all add: rs_stale_def\<close>, cases "rs_abs (contents d)", simp)
    ultimately show ?thesis by blast
  next
    case (Some v)
    then obtain ts where "contents d (key_kv k) = Some (stamped ts v)" using value_of(2) [OF d(3)] by blast
    from Get_value [OF d(1) this d(2)] obtain x1 where
      x1: "xDataBase_Get ops k \<lparr>timestamp = 0, strValue = []\<rparr> (xdb sv) = Some (db_ok, \<lparr>timestamp = ts, strValue = v\<rparr>, x1)"
      "dbp x1 = Some d" "etag_ready x1" by blast
    show ?thesis
    proof (cases "zscore_of (contents d) ''expire'' k = Some ?t")
      case True
      have "xDataBase_Zset ops ''expire'' k (dec_int ?t) x1 = Some (db_err, x1)"
        by (rule Zset_same [OF x1(2)]) (use canonical_eq [OF d(4) t(1), of k] True in simp)
      then have "ProcessCmd_expire ops (rcmd_args (RExpire k n)) sv = Some (sv\<lparr>xdb := x1, expiremgr := ?e\<rparr>, rint 0)"
        using x1(1) at key t i01 by (simp add: ProcessCmd_expire_def str_to_int64_dec_int ttl_data_eq rint_eq)
      moreover have "served contents (RExpire k n) sv (sv\<lparr>xdb := x1, expiremgr := ?e\<rparr>, rint 0)"
        by (rule served_intro [OF x1(2,3) d(3-5)])
          (use d Some True z in \<open>simp_all add: rs_stale_def\<close>, cases "rs_abs (contents d)", simp)
      ultimately show ?thesis by blast
    next
      case False
      note rt = record_time [OF x1(2) d(3-5) k t(1) False]
      from rt(1) obtain d2 where d2: "xDataBase_Zset ops ''expire'' k (dec_int ?t) x1 = Some (db_ok, x1\<lparr>dbp := Some d2\<rparr>)"
        "contents d2 = zset_put ''expire'' k (dec_int ?t) (contents d)" by blast
      let ?x2 = "x1\<lparr>dbp := Some d2\<rparr>" and ?e2 = "SetTTL k ?t ?e"
      have "ProcessCmd_expire ops (rcmd_args (RExpire k n)) sv = Some (sv\<lparr>xdb := ?x2, expiremgr := ?e2\<rparr>, rint 1)"
        using x1(1) at key t d2(1) i01 by (simp add: ProcessCmd_expire_def str_to_int64_dec_int ttl_data_eq rint_eq)
      moreover have "served contents (RExpire k n) sv (sv\<lparr>xdb := ?x2, expiremgr := ?e2\<rparr>, rint 1)"
      proof (rule served_intro [where d' = d2])
        show "ttl_inv (contents d2) ?e2" using rt(2) [OF ttl_inv_db [OF d(3)]] d2(2) by simp
        show "RExpire k n = RFlush \<or> stale (contents d2) ?e2 \<subseteq> rs_stale contents sv"
          using stale_upd(2) [OF ttl_inv_db [OF d(3)], of k "dec_int ?t" "contents d" ?t]
            stale_upd(3) [of k "dec_int ?t" "contents d" ?e]
          by (simp add: d2(2) rs_stale_def d(6))
        show "spec_cmd (clock_ms sv) (RExpire k n) (rs_view contents sv) = (rint 1, rs_abs (contents d2))"
          using False Some by (cases "rs_abs (contents d)") (simp add: d(6) d2(2) rs_abs_upd(3) t z [symmetric])
      qed (use x1 d t in \<open>simp_all add: d2(2) rs_upd\<close>)
      ultimately show ?thesis by blast
    qed
  qed
qed

lemma served_same:
  assumes "rs_inv contents sv" "spec_cmd (clock_ms sv) c (rs_view contents sv) = (out, rs_view contents sv)"
  shows "served contents c sv (sv, out)"
  using assms by (simp add: served_def)

lemma c_div_1000: "is_int64 v \<Longrightarrow> is_int64 (c_div v 1000)"
proof -
  assume a: "is_int64 v"
  have "\<bar>v\<bar> div 1000 \<le> \<bar>v\<bar>" "0 \<le> \<bar>v\<bar> div 1000" by linarith+
  then have "\<bar>c_div v 1000\<bar> \<le> \<bar>v\<bar>" "0 \<le> v \<Longrightarrow> 0 \<le> c_div v 1000" "v \<le> 0 \<Longrightarrow> c_div v 1000 \<le> 0"
    by (auto simp: c_div_def sgn_if abs_mult)
  with a show ?thesis unfolding is_int64_def INT64_MIN_def INT64_MAX_def by linarith
qed

lemma serve_ttl:
  assumes "rs_inv contents sv" "cmd_ok (clock_ms sv) (RTtl k) (rs_view contents sv)"
  shows "\<exists>r. ProcessCmd_ttl ops [''ttl'', k] sv = Some r \<and> served contents (RTtl k) sv r"
proof -
  obtain d where d: "dbp (xdb sv) = Some d" "etag_ready (xdb sv)" "ttl_inv (contents d) (expiremgr sv)"
    "canonical (contents d)" "small (contents d)" "rs_contents contents sv = contents d"
    using assms(1) by (rule rs_invE)
  have z: "snd (rs_abs (contents d)) k = map_option str_to_int64 (contents d (key_zset ''expire'' k))"
    by (simp add: rs_abs_def zscore_of_def)
  obtain p zz where pz: "rs_abs (contents d) = (p, zz)" by fastforce
  note key = expire_key_eq [OF d(3)]
  show ?thesis
  proof (cases "contents d (key_zset ''expire'' k)")
    case None
    have "ProcessCmd_ttl ops [''ttl'', k] sv = Some (sv, rint (- 2))"
      using None Zget_eq [OF d(1), of "''expire''" k "[]"] key
      by (simp add: ProcessCmd_ttl_def rint_eq small_int64 INT_MIN_def INT_MAX_def)
    moreover have "served contents (RTtl k) sv (sv, rint (- 2))"
      by (rule served_same [OF assms(1)]) (use None z pz d(6) in simp)
    ultimately show ?thesis by blast
  next
    case (Some sc)
    let ?v = "str_to_int64 sc - clock_ms sv"
    have ok: "is_int64 ?v" using assms(2) z Some d(6) by simp
    have "ProcessCmd_ttl ops [''ttl'', k] sv = Some (sv, rint (c_div ?v 1000))"
      using Some Zget_eq [OF d(1), of "''expire''" k "[]"] key ok
      by (simp add: ProcessCmd_ttl_def rint_eq c_div_1000 int64_arith_def)
    moreover have "served contents (RTtl k) sv (sv, rint (c_div ?v 1000))"
      by (rule served_same [OF assms(1)]) (use Some z pz d(6) in simp)
    ultimately show ?thesis by blast
  qed
qed

lemma serve_flush:
  assumes "rs_inv contents sv"
  shows "\<exists>r. ProcessCmd_flushall ops [''flushall''] sv = Some r \<and> served contents RFlush sv r"
proof -
  obtain d where d: "dbp (xdb sv) = Some d" "etag_ready (xdb sv)" "ttl_inv (contents d) (expiremgr sv)"
    "canonical (contents d)" "small (contents d)" "rs_contents contents sv = contents d"
    using assms by (rule rs_invE)
  from Flushall_eq [OF d(1)] obtain d' where
    f: "xDataBase_Flushall ops (xdb sv) = Some (db_ok, (xdb sv)\<lparr>dbp := Some d'\<rparr>)" "contents d' = Map.empty" by blast
  let ?x = "(xdb sv)\<lparr>dbp := Some d'\<rparr>"
  have "ProcessCmd_flushall ops [''flushall''] sv = Some (sv\<lparr>xdb := ?x, expiremgr := expiremgr sv\<rparr>, rok)"
    using f(1) by (simp add: ProcessCmd_flushall_def rok_eq)
  moreover have "served contents RFlush sv (sv\<lparr>xdb := ?x, expiremgr := expiremgr sv\<rparr>, rok)"
    by (rule served_intro [where d' = d'])
      (use d f(2) in \<open>simp_all add: rs_upd ttl_inv_empty [OF d(3)]\<close>, cases "rs_abs (contents d)", simp)
  ultimately show ?thesis by blast
qed

text \<open>Scans.\<close>

lemma scan_result:
  assumes "rs_inv contents sv" "n \<le> INT_MAX"
  shows "xDataBase_ScanKey ops a b n [] (xdb sv) = Some (db_ok, key_range (fst (rs_view contents sv)) a b n)"
    and "SendMultiBulkReply (key_range (fst (rs_view contents sv)) a b n) =
      Some (resp_command (key_range (fst (rs_view contents sv)) a b n))"
    and "int (length (key_range (fst (rs_view contents sv)) a b n)) \<le> INT_MAX"
proof -
  obtain d where d: "dbp (xdb sv) = Some d" "etag_ready (xdb sv)" "ttl_inv (contents d) (expiremgr sv)"
    "canonical (contents d)" "small (contents d)" "rs_contents contents sv = contents d"
    using assms(1) by (rule rs_invE)
  let ?ks = "key_range (fst (rs_abs (contents d))) a b n"
  have set: "{k. contents d (key_kv k) \<noteq> None \<and> a \<le> k \<and> k < b} = {k. fst (rs_abs (contents d)) k \<noteq> None \<and> a \<le> k \<and> k < b}"
    using value_of(1) [OF d(3)] by simp
  show "xDataBase_ScanKey ops a b n [] (xdb sv) = Some (db_ok, key_range (fst (rs_view contents sv)) a b n)"
    using ScanKey_eq [OF d(1), of a b n "[]"] unfolding key_range_def d(6) set by simp
  have len: "length ?ks \<le> nat n" by (simp add: key_range_def)
  then show "int (length (key_range (fst (rs_view contents sv)) a b n)) \<le> INT_MAX"
    using assms(2) unfolding d(6) by (simp add: INT_MAX_def)
  then have "length ?ks \<le> 2147483647" unfolding d(6) by (simp add: INT_MAX_def)
  then have "length ?ks < 10 ^ 200" by (simp add: order.strict_trans1)
  moreover have "length k < 10 ^ 200" if "k \<in> set ?ks" for k
  proof -
    have "k \<in> set (sorted_list_of_set {k. fst (rs_abs (contents d)) k \<noteq> None \<and> a \<le> k \<and> k < b})"
      using that in_set_takeD unfolding key_range_def by fast
    then have "fst (rs_abs (contents d)) k \<noteq> None"
      by (cases "finite {k. fst (rs_abs (contents d)) k \<noteq> None \<and> a \<le> k \<and> k < b}") auto
    then show ?thesis using small_reply(1) [OF d(5)] by blast
  qed
  ultimately show "SendMultiBulkReply (key_range (fst (rs_view contents sv)) a b n) =
      Some (resp_command (key_range (fst (rs_view contents sv)) a b n))"
    unfolding d(6) by (intro SendMultiBulkReply_eq) auto
qed

lemma serve_scan:
  assumes "rs_inv contents sv" "scan_args args = Some (a, b, n, False)" "n \<le> INT_MAX"
    and "spec_cmd (clock_ms sv) c (rs_view contents sv) =
      (resp_command (key_range (fst (rs_view contents sv)) a b n), rs_view contents sv)"
  shows "\<exists>r. ProcessCmd_scan ops args sv = Some r \<and> served contents c sv r"
  using scan_result [OF assms(1,3), of a b] served_same [OF assms(1,4)] assms(2)
  by (auto simp: ProcessCmd_scan_def)

lemma del_all_eq:
  assumes "dbp x = Some d"
  shows "\<exists>d'. del_all ops ks x = Some (x\<lparr>dbp := Some d'\<rparr>) \<and> contents d' = del_keys ks (contents d)"
  using assms
proof (induction ks arbitrary: x d)
  case Nil
  have "x\<lparr>dbp := Some d\<rparr> = x" using Nil by simp
  then show ?case by (intro exI [of _ d]) (simp add: del_keys_def)
next
  case (Cons k ks)
  from Del_eq [OF Cons.prems, of k] obtain d1 where
    d1: "xDataBase_Del ops k x = Some (db_ok, x\<lparr>dbp := Some d1\<rparr>)" "contents d1 = (contents d)(key_kv k := None)" by blast
  from Cons.IH [of "x\<lparr>dbp := Some d1\<rparr>" d1] obtain d2 where
    d2: "del_all ops ks (x\<lparr>dbp := Some d1\<rparr>) = Some (x\<lparr>dbp := Some d2\<rparr>)"
      "contents d2 = del_keys ks (contents d1)" by auto
  then show ?case using d1 by (intro exI [of _ d2]) (simp add: del_keys_def)
qed

lemma serve_scandel:
  assumes "rs_inv contents sv" "\<not> strcasecmp_eq ''limit'' b"
  shows "\<exists>r. ProcessCmd_scan ops [''scan'', a, b, ''del''] sv = Some r \<and> served contents (RScanDel a b) sv r"
proof -
  obtain d where d: "dbp (xdb sv) = Some d" "etag_ready (xdb sv)" "ttl_inv (contents d) (expiremgr sv)"
    "canonical (contents d)" "small (contents d)" "rs_contents contents sv = contents d"
    using assms(1) by (rule rs_invE)
  let ?ks = "key_range (fst (rs_abs (contents d))) a b INT_MAX"
  have scan: "xDataBase_ScanKey ops a b INT_MAX [] (xdb sv) = Some (db_ok, ?ks)" "int (length ?ks) \<le> INT_MAX"
    using scan_result(1,3) [OF assms(1), of INT_MAX a b] unfolding d(6) by simp_all
  then have i: "is_int64 (int (length ?ks))" by (intro small_int64) (simp_all add: INT_MIN_def)
  have args: "scan_args [''scan'', a, b, ''del''] = Some (a, b, INT_MAX, True)"
    using assms(2) by (simp add: scan_args_def)
  from del_all_eq [OF d(1), of ?ks] obtain d' where
    d': "del_all ops ?ks (xdb sv) = Some ((xdb sv)\<lparr>dbp := Some d'\<rparr>)" "contents d' = del_keys ?ks (contents d)" by blast
  let ?x = "(xdb sv)\<lparr>dbp := Some d'\<rparr>" and ?out = "rint (int (length ?ks))"
  have "ProcessCmd_scan ops [''scan'', a, b, ''del''] sv = Some (sv\<lparr>xdb := ?x, expiremgr := expiremgr sv\<rparr>, ?out)"
    using args scan(1) d'(1) by (simp add: ProcessCmd_scan_def rint_eq [OF i])
  moreover have "served contents (RScanDel a b) sv (sv\<lparr>xdb := ?x, expiremgr := expiremgr sv\<rparr>, ?out)"
  proof (rule served_intro [where d' = d'])
    show "spec_cmd (clock_ms sv) (RScanDel a b) (rs_view contents sv) = (?out, rs_abs (contents d'))"
      by (cases "rs_abs (contents d)") (simp add: d(6) d'(2) del_keys_inv(5) Let_def)
  qed (use d del_keys_inv in \<open>auto simp: d'(2) rs_stale_def\<close>)
  ultimately show ?thesis by blast
qed

text \<open>Every command.\<close>

lemma atoi_limit: "INT_MIN \<le> n \<Longrightarrow> n \<le> INT_MAX \<Longrightarrow> atoi (dec_int n) = n"
  by (simp add: atoi_dec_int)

lemma serve_ok:
  assumes "rs_inv contents sv" "cmd_ok (clock_ms sv) c (rs_view contents sv)"
  shows "\<exists>r. run_cmd (server_table ops) (rcmd_args c) sv = Some r \<and> served contents c sv r"
proof (cases c)
  case (RScan a b n)
  then show ?thesis using assms serve_scan [OF assms(1), of "rcmd_args c" a b n c]
    by (cases "rs_view contents sv") (simp add: run_server_table scan_args_def atoi_limit)
next
  case (RScanFrom a n)
  then show ?thesis using assms serve_scan [OF assms(1), of "rcmd_args c" a "[mk_byte 255]" n c]
    by (cases "rs_view contents sv") (simp add: run_server_table scan_args_def atoi_limit)
next
  case (RScanAll a)
  then show ?thesis using assms serve_scan [OF assms(1), of "rcmd_args c" a "[mk_byte 255]" INT_MAX c]
    by (cases "rs_view contents sv") (simp add: run_server_table scan_args_def)
qed (use assms serve_get serve_set serve_setex serve_del serve_expire serve_ttl serve_scandel serve_flush
  in \<open>force simp: run_server_table\<close>)+

end

subsection \<open>Runs\<close>

text \<open>The clock advances, a command arrives, or the expiry thread takes some turns.\<close>

datatype act = Tick u64 int64 | Do rcmd | Turns nat

primrec serve :: "('db, 'it) rocksdb_ops \<Rightarrow> act \<Rightarrow> 'db xRedisServer \<Rightarrow> (string \<times> 'db xRedisServer) ub" where
  "serve ops (Tick us ms) sv = Some ([], sv\<lparr>clock_stamp := us, clock_ms := ms\<rparr>)"
| "serve ops (Do c) sv = map_option prod.swap (run_cmd (server_table ops) (rcmd_args c) sv)"
| "serve ops (Turns n) sv = do {
     (e, x) \<leftarrow> Dispatch ops (clock_ms sv) n (expiremgr sv) (xdb sv);
     Some ([], sv\<lparr>xdb := x, expiremgr := e\<rparr>)
   }"

primrec server_run :: "('db, 'it) rocksdb_ops \<Rightarrow> act list \<Rightarrow> 'db xRedisServer \<Rightarrow> (string list \<times> 'db xRedisServer) ub" where
  "server_run ops [] sv = Some ([], sv)"
| "server_run ops (a # as) sv = do {
     (out, sv) \<leftarrow> serve ops a sv;
     (outs, sv) \<leftarrow> server_run ops as sv;
     Some (out # outs, sv)
   }"

text \<open>
  The specification. Turns of the thread delete keys whose time has come and no others; enough
  turns delete all of them. A negative time may or may not count.
\<close>

inductive spec_act :: "act \<Rightarrow> int64 \<times> rstate \<Rightarrow> string \<Rightarrow> int64 \<times> rstate \<Rightarrow> bool" where
  tick: "spec_act (Tick us ms) (now, s) [] (ms, s)"
| command: "spec_cmd now c s = (out, s') \<Longrightarrow> spec_act (Do c) (now, s) out (now, s')"
| turns: "D \<subseteq> {k. \<exists>t. z k = Some t \<and> t \<le> now} \<Longrightarrow>
     card (dom z) < n \<longrightarrow> {k. \<exists>t. z k = Some t \<and> 0 \<le> t \<and> t \<le> now} \<subseteq> D \<Longrightarrow>
     spec_act (Turns n) (now, p, z) [] (now, p |` (- D), z |` (- D))"

inductive_cases spec_tickE: "spec_act (Tick us ms) s out s'"
inductive_cases spec_doE: "spec_act (Do c) s out s'"
inductive_cases spec_turnsE: "spec_act (Turns n) s out s'"

inductive spec_acts :: "act list \<Rightarrow> int64 \<times> rstate \<Rightarrow> string list \<Rightarrow> int64 \<times> rstate \<Rightarrow> bool" where
  nil: "spec_acts [] s [] s"
| cons: "spec_act a s out s' \<Longrightarrow> spec_acts as s' outs s'' \<Longrightarrow> spec_acts (a # as) s (out # outs) s''"

inductive_cases spec_nilE: "spec_acts [] s outs s'"
inductive_cases spec_consE: "spec_acts (a # as) s outs s'"

text \<open>
  Acts within bounds: the clock is positive and before the year 36,000,000, expiry periods are
  less than \<open>2\<^sup>5\<^sup>0\<close> seconds; \<open>flushall\<close> is treated apart.
\<close>

primrec act_ok :: "act \<Rightarrow> bool" where
  "act_ok (Tick us ms) \<longleftrightarrow> 0 \<le> ms \<and> ms \<le> 2 ^ 60"
| "act_ok (Do c) \<longleftrightarrow> sendable (rcmd_args c) \<and>
     (case c of RSetEx k v n \<Rightarrow> \<bar>n\<bar> \<le> 2 ^ 50 | RExpire k n \<Rightarrow> \<bar>n\<bar> \<le> 2 ^ 50
      | RScan a b n \<Rightarrow> INT_MIN \<le> n \<and> n \<le> INT_MAX | RScanFrom a n \<Rightarrow> INT_MIN \<le> n \<and> n \<le> INT_MAX
      | RScanDel a b \<Rightarrow> \<not> strcasecmp_eq ''limit'' b | RFlush \<Rightarrow> False | _ \<Rightarrow> True)"
| "act_ok (Turns n) \<longleftrightarrow> True"

definition bounded :: "int64 \<times> rstate \<Rightarrow> bool" where
  "bounded s \<longleftrightarrow> 0 \<le> fst s \<and> fst s \<le> 2 ^ 60 \<and> (\<forall>k t. snd (snd s) k = Some t \<longrightarrow> \<bar>t\<bar> \<le> 2 ^ 61)"

lemma period_bound: "\<bar>n\<bar> \<le> 2 ^ 50 \<Longrightarrow> 0 \<le> now \<Longrightarrow> now \<le> 2 ^ 60 \<Longrightarrow>
    is_int64 n \<and> is_int64 (n * 1000) \<and> is_int64 (now + n * 1000) \<and> \<bar>now + n * 1000\<bar> \<le> 2 ^ 61"
  by (auto simp: is_int64_def INT64_MIN_def INT64_MAX_def)

lemma act_ok_cmd:
  assumes "act_ok (Do c)" "bounded (now, s)"
  shows "cmd_ok now c s"
proof -
  have t: "is_int64 (t - now)" if "snd s k = Some t" for k t
  proof -
    have "\<bar>t\<bar> \<le> 2 ^ 61" "0 \<le> now" "now \<le> 2 ^ 60" using assms(2) that by (auto simp: bounded_def)
    then show ?thesis unfolding is_int64_def INT64_MIN_def INT64_MAX_def by simp linarith
  qed
  have b: "0 \<le> now" "now \<le> 2 ^ 60" using assms(2) by (auto simp: bounded_def)
  show ?thesis
    using assms(1) t period_bound [OF _ b] by (cases c) auto
qed

lemma spec_cmd_bounded:
  assumes "act_ok (Do c)" "bounded (now, s)" "spec_cmd now c s = (out, s')"
  shows "bounded (now, s')"
proof -
  have b: "0 \<le> now" "now \<le> 2 ^ 60" using assms(2) by (auto simp: bounded_def)
  obtain p z where s: "s = (p, z)" by fastforce
  show ?thesis
    using assms period_bound [OF _ b] unfolding s
    by (cases c) (auto simp: bounded_def Let_def split: if_splits)
qed

lemma spec_act_bounded: "spec_act a s out s' \<Longrightarrow> act_ok a \<Longrightarrow> bounded s \<Longrightarrow> bounded s'"
proof (induction rule: spec_act.induct)
  case (command now c s out s')
  then show ?case using spec_cmd_bounded by blast
qed (auto simp: bounded_def restrict_map_def)

definition ok_state :: "('db \<Rightarrow> string \<rightharpoonup> string) \<Rightarrow> 'db xRedisServer \<Rightarrow> bool" where
  "ok_state contents sv \<longleftrightarrow> rs_inv contents sv \<and> rs_stale contents sv = {} \<and> bounded (clock_ms sv, rs_view contents sv)"

context rocksdb_reliable
begin

lemma finite_zdom: "finite (dom (zscore_of (contents d) z))"
proof -
  have "finite (key_zset z ` dom (zscore_of (contents d) z))"
    by (rule finite_subset [OF _ finite_contents [of d]]) (auto simp: zscore_of_def)
  then show ?thesis by (rule finite_imageD) (auto intro: inj_onI)
qed

lemma stale_due:
  assumes "ttl_inv c e" "stale c e = {}" "now < INT64_MAX"
  shows "due now (zscore_of c ''expire'') e \<subseteq> {k. \<exists>t. zscore_of c ''expire'' k = Some t \<and> t \<le> now}"
    and "{k. \<exists>t. zscore_of c ''expire'' k = Some t \<and> 0 \<le> t \<and> t \<le> now} \<subseteq> due now (zscore_of c ''expire'') e"
proof -
  let ?z = "zscore_of c ''expire''"
  have q: "?z k = Some t" if "queued e k = Some t" for k t
    using assms(1,2) expire_invD(8) [of "{}" ?z e k t] that by (auto simp: ttl_inv_def stale_def)
  show "due now ?z e \<subseteq> {k. \<exists>t. ?z k = Some t \<and> t \<le> now}"
    using q by (auto simp: due_def pending_iff)
  show "{k. \<exists>t. ?z k = Some t \<and> 0 \<le> t \<and> t \<le> now} \<subseteq> due now ?z e"
    using assms(3) by (auto simp: due_def pending_iff)
qed

lemma serve_turns:
  assumes "rs_inv contents sv" "rs_stale contents sv = {}" "clock_ms sv \<le> 2 ^ 60"
  shows "\<exists>sv'. serve ops (Turns n) sv = Some ([], sv') \<and> rs_inv contents sv' \<and> rs_stale contents sv' = {} \<and>
    clock_ms sv' = clock_ms sv \<and>
    spec_act (Turns n) (clock_ms sv, rs_view contents sv) [] (clock_ms sv', rs_view contents sv')"
proof -
  obtain d where d: "dbp (xdb sv) = Some d" "etag_ready (xdb sv)" "ttl_inv (contents d) (expiremgr sv)"
    "canonical (contents d)" "small (contents d)" "rs_contents contents sv = contents d"
    using assms(1) by (rule rs_invE)
  let ?z = "zscore_of (contents d) ''expire''" and ?now = "clock_ms sv" and ?e = "expiremgr sv"
  have now: "?now < INT64_MAX" using assms(3) by (simp add: INT64_MAX_def)
  have st: "stale (contents d) ?e = {}" using assms(2) by (simp add: rs_stale_def d(6))
  note sd = stale_due [OF d(3) st now]
  from Dispatch_ok [OF d(1,3) now, of n] obtain e' d' D where
    r: "Dispatch ops ?now n ?e (xdb sv) = Some (e', (xdb sv)\<lparr>dbp := Some d'\<rparr>)" "ttl_inv (contents d') e'"
      "stale (contents d') e' \<subseteq> stale (contents d) ?e" "deleted D (contents d) (contents d')" "D \<subseteq> due ?now ?z ?e"
      "card (due ?now ?z ?e) < n \<longrightarrow> D = due ?now ?z ?e \<and> ?now < first_timeout e'" by blast
  let ?sv = "sv\<lparr>xdb := (xdb sv)\<lparr>dbp := Some d'\<rparr>, expiremgr := e'\<rparr>"
  have del: "contents d' (key_kv k) = (if k \<in> D then None else contents d (key_kv k))"
    "contents d' (key_zset ''expire'' k) = (if k \<in> D then None else contents d (key_zset ''expire'' k))" for k
    using r(4) by (simp_all add: deleted_def)
  have "canonical (contents d')" "small (contents d')"
    using d(4,5) by (auto simp: canonical_def small_def del split: if_splits)
  then have inv: "rs_inv contents ?sv" using r(2) d(2) by (auto simp: rs_inv_def)
  have view: "rs_view contents ?sv = (fst (rs_abs (contents d)) |` (- D), snd (rs_abs (contents d)) |` (- D))"
    by (auto simp: rs_contents_def rs_abs_def restrict_map_def fun_eq_iff del zscore_of_def)
  have z: "snd (rs_abs (contents d)) = ?z" by (simp add: rs_abs_def)
  have fin: "finite (dom ?z)"
    using finite_zdom by blast
  have "card (due ?now ?z ?e) \<le> card (dom ?z)"
    using sd(1) fin by (intro card_mono) auto
  then have "spec_act (Turns n) (?now, fst (rs_abs (contents d)), ?z) []
      (?now, fst (rs_abs (contents d)) |` (- D), ?z |` (- D))"
    using r(5,6) sd by (intro spec_act.turns) auto
  moreover have "rs_stale contents ?sv = {}" using r(3) st by (simp add: rs_stale_def rs_contents_def)
  ultimately show ?thesis using inv r(1) view z d(6)
    by (intro exI [of _ ?sv]) (cases "rs_abs (contents d)", simp)
qed

lemma serve_refines:
  assumes "ok_state contents sv" "act_ok a"
  shows "\<exists>out sv'. serve ops a sv = Some (out, sv') \<and> ok_state contents sv' \<and>
    spec_act a (clock_ms sv, rs_view contents sv) out (clock_ms sv', rs_view contents sv')"
proof -
  note st = assms(1) [unfolded ok_state_def]
  have "\<exists>out sv'. serve ops a sv = Some (out, sv') \<and> rs_inv contents sv' \<and> rs_stale contents sv' = {} \<and>
      spec_act a (clock_ms sv, rs_view contents sv) out (clock_ms sv', rs_view contents sv')"
  proof (cases a)
    case (Tick us ms)
    then show ?thesis using st
      by (auto simp: rs_inv_def rs_stale_def rs_contents_def intro: spec_act.tick)
  next
    case (Do c)
    then have "c \<noteq> RFlush" using assms(2) by auto
    moreover obtain r where "run_cmd (server_table ops) (rcmd_args c) sv = Some r" "served contents c sv r"
      using serve_ok [of sv c] st act_ok_cmd [of c] assms(2) Do by blast
    ultimately show ?thesis using st Do
      by (cases r) (auto simp: served_def intro!: spec_act.command)
  next
    case (Turns n)
    then show ?thesis using serve_turns [of sv n] st by (auto simp: bounded_def)
  qed
  then show ?thesis using spec_act_bounded assms(2) st unfolding ok_state_def by blast
qed

lemma server_run_refines:
  "ok_state contents sv \<Longrightarrow> \<forall>a \<in> set as. act_ok a \<Longrightarrow>
   \<exists>outs sv'. server_run ops as sv = Some (outs, sv') \<and> ok_state contents sv' \<and>
     spec_acts as (clock_ms sv, rs_view contents sv) outs (clock_ms sv', rs_view contents sv')"
proof (induction as arbitrary: sv)
  case Nil
  then show ?case by (auto intro: spec_acts.nil)
next
  case (Cons a as)
  from serve_refines [of sv a] Cons.prems obtain out sv1 where
    1: "serve ops a sv = Some (out, sv1)" "ok_state contents sv1"
      "spec_act a (clock_ms sv, rs_view contents sv) out (clock_ms sv1, rs_view contents sv1)" by auto
  from Cons.IH [OF 1(2)] Cons.prems obtain outs sv2 where
    2: "server_run ops as sv1 = Some (outs, sv2)" "ok_state contents sv2"
      "spec_acts as (clock_ms sv1, rs_view contents sv1) outs (clock_ms sv2, rs_view contents sv2)" by auto
  show ?case using 1 2 by (auto intro!: spec_acts.cons [OF 1(3) 2(3)])
qed

lemma ok_state_init:
  assumes "dbp x = Some d" "contents d = Map.empty" "etag_ready x" "0 \<le> ms" "ms \<le> 2 ^ 60"
  shows "ok_state contents (snd (xRedisServer_Init ops x us ms))" "rs_view contents (snd (xRedisServer_Init ops x us ms)) = (Map.empty, Map.empty)"
    "clock_ms (snd (xRedisServer_Init ops x us ms)) = ms"
proof -
  let ?sv = "snd (xRedisServer_Init ops x us ms)"
  have "queued (expiremgr ?sv) = Map.empty"
    by (simp add: xRedisServer_Init_def ExpireManager_Init_def ExpireManager_new_def fun_eq_iff score_of_def SortedSet_new_def)
  then have "rs_stale contents ?sv = {}" by (simp add: rs_stale_def stale_def)
  moreover show v: "rs_view contents ?sv = (Map.empty, Map.empty)"
    using assms(1,2) by (simp add: rs_contents_def xRedisServer_Init_def rs_abs_upd(4))
  moreover show "clock_ms ?sv = ms" by (simp add: xRedisServer_Init_def)
  moreover have "rs_inv contents ?sv"
    using assms(1-3) ttl_inv_new by (auto simp: rs_inv_def xRedisServer_Init_def canonical_upd small_upd)
  ultimately show "ok_state contents ?sv" using assms(4,5) by (simp add: ok_state_def bounded_def)
qed

end

subsection \<open>What a run does to one key\<close>

primrec clock_after :: "int64 \<Rightarrow> act list \<Rightarrow> int64" where
  "clock_after now [] = now"
| "clock_after now (a # as) = clock_after (case a of Tick us ms \<Rightarrow> ms | _ \<Rightarrow> now) as"

text \<open>Acts that do not record an expiry time for \<open>k\<close>, and acts that do not change its value.\<close>

fun leaves_time :: "string \<Rightarrow> act \<Rightarrow> bool" where
  "leaves_time k (Do (RSetEx j v n)) \<longleftrightarrow> j \<noteq> k"
| "leaves_time k (Do (RExpire j n)) \<longleftrightarrow> j \<noteq> k"
| "leaves_time k (Do RFlush) \<longleftrightarrow> False"
| "leaves_time k a \<longleftrightarrow> True"

fun leaves_value :: "string \<Rightarrow> act \<Rightarrow> bool" where
  "leaves_value k (Do (RSet j v)) \<longleftrightarrow> j \<noteq> k"
| "leaves_value k (Do (RDel j)) \<longleftrightarrow> j \<noteq> k"
| "leaves_value k (Do (RScanDel a b)) \<longleftrightarrow> \<not> (a \<le> k \<and> k < b)"
| "leaves_value k a \<longleftrightarrow> True"

primrec before_time :: "int64 \<Rightarrow> act \<Rightarrow> bool" where
  "before_time t (Tick us ms) \<longleftrightarrow> ms < t"
| "before_time t (Do c) \<longleftrightarrow> True"
| "before_time t (Turns n) \<longleftrightarrow> True"

lemma spec_acts_append:
  "spec_acts (as @ bs) s outs s' \<Longrightarrow>
   \<exists>o1 o2 s1. spec_acts as s o1 s1 \<and> spec_acts bs s1 o2 s' \<and> outs = o1 @ o2"
proof (induction as arbitrary: s outs)
  case Nil
  then show ?case by (intro exI[of _ "[]"] exI[of _ outs] exI[of _ s]) (auto intro: spec_acts.nil)
next
  case (Cons a as)
  from Cons.prems obtain out outs1 s1 where a: "spec_act a s out s1" "spec_acts (as @ bs) s1 outs1 s'" "outs = out # outs1"
    by (auto elim: spec_consE)
  from Cons.IH [OF a(2)] obtain o1 o2 s2 where "spec_acts as s1 o1 s2" "spec_acts bs s2 o2 s'" "outs1 = o1 @ o2" by blast
  with a show ?case by (intro exI[of _ "out # o1"] exI[of _ o2] exI[of _ s2]) (auto intro: spec_acts.cons)
qed

lemma spec_act_clock: "spec_act a s out s' \<Longrightarrow> fst s' = (case a of Tick us ms \<Rightarrow> ms | _ \<Rightarrow> fst s)"
  by (induction rule: spec_act.induct) auto

lemma spec_acts_clock: "spec_acts as s outs s' \<Longrightarrow> fst s' = clock_after (fst s) as"
  by (induction rule: spec_acts.induct) (auto dest: spec_act_clock)

lemma spec_act_size:
  assumes "spec_act a s out s'" "finite (dom (snd (snd s)))"
  shows "finite (dom (snd (snd s'))) \<and> card (dom (snd (snd s'))) \<le> card (dom (snd (snd s))) + 1"
  using assms
proof (induction rule: spec_act.induct)
  case (command now c s out s')
  obtain p z where s: "s = (p, z)" by fastforce
  have ins: "card (insert k (dom z)) \<le> card (dom z) + 1" for k
    using command.prems s by (simp add: card_insert_if)
  have "snd s' = z \<or> snd s' = Map.empty \<or> (\<exists>k t. snd s' = z(k \<mapsto> t))"
    using command.hyps unfolding s by (cases c) (auto simp: Let_def split: if_splits, blast+)
  then have "dom (snd s') = dom z \<or> dom (snd s') = {} \<or> (\<exists>k. dom (snd s') = insert k (dom z))"
    by (metis dom_empty dom_fun_upd option.distinct(1))
  then show ?case using command.prems ins unfolding s by auto
next
  case (turns D z now n p)
  have "card (dom z \<inter> - D) \<le> card (dom z)" using turns.prems by (intro card_mono) auto
  then show ?case using turns.prems by simp
qed auto

lemma spec_acts_size:
  "spec_acts as s outs s' \<Longrightarrow> finite (dom (snd (snd s))) \<Longrightarrow>
   finite (dom (snd (snd s'))) \<and> card (dom (snd (snd s'))) \<le> card (dom (snd (snd s))) + length as"
  by (induction rule: spec_acts.induct) (auto dest!: spec_act_size)

lemma key_range_mem: "k \<in> set (key_range p a b n) \<Longrightarrow> a \<le> k \<and> k < b"
proof -
  assume "k \<in> set (key_range p a b n)"
  then have "k \<in> set (sorted_list_of_set {k. p k \<noteq> None \<and> a \<le> k \<and> k < b})"
    unfolding key_range_def by (rule in_set_takeD)
  then show ?thesis by (cases "finite {k. p k \<noteq> None \<and> a \<le> k \<and> k < b}") auto
qed

lemma spec_act_keeps:
  assumes "spec_act a (now, p, z) out (now', p', z')" "z k = Some t" "now < t" "leaves_time k a"
  shows "z' k = Some t" "leaves_value k a \<Longrightarrow> p' k = p k"
proof -
  have "z' k = Some t \<and> (leaves_value k a \<longrightarrow> p' k = p k)"
  proof (cases a)
    case (Tick us ms)
    then show ?thesis using assms by (auto elim: spec_tickE)
  next
    case (Do c)
    then have "spec_cmd now c (p, z) = (out, p', z')" using assms(1) by (auto elim: spec_doE)
    then show ?thesis using assms(2,4) key_range_mem unfolding Do
      by (cases c) (auto simp: Let_def restrict_map_def split: if_splits)
  next
    case (Turns n)
    with assms(1) obtain D where "D \<subseteq> {k. \<exists>t. z k = Some t \<and> t \<le> now}" "p' = p |` (- D)" "z' = z |` (- D)"
      by (auto elim!: spec_turnsE)
    moreover from this assms(2,3) have "k \<notin> D" by auto
    ultimately show ?thesis using assms(2) by (simp add: restrict_map_def)
  qed
  then show "z' k = Some t" "leaves_value k a \<Longrightarrow> p' k = p k" by blast+
qed

lemma spec_acts_keeps:
  "spec_acts as s outs s' \<Longrightarrow> snd (snd s) k = Some t \<Longrightarrow> fst s < t \<Longrightarrow>
   \<forall>a \<in> set as. leaves_time k a \<and> before_time t a \<Longrightarrow>
   snd (snd s') k = Some t \<and> fst s' < t \<and> ((\<forall>a \<in> set as. leaves_value k a) \<longrightarrow> fst (snd s') k = fst (snd s) k)"
proof (induction rule: spec_acts.induct)
  case (cons a s out s1 as outs s2)
  obtain now p z where s: "s = (now, p, z)" by (cases s) auto
  obtain now1 p1 z1 where s1: "s1 = (now1, p1, z1)" by (cases s1) auto
  have c: "now1 = (case a of Tick us ms \<Rightarrow> ms | _ \<Rightarrow> now)" using spec_act_clock [OF cons.hyps(1)] unfolding s s1 by (cases a) auto
  then have "now1 < t" using cons.prems s by (cases a) auto
  moreover have "z1 k = Some t" "leaves_value k a \<Longrightarrow> p1 k = p k"
    using spec_act_keeps [OF cons.hyps(1) [unfolded s s1], of k t] cons.prems s by auto
  ultimately show ?case using cons.IH cons.prems s s1 by auto
qed auto

lemma spec_setex:
  assumes "spec_act (Do (RSetEx k v n)) s out s'"
  shows "snd (snd s') k = Some (fst s + n * 1000)" "fst (snd s') k = Some v" "fst s' = fst s"
  using assms by (auto elim!: spec_doE simp: Let_def split: if_splits)

lemma spec_get:
  assumes "spec_acts [Do (RGet k)] s outs s'"
  shows "outs = [case fst (snd s) k of None \<Rightarrow> rnull | Some v \<Rightarrow> resp_bulk v]"
  using assms by (cases s) (auto elim!: spec_consE spec_nilE spec_doE)


primrec spec_cmds :: "int64 \<Rightarrow> rcmd list \<Rightarrow> rstate \<Rightarrow> string list \<times> rstate" where
  "spec_cmds now [] s = ([], s)"
| "spec_cmds now (c # cs) s =
     (let (out, s) = spec_cmd now c s; (outs, s) = spec_cmds now cs s in (out # outs, s))"

lemma spec_cmd_bounded_any:
  assumes "act_ok (Do c) \<or> c = RFlush" "bounded (now, s)" "spec_cmd now c s = (out, s')"
  shows "bounded (now, s')"
proof (cases "c = RFlush")
  case True
  with assms show ?thesis by (cases s) (auto simp: bounded_def)
qed (use assms spec_cmd_bounded in blast)

lemma flush_ok: "cmd_ok now RFlush s"
  by (simp add: sendable_def INT_MAX_def)

context rocksdb_reliable
begin

lemma run_cmds_refines:
  "\<lbrakk>rs_inv contents sv; bounded (clock_ms sv, rs_view contents sv); \<forall>c \<in> set cmds. act_ok (Do c) \<or> c = RFlush\<rbrakk> \<Longrightarrow>
   \<exists>sv'. run_cmds (server_table ops) sv (map rcmd_args cmds) =
       Some (sv', concat (fst (spec_cmds (clock_ms sv) cmds (rs_view contents sv)))) \<and>
     rs_view contents sv' = snd (spec_cmds (clock_ms sv) cmds (rs_view contents sv))"
proof (induction cmds arbitrary: sv)
  case Nil
  then show ?case by simp
next
  case (Cons c cmds)
  have ok: "cmd_ok (clock_ms sv) c (rs_view contents sv)"
    by (cases "c = RFlush") (use Cons.prems(2,3) act_ok_cmd [of c] flush_ok in auto)
  obtain sv1 out where r: "run_cmd (server_table ops) (rcmd_args c) sv = Some (sv1, out)" "served contents c sv (sv1, out)"
    using serve_ok [OF Cons.prems(1) ok] by fastforce
  then have sp: "spec_cmd (clock_ms sv) c (rs_view contents sv) = (out, rs_view contents sv1)"
    and inv: "rs_inv contents sv1" and clk: "clock_ms sv1 = clock_ms sv"
    by (simp_all add: served_def)
  have "bounded (clock_ms sv1, rs_view contents sv1)"
    using spec_cmd_bounded_any [OF _ Cons.prems(2) sp] Cons.prems(3) clk by simp
  from Cons.IH [OF inv this] Cons.prems(3) obtain sv2 where
    "run_cmds (server_table ops) sv1 (map rcmd_args cmds) =
       Some (sv2, concat (fst (spec_cmds (clock_ms sv1) cmds (rs_view contents sv1))))"
    "rs_view contents sv2 = snd (spec_cmds (clock_ms sv1) cmds (rs_view contents sv1))" by auto
  then show ?case using r(1) sp clk by (auto simp: Let_def split: prod.splits)
qed

lemma run_from_init:
  assumes "dbp x = Some d" "contents d = Map.empty" "etag_ready x" "0 \<le> ms" "ms \<le> 2 ^ 60" "\<forall>a \<in> set as. act_ok a"
  shows "\<exists>outs sv'. server_run ops as (snd (xRedisServer_Init ops x us ms)) = Some (outs, sv') \<and>
    spec_acts as (ms, Map.empty, Map.empty) outs (clock_ms sv', rs_view contents sv')"
proof -
  note i = ok_state_init [OF assms(1-5), of us]
  from server_run_refines [OF i(1) assms(6)] show ?thesis unfolding i(2,3) by blast
qed

lemma run_after_setex:
  assumes "dbp x = Some d" "contents d = Map.empty" "etag_ready x" "0 \<le> ms" "ms \<le> 2 ^ 60"
    and "\<forall>a \<in> set (before @ Do (RSetEx k v n) # after @ rest). act_ok a" "0 < n" "t = clock_after ms before + n * 1000"
    and "\<forall>a \<in> set after. leaves_time k a \<and> before_time t a"
  shows "\<exists>outs sv' outs0 outs1 s1. server_run ops (before @ Do (RSetEx k v n) # after @ rest) (snd (xRedisServer_Init ops x us ms)) = Some (outs, sv') \<and>
    outs = outs0 @ outs1 \<and> spec_acts rest s1 outs1 (clock_ms sv', rs_view contents sv') \<and>
    snd (snd s1) k = Some t \<and> ((\<forall>a \<in> set after. leaves_value k a) \<longrightarrow> fst (snd s1) k = Some v) \<and>
    finite (dom (snd (snd s1))) \<and> card (dom (snd (snd s1))) \<le> length before + length after + 1"
proof -
  from run_from_init [OF assms(1-6), of us] obtain outs sv' where
    r: "server_run ops (before @ Do (RSetEx k v n) # after @ rest) (snd (xRedisServer_Init ops x us ms)) = Some (outs, sv')"
    "spec_acts (before @ Do (RSetEx k v n) # after @ rest) (ms, Map.empty, Map.empty) outs (clock_ms sv', rs_view contents sv')"
    by blast
  from spec_acts_append [OF r(2)] obtain o1 o2 s0 where
    1: "spec_acts before (ms, Map.empty, Map.empty) o1 s0" "outs = o1 @ o2"
      "spec_acts (Do (RSetEx k v n) # after @ rest) s0 o2 (clock_ms sv', rs_view contents sv')" by blast
  from 1(3) obtain out o3 sk where
    2: "spec_act (Do (RSetEx k v n)) s0 out sk" "spec_acts (after @ rest) sk o3 (clock_ms sv', rs_view contents sv')" "o2 = out # o3"
    by (auto elim: spec_consE)
  from spec_acts_append [OF 2(2)] obtain o4 o5 s1 where
    3: "spec_acts after sk o4 s1" "spec_acts rest s1 o5 (clock_ms sv', rs_view contents sv')" "o3 = o4 @ o5" by blast
  have clk: "fst s0 = clock_after ms before" using spec_acts_clock [OF 1(1)] by simp
  note se = spec_setex [OF 2(1)]
  have "snd (snd s1) k = Some t \<and> ((\<forall>a \<in> set after. leaves_value k a) \<longrightarrow> fst (snd s1) k = Some v)"
    using spec_acts_keeps [OF 3(1), of k t] se clk assms(7-9) by simp
  moreover have "finite (dom (snd (snd s1))) \<and> card (dom (snd (snd s1))) \<le> length before + length after + 1"
    using spec_acts_size [OF 1(1)] spec_act_size [OF 2(1)] spec_acts_size [OF 3(1)] by auto
  ultimately show ?thesis using r(1) 1(2) 2(3) 3(2,3)
    by (intro exI [of _ outs] exI [of _ sv'] exI [of _ "o1 @ out # o4"] exI [of _ o5] exI [of _ s1]) simp
qed

end

subsection \<open>What flushall leaves behind\<close>

lemma handlers_expiremgr:
  "ProcessCmd_flushall ops args sv = Some (sv', out) \<Longrightarrow> expiremgr sv' = expiremgr sv"
  "ProcessCmd_set ops [''set'', k, v] sv = Some (sv', out) \<Longrightarrow> expiremgr sv' = expiremgr sv"
  "ProcessCmd_ttl ops args sv = Some (sv', out) \<Longrightarrow> expiremgr sv' = expiremgr sv"
  by (auto simp: ProcessCmd_flushall_def ProcessCmd_set_def ProcessCmd_ttl_def Let_def split: bind_splits if_splits)

lemma serve_served:
  assumes "rocksdb_reliable ops contents it_all it_rest" "rs_inv contents sv" "cmd_ok (clock_ms sv) c (rs_view contents sv)"
  obtains sv' out where "serve ops (Do c) sv = Some (out, sv')" "rs_inv contents sv'" "clock_ms sv' = clock_ms sv"
    "spec_cmd (clock_ms sv) c (rs_view contents sv) = (out, rs_view contents sv')"
    "run_cmd (server_table ops) (rcmd_args c) sv = Some (sv', out)"
  using rocksdb_reliable.serve_ok [OF assms] by (auto simp: served_def)

lemma flushed_queue_runs:
  assumes "rocksdb_reliable ops contents it_all it_rest" "rs_inv contents sv" "zscore_of (rs_contents contents sv) ''expire'' = Map.empty"
    and "queued (expiremgr sv) k = Some t" "t \<le> clock_ms sv" "clock_ms sv < INT64_MAX" "1000 < turns"
  shows "\<exists>sv'. serve ops (Turns turns) sv = Some ([], sv') \<and> rs_inv contents sv' \<and> fst (rs_view contents sv') k = None"
proof -
  obtain d where d: "dbp (xdb sv) = Some d" "etag_ready (xdb sv)" "ttl_inv (contents d) (expiremgr sv)"
    "canonical (contents d)" "small (contents d)" "rs_contents contents sv = contents d"
    using assms(2) by (rule rocksdb_reliable.rs_invE [OF assms(1)])
  let ?z = "zscore_of (contents d) ''expire''" and ?e = "expiremgr sv" and ?now = "clock_ms sv"
  have z: "?z = Map.empty" using assms(3) d(6) by simp
  note ei = expire_invD [OF d(3) [unfolded ttl_inv_def, THEN conjunct2, THEN conjunct2]]
  have "due ?now ?z ?e \<subseteq> dom (queued ?e)" by (auto simp: due_def z pending_iff)
  then have "card (due ?now ?z ?e) \<le> card (dom (queued ?e))" using sq.finite_lookup [OF ei(1)] by (intro card_mono)
  then have few: "card (due ?now ?z ?e) < turns" using ei(5) assms(7) by simp
  from rocksdb_reliable.Dispatch_ok [OF assms(1) d(1,3) assms(6), of turns] few obtain e' d' where
    r: "Dispatch ops ?now turns ?e (xdb sv) = Some (e', (xdb sv)\<lparr>dbp := Some d'\<rparr>)" "ttl_inv (contents d') e'"
      "deleted (due ?now ?z ?e) (contents d) (contents d')" by blast
  have k: "k \<in> due ?now ?z ?e" using assms(4,5) by (auto simp: due_def)
  let ?sv = "sv\<lparr>xdb := (xdb sv)\<lparr>dbp := Some d'\<rparr>, expiremgr := e'\<rparr>"
  have "canonical (contents d')" "small (contents d')"
    using d(4,5) r(3) by (auto simp: canonical_def small_def deleted_def split: if_splits)
  then have "rs_inv contents ?sv" using r(2) d(2) by (auto simp: rs_inv_def etag_ready_def)
  moreover have "fst (rs_view contents ?sv) k = None"
    using r(3) k by (simp add: rs_contents_def rs_abs_def deleted_def)
  ultimately show ?thesis using r(1) by auto
qed

section \<open>Properties\<close>


text \<open>
  C10: A key does not expire early. After \<open>set k v ex n\<close>, whatever else happens that does not write
  or time \<open>k\<close>, as long as the clock shows less than the time of the command plus \<open>n\<close> seconds,
  \<open>get k\<close> answers \<open>v\<close>.
\<close>

theorem key_kept_until_due:
  assumes "rocksdb_reliable ops contents it_all it_rest"
    and "dbp x = Some d" "contents d = Map.empty" "etag_ready x" "0 \<le> ms" "ms \<le> 2 ^ 60"
    and "\<forall>a \<in> set (before @ Do (RSetEx k v n) # after @ [Do (RGet k)]). act_ok a" "0 < n" "t = clock_after ms before + n * 1000"
    and "\<forall>a \<in> set after. leaves_time k a \<and> before_time t a" "\<forall>a \<in> set after. leaves_value k a"
  shows "\<exists>outs sv'. server_run ops (before @ Do (RSetEx k v n) # after @ [Do (RGet k)]) (snd (xRedisServer_Init ops x us ms)) =
    Some (outs @ [resp_bulk v], sv')"
proof -
  from rocksdb_reliable.run_after_setex [OF assms(1-10), of us] assms(11) obtain outs sv' outs0 outs1 s1 where
    r: "server_run ops (before @ Do (RSetEx k v n) # after @ [Do (RGet k)]) (snd (xRedisServer_Init ops x us ms)) = Some (outs, sv')"
      "outs = outs0 @ outs1" "spec_acts [Do (RGet k)] s1 outs1 (clock_ms sv', rs_view contents sv')" "fst (snd s1) k = Some v"
    by blast
  then show ?thesis using spec_get [OF r(3)] by auto
qed




text \<open>
  C38: What \<open>flushall\<close> forgets. When a key is in the queue of the expiry manager, and after
  \<open>flushall\<close> it is set again without an expiry time (\<open>ttl\<close> answers that it has none), the thread
  still deletes it when its old time comes.
\<close>

theorem flushall_keeps_queue:
  assumes "rocksdb_reliable ops contents it_all it_rest" "rs_inv contents sv"
    and "queued (expiremgr sv) k = Some t" "t \<le> ms" "ms < INT64_MAX" "1000 < turns" "act_ok (Do (RSet k v))"
  shows "\<exists>sv'. server_run ops [Do RFlush, Do (RSet k v), Do (RTtl k), Tick us ms, Turns turns, Do (RGet k)] sv =
    Some ([rok, rok, rint (- 2), [], [], rnull], sv')"
proof -
  have s: "sendable [''set'', k, v]" using assms(7) by simp
  then have s': "sendable [''ttl'', k]" "sendable [''get'', k]" by (auto simp: sendable_def)
  obtain sv1 o1 where 1: "serve ops (Do RFlush) sv = Some (o1, sv1)" "rs_inv contents sv1"
    "spec_cmd (clock_ms sv) RFlush (rs_view contents sv) = (o1, rs_view contents sv1)"
    "run_cmd (server_table ops) (rcmd_args RFlush) sv = Some (sv1, o1)"
    by (rule serve_served [OF assms(1,2) flush_ok])
  have v1: "rs_view contents sv1 = (Map.empty, Map.empty)" "o1 = rok" using 1(3) by (cases "rs_view contents sv"; auto)+
  have e1: "expiremgr sv1 = expiremgr sv" using 1(4) by (auto simp: run_server_table dest: handlers_expiremgr)
  obtain sv2 o2 where 2: "serve ops (Do (RSet k v)) sv1 = Some (o2, sv2)" "rs_inv contents sv2"
    "spec_cmd (clock_ms sv1) (RSet k v) (rs_view contents sv1) = (o2, rs_view contents sv2)"
    "run_cmd (server_table ops) (rcmd_args (RSet k v)) sv1 = Some (sv2, o2)"
    by (rule serve_served [OF assms(1) 1(2), of "RSet k v"]) (use s in auto)
  have v2: "rs_view contents sv2 = ([k \<mapsto> v], Map.empty)" "o2 = rok" using 2(3) v1 by auto
  have e2: "expiremgr sv2 = expiremgr sv" using 2(4) e1 by (auto simp: run_server_table dest: handlers_expiremgr)
  obtain sv3 o3 where 3: "serve ops (Do (RTtl k)) sv2 = Some (o3, sv3)" "rs_inv contents sv3"
    "spec_cmd (clock_ms sv2) (RTtl k) (rs_view contents sv2) = (o3, rs_view contents sv3)"
    "run_cmd (server_table ops) (rcmd_args (RTtl k)) sv2 = Some (sv3, o3)"
    by (rule serve_served [OF assms(1) 2(2), of "RTtl k"]) (use s' v2 in auto)
  have v3: "rs_view contents sv3 = ([k \<mapsto> v], Map.empty)" "o3 = rint (- 2)" using 3(3) v2 by auto
  have e3: "expiremgr sv3 = expiremgr sv" using 3(4) e2 by (auto simp: run_server_table dest: handlers_expiremgr)
  let ?sv4 = "sv3\<lparr>clock_stamp := us, clock_ms := ms\<rparr>"
  have 4: "rs_inv contents ?sv4" "zscore_of (rs_contents contents ?sv4) ''expire'' = Map.empty" "expiremgr ?sv4 = expiremgr sv"
    using 3(2) v3 e3 by (auto simp: rs_inv_def rs_contents_def rs_abs_def)
  obtain sv5 where 5: "serve ops (Turns turns) ?sv4 = Some ([], sv5)" "rs_inv contents sv5" "fst (rs_view contents sv5) k = None"
    using flushed_queue_runs [OF assms(1) 4(1,2), of k t turns] assms(3-6) 4(3) by auto
  obtain sv6 o6 where 6: "serve ops (Do (RGet k)) sv5 = Some (o6, sv6)"
    "spec_cmd (clock_ms sv5) (RGet k) (rs_view contents sv5) = (o6, rs_view contents sv6)"
    by (rule serve_served [OF assms(1) 5(2), of "RGet k"]) (use s' in auto)
  obtain p z where pz: "rs_view contents sv5 = (p, z)" by fastforce
  have "p k = None" using 5(3) by (simp add: pz)
  with 6(2) have "o6 = rnull" unfolding pz by simp
  then show ?thesis using 1(1) 2(1) 3(1) 5(1) 6(1) v1 v2 v3 by (simp del: serve.simps(2,3))
qed

lemma mem_db_ready: "dbp mem_db = Some []" "map_of [] = Map.empty" "etag_ready mem_db"
  by (simp_all add: mem_db_def etag_ready_def)

lemma ex_ok: "act_ok (Do (RSetEx ''a'' ''1'' 5))" "act_ok (Do (RGet ''a''))" "act_ok (Do (RSet ''a'' ''2''))"
  by (simp_all add: sendable_def INT_MAX_def dec_int_def dec_nat.simps)


theorem key_kept_until_due_witness:
  "\<exists>outs sv'. server_run mem_ops ([] @ Do (RSetEx ''a'' ''1'' 5) # [Tick 7 5999, Turns 3] @ [Do (RGet ''a'')])
      (snd (xRedisServer_Init mem_ops mem_db 0 1000)) = Some (outs @ [resp_bulk ''1''], sv')"
  by (rule key_kept_until_due [OF mem.rocksdb_reliable_axioms mem_db_ready, where t = 6000]) (use ex_ok in auto)



definition queued_state :: "(string \<times> string) list xRedisServer" where
  "queued_state = \<lparr>xdb = mem_db,
     expiremgr = (snd (ExpireManager_Init True ExpireManager_new))\<lparr>sort_set := snd (SortedSet_add ''a'' 5 SortedSet_new)\<rparr>,
     clock_stamp = 0, clock_ms = 1\<rparr>"

lemma queued_state_ok: "rs_inv map_of queued_state" "queued (expiremgr queued_state) ''a'' = Some 5"
proof -
  let ?q = "snd (SortedSet_add ''a'' 5 SortedSet_new)"
  have new: "score_of SortedSet_new = Map.empty" by (simp add: fun_eq_iff score_of_def SortedSet_new_def)
  have q: "SortedSet_inv ?q" "score_of ?q = [''a'' \<mapsto> 5]"
    using sq.inv_add [OF SortedSet_inv_new] sq.lookup_add [OF SortedSet_inv_new] new by simp_all
  then show "queued (expiremgr queued_state) ''a'' = Some 5" by (simp add: queued_state_def)
  have "zscore_of Map.empty ''expire'' = Map.empty" by (simp add: fun_eq_iff zscore_of_def)
  then have "ttl_inv Map.empty (expiremgr queued_state)"
    unfolding ttl_inv_def queued_state_def ExpireManager_Init_def ExpireManager_new_def
    using q by (auto simp: db_inv_empty pending_def intro!: expire_invI split: if_splits)
  then show "rs_inv map_of queued_state"
    using mem_db_ready by (auto simp: rs_inv_def queued_state_def canonical_upd small_upd)
qed

theorem flushall_keeps_queue_witness:
  "\<exists>sv'. server_run mem_ops [Do RFlush, Do (RSet ''a'' ''2''), Do (RTtl ''a''), Tick 0 5, Turns 1001, Do (RGet ''a'')] queued_state =
    Some ([rok, rok, rint (- 2), [], [], rnull], sv')"
  by (rule flushall_keeps_queue [OF mem.rocksdb_reliable_axioms queued_state_ok]) (use ex_ok in \<open>simp_all add: INT64_MAX_def\<close>)

end
