(* ===== verification/Xhc_Main.thy ===== *)
theory Xhc_Main
  imports Xhc_Backend Xhc_RedisServer
begin


text \<open>
  \<open>src/xHttpCache.cpp\<close>: the start of the process. \<open>xhttpcache\<close> reads the settings, opens the
  database, and sets up and starts the three servers over it; then it sleeps until it is killed.

  The state after the start is a record of what the local variables and the objects hold. The two
  databases that are opened, the file read and the calls the libraries may refuse are arguments. The log,
  the signal handlers, \<open>daemonize\<close> and \<open>guard\<close> are left out, and so are the return values that
  \<open>xhttpcache\<close> does not look at. The servers hold pointers to one database, so \<open>main_db\<close> and the
  database of the Redis server are one object.
\<close>

section \<open>Definitions\<close>

record 'db process =
  settings :: xConfig
  main_db :: "'db xDataBase"
  sys_db :: "'db xDataBase"
  front_http :: xevHtpdBase
  front_cbs :: "(string \<times> frontend_callback) list"
  back_http :: xevHtpdBase
  back_cbs :: "(string \<times> backend_callback) list"
  back_gencb :: "backend_callback option"
  redis_cmds :: "'db xRedisServer cmd_table"
  redis_server :: "'db xRedisServer"

text \<open>
  A negative count is converted to one that no allocation can satisfy, and the exception is not caught.
\<close>

definition new_etag :: "HTTP_FRONTEND_CONFIG \<Rightarrow> xEtagManager option" where
  "new_etag f =
     (if etag_cache_count f < 0 then None
      else Some (xEtagManager_Init (nat (etag_cache_count f)) (nat (etag_cache_size f mod 2 ^ 64)) xEtagManager_new))"

definition open_main_db ::
  "(Options \<Rightarrow> string \<Rightarrow> Status \<times> 'db option) \<Rightarrow> Options \<Rightarrow> xConfig \<Rightarrow> 'db xDataBase option" where
  "open_main_db rocks_Open o0 c = do {
     x \<leftarrow> (if fe_etag (frontend c) = 1
          then map_option (\<lambda>m. xDataBase_SetEtag (Some m) False (xDataBase_new o0)) (new_etag (frontend c))
          else Some (xDataBase_new o0));
     Some (snd (xDataBase_OpenDB rocks_Open (xConfig.db c) x))
   }"

definition xhttpcache ::
  "('db, 'it) rocksdb_ops \<Rightarrow> (Options \<Rightarrow> string \<Rightarrow> Status \<times> 'db option) \<Rightarrow> (string \<Rightarrow> bool) \<Rightarrow> (string \<Rightarrow> bool) \<Rightarrow>
   Options \<Rightarrow> u32 \<Rightarrow> u64 \<Rightarrow> int64 \<Rightarrow> string option \<Rightarrow> string \<Rightarrow> xConfig \<Rightarrow> 'db process option" where
  "xhttpcache ops rocks_Open set_front_cb set_back_cb o0 ttl0 us ms cnf config_file c = do {
     (_, c) \<leftarrow> xConfig_Load cnf config_file c;
     x \<leftarrow> open_main_db rocks_Open o0 c;
     let (_, fh) = InitSSL (fe_pemfile (frontend c)) (fe_privfile (frontend c)) (fe_ssl_timeout (frontend c)) xevHtpdBase_new;
     let (_, fcbs, fh) = Frontend_Start set_front_cb (frontend c) (fe_ip (frontend c)) (fe_port (frontend c)) (fe_threads (frontend c)) fh;
     let (_, y) = InitSysDB rocks_Open o0 ttl0 x;
     let (_, fh) = InitSSL (be_pemfile (backend c)) (be_privfile (backend c)) (be_ssl_timeout (backend c)) fh;
     let (_, bcbs, gencb, bh) = Backend_Start set_back_cb (backend c) (be_ip (backend c)) (be_port (backend c)) (be_threads (backend c)) xevHtpdBase_new;
     let (cmds, r) = xRedisServer_Init ops x us ms;
     Some \<lparr>settings = c, main_db = x, sys_db = y, front_http = fh, front_cbs = fcbs, back_http = bh, back_cbs = bcbs,
       back_gencb = gencb, redis_cmds = cmds, redis_server = r\<rparr>
   }"

text \<open>\<open>main\<close> without \<open>daemonize\<close> and \<open>guard\<close>: the settings are loaded twice.\<close>

definition CONFIGFILE :: string where "CONFIGFILE = ''xhttpcache.cnf''"

definition config_file_arg :: "string list \<Rightarrow> string" where
  "config_file_arg args = (if 2 \<le> length args then args ! 1 else CONFIGFILE)"

definition main ::
  "('db, 'it) rocksdb_ops \<Rightarrow> (Options \<Rightarrow> string \<Rightarrow> Status \<times> 'db option) \<Rightarrow> (string \<Rightarrow> bool) \<Rightarrow> (string \<Rightarrow> bool) \<Rightarrow>
   Options \<Rightarrow> u32 \<Rightarrow> u64 \<Rightarrow> int64 \<Rightarrow> (string \<Rightarrow> string option) \<Rightarrow> string list \<Rightarrow> xConfig \<Rightarrow> 'db process option" where
  "main ops rocks_Open set_front_cb set_back_cb o0 ttl0 us ms cnf args c = do {
     let config_file = config_file_arg args;
     (_, c) \<leftarrow> xConfig_Load (cnf config_file) config_file c;
     xhttpcache ops rocks_Open set_front_cb set_back_cb o0 ttl0 us ms (cnf config_file) config_file c
   }"

section \<open>Lemmas\<close>

text \<open>The settings under which the tag cache can be used.\<close>

definition etag_settings_ok :: "HTTP_FRONTEND_CONFIG \<Rightarrow> bool" where
  "etag_settings_ok f \<longleftrightarrow>
     (fe_etag f = 1 \<longrightarrow> 0 < etag_cache_count f \<and> etag_cache_count f \<le> INT_MAX \<and> 0 < etag_cache_size f \<and> etag_cache_size f \<le> INT_MAX)"

lemma new_etag_ok:
  assumes "etag_settings_ok f" "fe_etag f = 1"
  shows "\<exists>m. new_etag f = Some m \<and> no_tags (xDataBase_SetEtag (Some m) b x)"
proof -
  let ?cnt = "nat (etag_cache_count f)" and ?sz = "nat (etag_cache_size f mod 2 ^ 64)"
  let ?m = "xEtagManager_Init ?cnt ?sz xEtagManager_new"
  have b: "0 < etag_cache_count f" "etag_cache_count f \<le> INT_MAX" "0 < etag_cache_size f" "etag_cache_size f \<le> INT_MAX"
    using assms by (simp_all add: etag_settings_ok_def)
  have "etag_cache_size f mod 2 ^ 64 = etag_cache_size f" using b(3,4) by (intro mod_pos_pos_trivial) (simp_all add: INT_MAX_def)
  then have sz: "0 < ?sz" using b(3) by simp
  have "0 < ?cnt" "?cnt \<le> 2 ^ 31" using b(1,2) by (simp_all add: INT_MAX_def)
  then have "no_tags (xDataBase_SetEtag (Some ?m) b x)"
    unfolding no_tags_def xDataBase_SetEtag_def using xEtagManager_inv_Init(1) [OF sz, of ?cnt xEtagManager_new]
      xEtagManager_inv_Init(2) [OF sz, where cnt = ?cnt and m = xEtagManager_new]
    by (intro exI [of _ ?m] exI [of _ ?cnt] exI [of _ ?sz]) simp
  then show ?thesis using b(1) by (simp add: new_etag_def)
qed

lemma open_main_db_ok:
  assumes "etag_settings_ok (frontend c)" "\<And>opts dir. rocks_Open opts dir = (S_OK, Some (vol dir))"
  shows "\<exists>x. open_main_db rocks_Open o0 c = Some x \<and> dbp x = Some (vol (db_base_dir (xConfig.db c))) \<and> front_ready (frontend c) x"
proof -
  have op: "\<exists>opts. snd (xDataBase_OpenDB rocks_Open dc x) = x\<lparr>options := opts, dbp := Some (vol (db_base_dir dc))\<rparr>"
    for dc and x :: "'a xDataBase"
    using assms(2) by (auto simp: xDataBase_OpenDB_def Let_def)
  show ?thesis
  proof (cases "fe_etag (frontend c) = 1")
    case True
    obtain m where m: "new_etag (frontend c) = Some m" "no_tags (xDataBase_SetEtag (Some m) False (xDataBase_new o0 :: 'a xDataBase))"
      using new_etag_ok [OF assms(1) True] by blast
    have keep: "no_tags \<lparr>dbp = e, options = opts, xEtag = Some m, bEtag = False\<rparr>" for e :: "'a option" and opts
      using m(2) unfolding no_tags_def by (simp add: xDataBase_SetEtag_def)
    show ?thesis using op [of "xConfig.db c" "xDataBase_SetEtag (Some m) False (xDataBase_new o0)"] True m(1)
      by (auto simp: open_main_db_def front_ready_def keep xDataBase_SetEtag_def xDataBase_new_def)
  next
    case False
    then show ?thesis using op [of "xConfig.db c" "xDataBase_new o0"]
      by (auto simp: open_main_db_def front_ready_def xDataBase_new_def)
  qed
qed

lemma InitSSL_fields: "bound (snd (InitSSL pem priv t h)) = bound h" "http_server_name (snd (InitSSL pem priv t h)) = http_server_name h"
  by (simp_all add: InitSSL_def Let_def)

text \<open>What a started process consists of.\<close>

lemma xhttpcache_ok:
  assumes "xConfig_Load cnf config_file c0 = Some (ok, c)" "etag_settings_ok (frontend c)"
    "\<And>opts dir. rocks_Open opts dir = (S_OK, Some (vol dir))"
  shows "\<exists>p. xhttpcache ops rocks_Open set_front_cb set_back_cb o0 ttl0 us ms cnf config_file c0 = Some p \<and> settings p = c \<and>
    dbp (main_db p) = Some (vol (db_base_dir (xConfig.db c))) \<and> front_ready (frontend c) (main_db p) \<and>
    dbp (sys_db p) = Some (vol ''./xdb'') \<and> \<not> bEtag (sys_db p) \<and>
    xRedisServer_Init ops (main_db p) us ms = (redis_cmds p, redis_server p) \<and>
    bound (front_http p) = [(fe_ip (frontend c), fe_port (frontend c), 1024)] \<and>
    bound (back_http p) = [(be_ip (backend c), be_port (backend c), 1024)] \<and>
    \<not> usessl (back_http p) \<and> ssl_inits (back_http p) = [] \<and>
    ((\<forall>q. set_back_cb q) \<longrightarrow> back_cbs p = backend_paths \<and> back_gencb p = Some REST_cb) \<and>
    ((\<forall>q. set_front_cb q) \<longrightarrow> last (front_cbs p) = (''/*'', GetCallback_cb))"
proof -
  obtain x where x: "open_main_db rocks_Open o0 c = Some x" "dbp x = Some (vol (db_base_dir (xConfig.db c)))" "front_ready (frontend c) x"
    using open_main_db_ok [of c rocks_Open vol o0, OF assms(2,3)] by blast
  define y where "y = snd (InitSysDB rocks_Open o0 ttl0 x)"
  have y: "dbp y = Some (vol ''./xdb'')" "\<not> bEtag y"
    by (simp_all add: y_def InitSysDB_def xDataBase_OpenDB_def assms(3) sysdb_config_def xDataBase_SetEtag_def)
  have back_ok: "Backend_SetRouteTable set_back_cb f = (True, be_timeout f, backend_paths, Some REST_cb)" if "\<forall>q. set_back_cb q" for f
    using that by (simp add: Backend_SetRouteTable_def)
  have front_ok: "last (snd (snd (Frontend_SetRouteTable set_front_cb f))) = (''/*'', GetCallback_cb)" if "\<forall>q. set_front_cb q" for f
    using that by (simp add: Frontend_SetRouteTable_def Let_def)
  show ?thesis
    unfolding xhttpcache_def assms(1) Let_def split_beta Frontend_Start_def Backend_Start_def bind.bind_lunit fst_conv snd_conv
    unfolding x(1) bind.bind_lunit y_def [symmetric]
    using x(2,3) y back_ok front_ok
    by (simp add: BindSocket_def InitSSL_fields) (simp add: xevHtpdBase_new_def)
qed

text \<open>One command of the Redis server and one deletion by the back end, on a shared database.\<close>

context rocksdb_reliable
begin

lemma redis_set:
  assumes "dbp (xdb sv) = Some d" "\<not> bEtag (xdb sv)"
  shows "\<exists>d'. run_cmd (server_table ops) [''set'', key, val] sv = Some (sv\<lparr>xdb := (xdb sv)\<lparr>dbp := Some d'\<rparr>\<rparr>, rok) \<and>
    contents d' = (contents d)(key_kv key \<mapsto> stamped (clock_stamp sv) val)"
proof -
  obtain d' where "xDataBase_Set ops (clock_stamp sv) key val (xdb sv) = Some (db_ok, (xdb sv)\<lparr>dbp := Some d'\<rparr>)"
      "contents d' = (contents d)(key_kv key \<mapsto> stamped (clock_stamp sv) val)"
    using Set_off [OF assms] by blast
  then show ?thesis by (intro exI [of _ d']) (simp add: run_server_table ProcessCmd_set_def rok_eq)
qed

lemma redis_get_null:
  assumes "dbp (xdb sv) = Some d" "contents d (key_kv key) = None"
  shows "run_cmd (server_table ops) [''get'', key] sv = Some (sv, rnull)"
  using Get_null [OF assms] by (simp add: run_server_table ProcessCmd_get_def rnull_eq)

lemma REST_delete:
  assumes "dbp x = Some d" "CheckAuth cfg req" "path_key req = Some uri" "uri \<noteq> []" "\<not> wants_sysdb req"
    "req_method req = htp_method_DELETE" "fresh_request req"
  shows "\<exists>req' d' hdrs. RESTCallback ops fo fs cfg ts0 now req (x, y) = Some (req', x\<lparr>dbp := Some d'\<rparr>, y) \<and>
    replies req' = [(EVHTP_RES_ACCEPTED, hdrs, ''OK'')] \<and> contents d' = (contents d)(key_kv uri := None)"
proof -
  obtain d' where d': "xDataBase_Del ops uri x = Some (db_ok, x\<lparr>dbp := Some d'\<rparr>)" "contents d' = (contents d)(key_kv uri := None)"
    using Del_eq [OF assms(1)] by blast
  let ?req = "AddHeader ''Content-Type'' (GuessContentType uri) req"
  have "RESTfulPro ops fo fs cfg ts0 now ?req x = Some (SendStatusResphone EVHTP_RES_ACCEPTED ''OK'' ?req, x\<lparr>dbp := Some d'\<rparr>)"
    using assms(3,6) d'(1) by (auto simp: RESTfulPro_def)
  then show ?thesis using assms(2-5,7) d'(2)
    by (intro exI [of _ "SendStatusResphone EVHTP_RES_ACCEPTED ''OK'' ?req"] exI [of _ d'])
      (simp add: RESTCallback_def CheckSession_accepted SendStatusResphone_def evhtp_send_reply_def evbuffer_add_def snprintf_def
        c_str_def fresh_request_def)
qed

end

end
