(* ===== verification/Xhc_Sds.thy ===== *)
theory Xhc_Sds
  imports Xhc_Util
begin



text \<open>
  \<open>common/sds.cpp\<close> and \<open>common/sds.h\<close>: the dynamic strings in which the Redis library keeps the
  arguments of a command. A string is its header and the bytes of its block behind the header; a
  pointer to other bytes is the list of the bytes that may be read there, a C string among them with
  its NUL.

  What \<open>malloc\<close> does with a size is an argument \<open>m\<close>: \<^const>\<open>None\<close> for a null pointer, otherwise the bytes
  the block happens to hold. An operation that may return a null pointer has a result of type
  \<open>sds option ub\<close>; a null pointer that is used, an access outside a block, a signed overflow and a failed
  \<open>assert\<close> are \<^const>\<open>None\<close> of the outer option. A \<open>size_t\<close> is a number below \<open>2 ^ 64\<close>, an \<open>int\<close> that is
  assigned from it is wrapped. Release of memory is not modelled, and neither are arguments that point
  into the string that is changed.

  The lemmas show that every operation keeps the header and the block consistent and does to the bytes
  what its comment says, that \<open>sdsjoinsds\<close> undoes \<open>sdssplitlen\<close>, and that \<open>sdssplitargs\<close> reads back what
  \<open>sdscatrepr\<close> writes.
\<close>

section \<open>Definitions\<close>

subsection \<open>Memory\<close>

type_synonym malloc = "nat \<Rightarrow> (nat \<Rightarrow> char) option"

definition SDS_MAX_PREALLOC :: nat where "SDS_MAX_PREALLOC = 1024 * 1024"

record sds =
  sds_len :: int
  sds_free :: int
  sds_buf :: string

text \<open>The conversions between \<open>size_t\<close> and \<open>int\<close>, and a signed \<open>int\<close> result.\<close>

definition size_t :: "int \<Rightarrow> nat" where
  "size_t x = nat (x mod 2 ^ 64)"

definition int_of_size :: "nat \<Rightarrow> int" where
  "int_of_size n = wrap32 (int n)"

definition int_arith :: "int \<Rightarrow> int ub" where
  "int_arith x = (if INT_MIN \<le> x \<and> x \<le> INT_MAX then Some x else None)"

text \<open>A write of some bytes to a block, and a read of \<open>n\<close> bytes from a pointer.\<close>

definition poke :: "nat \<Rightarrow> string \<Rightarrow> string \<Rightarrow> string ub" where
  "poke i bs buf = (if i + length bs \<le> length buf then Some (take i buf @ bs @ drop (i + length bs) buf) else None)"

definition peek :: "nat \<Rightarrow> string \<Rightarrow> string ub" where
  "peek n bs = (if n \<le> length bs then Some (take n bs) else None)"

definition strlen :: "string \<Rightarrow> nat ub" where
  "strlen s = (if NUL \<in> set s then Some (length (c_str s)) else None)"

text \<open>
  A block of \<open>sizeof(struct sdshdr) + n + 1\<close> bytes behind its header, new or in place of the block
  \<open>old\<close>. The size is a \<open>size_t\<close>; a block that does not hold the header is of no use.
\<close>

definition sds_block :: "malloc \<Rightarrow> nat \<Rightarrow> string option ub" where
  "sds_block m n =
     (let sz = (8 + n + 1) mod 2 ^ 64
      in case m sz of
           None \<Rightarrow> Some None
         | Some f \<Rightarrow> if sz < 8 then None else Some (Some (map f [8..<sz])))"

definition sds_realloc :: "malloc \<Rightarrow> nat \<Rightarrow> string \<Rightarrow> string option ub" where
  "sds_realloc m n old =
     (let sz = (8 + n + 1) mod 2 ^ 64
      in case m sz of
           None \<Rightarrow> Some None
         | Some f \<Rightarrow> if sz < 8 then None
             else Some (Some (take (sz - 8) old @ map f [8 + min (sz - 8) (length old)..<sz])))"

subsection \<open>Creation and size\<close>

definition sdslen :: "sds \<Rightarrow> nat" where "sdslen s = size_t (sds_len s)"

definition sdsavail :: "sds \<Rightarrow> nat" where "sdsavail s = size_t (sds_free s)"

definition sdsnewlen :: "malloc \<Rightarrow> string option \<Rightarrow> nat \<Rightarrow> sds option ub" where
  "sdsnewlen m init initlen = do {
     sh \<leftarrow> sds_block m initlen;
     case sh of
       None \<Rightarrow> Some None
     | Some buf \<Rightarrow> do {
         buf \<leftarrow> (case init of
            None \<Rightarrow> Some (replicate (length buf) NUL)
          | Some p \<Rightarrow> if initlen = 0 then Some buf else do { bs \<leftarrow> peek initlen p; poke 0 bs buf });
         buf \<leftarrow> poke initlen [NUL] buf;
         Some (Some \<lparr>sds_len = int_of_size initlen, sds_free = 0, sds_buf = buf\<rparr>)
       }
   }"

definition sdsempty :: "malloc \<Rightarrow> sds option ub" where
  "sdsempty m = sdsnewlen m (Some [NUL]) 0"

definition sdsnew :: "malloc \<Rightarrow> string option \<Rightarrow> sds option ub" where
  "sdsnew m init = do {
     initlen \<leftarrow> (case init of None \<Rightarrow> Some 0 | Some p \<Rightarrow> strlen p);
     sdsnewlen m init initlen
   }"

definition sdsdup :: "malloc \<Rightarrow> sds \<Rightarrow> sds option ub" where
  "sdsdup m s = sdsnewlen m (Some (sds_buf s)) (sdslen s)"

definition sdsupdatelen :: "sds \<Rightarrow> sds ub" where
  "sdsupdatelen s = do {
     n \<leftarrow> strlen (sds_buf s);
     let reallen = int_of_size n;
     d \<leftarrow> int_arith (sds_len s - reallen);
     fr \<leftarrow> int_arith (sds_free s + d);
     Some (s\<lparr>sds_free := fr, sds_len := reallen\<rparr>)
   }"

definition sdsclear :: "sds \<Rightarrow> sds ub" where
  "sdsclear s = do {
     fr \<leftarrow> int_arith (sds_free s + sds_len s);
     buf \<leftarrow> poke 0 [NUL] (sds_buf s);
     Some (s\<lparr>sds_free := fr, sds_len := 0, sds_buf := buf\<rparr>)
   }"

definition sdsMakeRoomFor :: "malloc \<Rightarrow> sds \<Rightarrow> nat \<Rightarrow> sds option ub" where
  "sdsMakeRoomFor m s addlen =
     (if addlen \<le> sdsavail s then Some (Some s)
      else do {
        let len = sdslen s;
        let newlen = (len + addlen) mod 2 ^ 64;
        let newlen = (if newlen < SDS_MAX_PREALLOC then newlen * 2 else newlen + SDS_MAX_PREALLOC) mod 2 ^ 64;
        newsh \<leftarrow> sds_realloc m newlen (sds_buf s);
        case newsh of
          None \<Rightarrow> Some None
        | Some buf \<Rightarrow> Some (Some (s\<lparr>sds_free := wrap32 (int newlen - int len), sds_buf := buf\<rparr>))
      })"

text \<open>The result of \<open>realloc\<close> is used without a test.\<close>

definition sdsRemoveFreeSpace :: "malloc \<Rightarrow> sds \<Rightarrow> sds ub" where
  "sdsRemoveFreeSpace m s = do {
     sh \<leftarrow> sds_realloc m (size_t (sds_len s)) (sds_buf s);
     buf \<leftarrow> sh;
     Some (s\<lparr>sds_free := 0, sds_buf := buf\<rparr>)
   }"

definition sdsAllocSize :: "sds \<Rightarrow> nat" where
  "sdsAllocSize s = size_t (8 + sds_len s + sds_free s + 1)"

definition sdsIncrLen :: "sds \<Rightarrow> int \<Rightarrow> sds ub" where
  "sdsIncrLen s incr =
     (if sds_free s < incr then None
      else do {
        n \<leftarrow> int_arith (sds_len s + incr);
        fr \<leftarrow> int_arith (sds_free s - incr);
        if fr < 0 \<or> n < 0 then None
        else do {
          buf \<leftarrow> poke (nat n) [NUL] (sds_buf s);
          Some (s\<lparr>sds_len := n, sds_free := fr, sds_buf := buf\<rparr>)
        }
      })"

definition sdsgrowzero :: "malloc \<Rightarrow> sds \<Rightarrow> nat \<Rightarrow> sds option ub" where
  "sdsgrowzero m s len =
     (let curlen = size_t (sds_len s)
      in if len \<le> curlen then Some (Some s)
         else do {
           r \<leftarrow> sdsMakeRoomFor m s (len - curlen);
           case r of
             None \<Rightarrow> Some None
           | Some s \<Rightarrow> do {
               buf \<leftarrow> poke curlen (replicate (len - curlen + 1) NUL) (sds_buf s);
               tot \<leftarrow> int_arith (sds_len s + sds_free s);
               let n = int_of_size len;
               Some (Some (s\<lparr>sds_len := n, sds_free := wrap32 (tot - n), sds_buf := buf\<rparr>))
             }
         })"

definition sdscatlen :: "malloc \<Rightarrow> sds \<Rightarrow> string \<Rightarrow> nat \<Rightarrow> sds option ub" where
  "sdscatlen m s t len =
     (let curlen = sdslen s
      in do {
        r \<leftarrow> sdsMakeRoomFor m s len;
        case r of
          None \<Rightarrow> Some None
        | Some s \<Rightarrow> do {
            bs \<leftarrow> peek len t;
            buf \<leftarrow> poke curlen bs (sds_buf s);
            buf \<leftarrow> poke (curlen + len) [NUL] buf;
            Some (Some (s\<lparr>sds_len := int_of_size (curlen + len), sds_free := wrap32 (sds_free s - int len), sds_buf := buf\<rparr>))
          }
      })"

definition sdscat :: "malloc \<Rightarrow> sds \<Rightarrow> string \<Rightarrow> sds option ub" where
  "sdscat m s t = do { n \<leftarrow> strlen t; sdscatlen m s t n }"

definition sdscatsds :: "malloc \<Rightarrow> sds \<Rightarrow> sds \<Rightarrow> sds option ub" where
  "sdscatsds m s t = sdscatlen m s (sds_buf t) (sdslen t)"

definition sdscpylen :: "malloc \<Rightarrow> sds \<Rightarrow> string \<Rightarrow> nat \<Rightarrow> sds option ub" where
  "sdscpylen m s t len = do {
     tot \<leftarrow> int_arith (sds_free s + sds_len s);
     r \<leftarrow> (if size_t tot < len then sdsMakeRoomFor m s (size_t (int len - sds_len s)) else Some (Some s));
     case r of
       None \<Rightarrow> Some None
     | Some s \<Rightarrow> do {
         tot \<leftarrow> int_arith (sds_free s + sds_len s);
         bs \<leftarrow> peek len t;
         buf \<leftarrow> poke 0 bs (sds_buf s);
         buf \<leftarrow> poke len [NUL] buf;
         Some (Some (s\<lparr>sds_len := int_of_size len, sds_free := wrap32 (tot - int len), sds_buf := buf\<rparr>))
       }
   }"

definition sdscpy :: "malloc \<Rightarrow> sds \<Rightarrow> string \<Rightarrow> sds option ub" where
  "sdscpy m s t = do { n \<leftarrow> strlen t; sdscpylen m s t n }"

text \<open>
  \<open>sdscatvprintf\<close>, with the text the format and its arguments stand for. The buffer is doubled until
  the text leaves its last but one byte alone.
\<close>

lemma vprintf_more:
  assumes "2 \<le> n" "length buf = n"
    "((take (n - 1) txt @ [NUL]) @ drop (length (take (n - 1) txt @ [NUL])) (buf[n - 2 := NUL])) ! (n - 2) \<noteq> NUL"
  shows "n < length txt + 2"
proof (rule ccontr)
  assume "\<not> n < length txt + 2"
  then obtain k where n: "n = length txt + 2 + k" by (metis le_Suc_ex not_less)
  show False using assms(2,3) by (cases k) (simp_all add: n nth_append)
qed

function vprintf_buf :: "malloc \<Rightarrow> string \<Rightarrow> nat \<Rightarrow> string option ub" where
  "vprintf_buf m txt buflen =
     (if buflen < 2 then None
      else case m buflen of
        None \<Rightarrow> Some None
      | Some f \<Rightarrow>
          let buf = (map f [0..<buflen])[buflen - 2 := NUL];
              out = take (buflen - 1) txt @ [NUL];
              buf = out @ drop (length out) buf
          in if buf ! (buflen - 2) \<noteq> NUL then vprintf_buf m txt (buflen * 2) else Some (Some buf))"
  by pat_completeness auto
termination
proof (relation "measure (\<lambda>(m, txt, n). length txt + 2 - n)", goal_cases)
  case (2 m w n f)
  then have "n < length w + 2" by (intro vprintf_more [of n "map f [0..<n]"]) simp_all
  with 2(1) show ?case by simp
qed simp

declare vprintf_buf.simps [simp del]

definition sdscatprintf :: "malloc \<Rightarrow> sds \<Rightarrow> string \<Rightarrow> sds option ub" where
  "sdscatprintf m s txt = do {
     r \<leftarrow> vprintf_buf m txt 16;
     case r of None \<Rightarrow> Some None | Some buf \<Rightarrow> sdscat m s buf
   }"

subsection \<open>Changes in place\<close>

text \<open>\<open>strchr\<close> also finds the NUL that ends \<open>cset\<close>. The second loop stops at the first byte whatever it is.\<close>

definition in_cset :: "string \<Rightarrow> char \<Rightarrow> bool" where
  "in_cset cset c \<longleftrightarrow> c \<in> set (c_str cset) \<or> c = NUL"

fun trim_ep :: "(char \<Rightarrow> bool) \<Rightarrow> string \<Rightarrow> nat \<Rightarrow> nat" where
  "trim_ep P buf ep = (if 0 < ep \<and> P (buf ! ep) then trim_ep P buf (ep - 1) else ep)"

declare trim_ep.simps [simp del]

definition sdstrim :: "sds \<Rightarrow> string \<Rightarrow> sds ub" where
  "sdstrim s cset = do {
     bs \<leftarrow> peek (sdslen s) (sds_buf s);
     let sp = length (takeWhile (in_cset cset) bs);
     let ep = (if bs = [] then - 1 else int (trim_ep (in_cset cset) bs (length bs - 1)));
     let len = (if int sp > ep then 0 else nat (ep - int sp + 1));
     buf \<leftarrow> poke 0 (take len (drop sp (sds_buf s))) (sds_buf s);
     buf \<leftarrow> poke len [NUL] buf;
     Some (s\<lparr>sds_free := wrap32 (sds_free s + (sds_len s - int len)), sds_len := int_of_size len, sds_buf := buf\<rparr>)
   }"

text \<open>The start and the length of the range, after the negative indices are counted from the end.\<close>

definition range_from_end :: "nat \<Rightarrow> int \<Rightarrow> int" where
  "range_from_end len i = (if i < 0 then max 0 (wrap32 (int len + i)) else i)"

definition range_len :: "int \<Rightarrow> int \<Rightarrow> int ub" where
  "range_len start stop = (if stop < start then Some 0 else do { d \<leftarrow> int_arith (stop - start); int_arith (d + 1) })"

definition sdsrange :: "sds \<Rightarrow> int \<Rightarrow> int \<Rightarrow> sds ub" where
  "sdsrange s start stop =
     (let len = sdslen s
      in if len = 0 then Some s
         else do {
           let start = range_from_end len start;
           let stop = range_from_end len stop;
           n \<leftarrow> range_len start stop;
           (start, newlen) \<leftarrow>
             (if n \<noteq> 0 then
                if wrap32 (int len) \<le> start then Some (start, 0)
                else if wrap32 (int len) \<le> stop then do { n \<leftarrow> range_len start (wrap32 (int len - 1)); Some (start, n) }
                else Some (start, n)
              else Some (0, 0));
           buf \<leftarrow> (if start \<noteq> 0 \<and> newlen \<noteq> 0
             then do { bs \<leftarrow> peek (size_t newlen) (drop (nat start) (sds_buf s)); poke 0 bs (sds_buf s) }
             else Some (sds_buf s));
           buf \<leftarrow> poke (size_t newlen) [NUL] buf;
           Some (s\<lparr>sds_free := wrap32 (sds_free s + (sds_len s - newlen)), sds_len := newlen, sds_buf := buf\<rparr>)
         })"

definition map_sds :: "(char \<Rightarrow> char) \<Rightarrow> sds \<Rightarrow> sds ub" where
  "map_sds f s = do {
     bs \<leftarrow> peek (nat (int_of_size (sdslen s))) (sds_buf s);
     buf \<leftarrow> poke 0 (map f bs) (sds_buf s);
     Some (s\<lparr>sds_buf := buf\<rparr>)
   }"

definition sdstolower :: "sds \<Rightarrow> sds ub" where "sdstolower s = map_sds tolower s"

definition sdstoupper :: "sds \<Rightarrow> sds ub" where "sdstoupper s = map_sds toupper s"

primrec mapchar :: "char \<Rightarrow> nat \<Rightarrow> string \<Rightarrow> string \<Rightarrow> char ub" where
  "mapchar c 0 from to = Some c"
| "mapchar c (Suc n) from to =
     (case from of
        [] \<Rightarrow> None
      | f # from \<Rightarrow>
          if c = f then case to of [] \<Rightarrow> None | t # _ \<Rightarrow> Some t
          else mapchar c n from (tl to))"

definition sdsmapchars :: "sds \<Rightarrow> string \<Rightarrow> string \<Rightarrow> nat \<Rightarrow> sds ub" where
  "sdsmapchars s from to setlen = do {
     bs \<leftarrow> peek (sdslen s) (sds_buf s);
     bs \<leftarrow> those (map (\<lambda>c. mapchar c setlen from to) bs);
     buf \<leftarrow> poke 0 bs (sds_buf s);
     Some (s\<lparr>sds_buf := buf\<rparr>)
   }"

text \<open>Of \<open>memcmp\<close> only the sign is specified; it is the result here.\<close>

definition memcmp :: "string \<Rightarrow> string \<Rightarrow> int" where
  "memcmp a b = (if a < b then - 1 else if b < a then 1 else 0)"

definition sdscmp :: "sds \<Rightarrow> sds \<Rightarrow> int ub" where
  "sdscmp s1 s2 = do {
     let l1 = sdslen s1;
     let l2 = sdslen s2;
     let minlen = (if l1 < l2 then l1 else l2);
     a \<leftarrow> peek minlen (sds_buf s1);
     b \<leftarrow> peek minlen (sds_buf s2);
     let cmp = memcmp a b;
     Some (if cmp = 0 then wrap32 (int l1 - int l2) else cmp)
   }"

subsection \<open>Splitting and joining\<close>

text \<open>The array of tokens has room for \<open>slots\<close> pointers.\<close>

definition split_room :: "malloc \<Rightarrow> int \<Rightarrow> nat \<Rightarrow> int option ub" where
  "split_room m slots elements =
     (if slots < int elements + 2 then do {
        slots \<leftarrow> int_arith (slots * 2);
        Some (map_option (\<lambda>_. slots) (m (size_t (8 * slots))))
      } else Some (Some slots))"

definition split_match :: "string \<Rightarrow> int \<Rightarrow> string \<Rightarrow> int \<Rightarrow> bool ub" where
  "split_match s j sep seplen = do {
     a \<leftarrow> peek (nat seplen) (drop (nat j) s);
     b \<leftarrow> peek (nat seplen) sep;
     Some ((seplen = 1 \<and> hd a = hd b) \<or> a = b)
   }"

text \<open>The element is stored before it is tested; \<open>Some None\<close> is the jump to \<open>cleanup\<close>.\<close>

definition split_add :: "malloc \<Rightarrow> string \<Rightarrow> int \<Rightarrow> int \<Rightarrow> int \<Rightarrow> sds list \<Rightarrow> sds list option ub" where
  "split_add m s start stop slots tokens =
     (if int (length tokens) < slots then do {
        t \<leftarrow> sdsnewlen m (Some (drop (nat start) s)) (size_t (stop - start));
        Some (map_option (\<lambda>t. tokens @ [t]) t)
      } else None)"

text \<open>The loop; \<open>sdssplitlen\<close> has tested that the separator is not empty.\<close>

function split_loop ::
  "malloc \<Rightarrow> string \<Rightarrow> int \<Rightarrow> string \<Rightarrow> int \<Rightarrow> int \<Rightarrow> int \<Rightarrow> sds list \<Rightarrow> int \<Rightarrow> (int \<times> int \<times> sds list) option ub" where
  "split_loop m s len sep seplen slots start tokens j =
     (if seplen < 1 then None
      else if j < len - (seplen - 1) then
        case split_room m slots (length tokens) of
          None \<Rightarrow> None
        | Some None \<Rightarrow> Some None
        | Some (Some slots) \<Rightarrow>
            (case split_match s j sep seplen of
               None \<Rightarrow> None
             | Some True \<Rightarrow>
                 (case split_add m s start j slots tokens of
                    None \<Rightarrow> None
                  | Some None \<Rightarrow> Some None
                  | Some (Some tokens) \<Rightarrow>
                      split_loop m s len sep seplen slots (j + seplen) tokens (j + seplen - 1 + 1))
             | Some False \<Rightarrow> split_loop m s len sep seplen slots start tokens (j + 1))
      else Some (Some (slots, start, tokens)))"
  by pat_completeness auto
termination
  by (relation "measure (\<lambda>(m, s, len, sep, seplen, slots, start, tokens, j). nat (len - j))") auto

declare split_loop.simps [simp del]

text \<open>The tokens and \<open>*count\<close>, which some of the returns leave as it was.\<close>

definition sdssplitlen :: "malloc \<Rightarrow> string \<Rightarrow> int \<Rightarrow> string \<Rightarrow> int \<Rightarrow> int \<Rightarrow> (sds list option \<times> int) ub" where
  "sdssplitlen m s len sep seplen count =
     (if seplen < 1 \<or> len < 0 then Some (None, count)
      else case m (8 * 5) of
        None \<Rightarrow> Some (None, count)
      | Some _ \<Rightarrow>
          if len = 0 then Some (Some [], 0)
          else do {
            r \<leftarrow> split_loop m s len sep seplen 5 0 [] 0;
            case r of
              None \<Rightarrow> Some (None, 0)
            | Some (slots, start, tokens) \<Rightarrow> do {
                r \<leftarrow> split_add m s start len slots tokens;
                case r of
                  None \<Rightarrow> Some (None, 0)
                | Some tokens \<Rightarrow> Some (Some tokens, int (length tokens))
              }
          })"

text \<open>\<open>join\<close> is not tested before the next operation uses it.\<close>

primrec join_loop :: "malloc \<Rightarrow> (sds \<Rightarrow> 'a \<Rightarrow> sds option ub) \<Rightarrow> string \<Rightarrow> nat \<Rightarrow> sds option \<Rightarrow> 'a list \<Rightarrow> sds option ub" where
  "join_loop m cat sep seplen join [] = Some join"
| "join_loop m cat sep seplen join (a # as) = do {
     s \<leftarrow> join;
     join \<leftarrow> cat s a;
     join \<leftarrow> (if as \<noteq> [] then do { s \<leftarrow> join; sdscatlen m s sep seplen } else Some join);
     join_loop m cat sep seplen join as
   }"

definition array_elems :: "'a list \<Rightarrow> int \<Rightarrow> 'a list ub" where
  "array_elems av argc = (if nat argc \<le> length av then Some (take (nat argc) av) else None)"

definition sdsjoin :: "malloc \<Rightarrow> string list \<Rightarrow> int \<Rightarrow> string \<Rightarrow> nat \<Rightarrow> sds option ub" where
  "sdsjoin m av argc sep seplen = do {
     join \<leftarrow> sdsempty m;
     as \<leftarrow> array_elems av argc;
     join_loop m (sdscat m) sep seplen join as
   }"

definition sdsjoinsds :: "malloc \<Rightarrow> sds list \<Rightarrow> int \<Rightarrow> string \<Rightarrow> nat \<Rightarrow> sds option ub" where
  "sdsjoinsds m av argc sep seplen = do {
     join \<leftarrow> sdsempty m;
     as \<leftarrow> array_elems av argc;
     join_loop m (sdscatsds m) sep seplen join as
   }"

subsection \<open>Numbers\<close>

text \<open>The bytes from \<open>p\<close> to the end of \<open>buf\<close>.\<close>

fun ll_digits :: "nat \<Rightarrow> string \<Rightarrow> string" where
  "ll_digits v p = (let p = mk_byte (48 + v mod 10) # p in if v div 10 \<noteq> 0 then ll_digits (v div 10) p else p)"

declare ll_digits.simps [simp del]

definition sdsfromlonglong :: "malloc \<Rightarrow> int64 \<Rightarrow> sds option ub" where
  "sdsfromlonglong m v =
     (if v < 0 \<and> - v > INT64_MAX then None
      else let p = ll_digits (nat \<bar>v\<bar>) [];
               p = (if v < 0 then CHR ''-'' # p else p)
           in if 32 < length p then None else sdsnewlen m (Some p) (length p))"

subsection \<open>Quoted arguments\<close>

abbreviation BEL :: char where "BEL \<equiv> CHR 0x07"
abbreviation BS :: char where "BS \<equiv> CHR 0x08"
abbreviation backslash :: char where "backslash \<equiv> CHR 0x5C"
abbreviation dquote :: char where "dquote \<equiv> CHR 0x22"
abbreviation squote :: char where "squote \<equiv> CHR 0x27"

definition catrepr_char :: "malloc \<Rightarrow> sds \<Rightarrow> char \<Rightarrow> sds option ub" where
  "catrepr_char m s c =
     (if c = backslash \<or> c = dquote then sdscatprintf m s [backslash, c]
      else if c = LF then sdscatlen m s [backslash, CHR ''n'', NUL] 2
      else if c = CR then sdscatlen m s [backslash, CHR ''r'', NUL] 2
      else if c = TAB then sdscatlen m s [backslash, CHR ''t'', NUL] 2
      else if c = BEL then sdscatlen m s [backslash, CHR ''a'', NUL] 2
      else if c = BS then sdscatlen m s [backslash, CHR ''b'', NUL] 2
      else if isprint c then sdscatprintf m s [c]
      else sdscatprintf m s [backslash, CHR ''x'', hex_digits ! (byte_val c div 16), hex_digits ! (byte_val c mod 16)])"

primrec catrepr_loop :: "malloc \<Rightarrow> sds \<Rightarrow> string \<Rightarrow> sds ub" where
  "catrepr_loop m s [] = Some s"
| "catrepr_loop m s (c # p) = do {
     r \<leftarrow> catrepr_char m s c;
     s \<leftarrow> r;
     catrepr_loop m s p
   }"

definition sdscatrepr :: "malloc \<Rightarrow> sds \<Rightarrow> string \<Rightarrow> nat \<Rightarrow> sds option ub" where
  "sdscatrepr m s p len = do {
     r \<leftarrow> sdscatlen m s [dquote, NUL] 1;
     s \<leftarrow> r;
     bs \<leftarrow> peek len p;
     s \<leftarrow> catrepr_loop m s bs;
     sdscatlen m s [dquote, NUL] 1
   }"

definition is_hex_digit :: "char \<Rightarrow> bool" where
  "is_hex_digit c \<longleftrightarrow>
     (48 \<le> byte_val c \<and> byte_val c \<le> 57) \<or> (97 \<le> byte_val c \<and> byte_val c \<le> 102) \<or> (65 \<le> byte_val c \<and> byte_val c \<le> 70)"

definition hex_digit_to_int :: "char \<Rightarrow> nat" where
  "hex_digit_to_int c =
     (if 48 \<le> byte_val c \<and> byte_val c \<le> 57 then byte_val c - 48
      else if 97 \<le> byte_val c \<and> byte_val c \<le> 102 then byte_val c - 87
      else if 65 \<le> byte_val c \<and> byte_val c \<le> 70 then byte_val c - 55
      else 0)"

text \<open>A pointer into the line is the rest of the line; behind it comes the NUL.\<close>

definition char_at :: "string \<Rightarrow> nat \<Rightarrow> char" where
  "char_at p i = (if i < length p then p ! i else NUL)"

definition advance :: "string \<Rightarrow> string" where
  "advance p = (if char_at p 0 \<noteq> NUL then tl p else p)"

definition unescape :: "char \<Rightarrow> char" where
  "unescape c =
     (if c = CHR ''n'' then LF else if c = CHR ''r'' then CR else if c = CHR ''t'' then TAB
      else if c = CHR ''b'' then BS else if c = CHR ''a'' then BEL else c)"

definition cat1 :: "malloc \<Rightarrow> sds option \<Rightarrow> char \<Rightarrow> sds option ub" where
  "cat1 m current c = do { s \<leftarrow> current; sdscatlen m s [c] 1 }"

definition quote_ends :: "string \<Rightarrow> bool" where
  "quote_ends p \<longleftrightarrow> \<not> (char_at p 1 \<noteq> NUL \<and> \<not> isspace (char_at p 1))"

lemma char_at_0: "char_at p 0 \<noteq> NUL \<Longrightarrow> p \<noteq> []"
  by (auto simp: char_at_def)

lemma length_advance: "length (advance p) \<le> length p" "char_at p 0 \<noteq> NUL \<Longrightarrow> length (advance p) < length p"
  by (cases p; auto simp: advance_def char_at_def)+

text \<open>The loop over one token. The result is the token and the rest of the line, or the jump to \<open>err\<close>.\<close>

function split_token ::
  "malloc \<Rightarrow> bool \<Rightarrow> bool \<Rightarrow> sds option \<Rightarrow> string \<Rightarrow> (sds option \<times> string) option ub" where
  "split_token m inq insq current p =
     (if inq then
        if char_at p 0 = backslash \<and> char_at p 1 = CHR ''x'' \<and> is_hex_digit (char_at p 2) \<and> is_hex_digit (char_at p 3) then
          Option.bind (cat1 m current (mk_byte (hex_digit_to_int (char_at p 2) * 16 + hex_digit_to_int (char_at p 3))))
            (\<lambda>current. split_token m inq insq current (advance (drop 3 p)))
        else if char_at p 0 = backslash \<and> char_at p 1 \<noteq> NUL then
          Option.bind (cat1 m current (unescape (char_at p 1)))
            (\<lambda>current. split_token m inq insq current (advance (drop 1 p)))
        else if char_at p 0 = dquote then
          if quote_ends p then Some (Some (current, advance p)) else Some None
        else if char_at p 0 = NUL then Some None
        else Option.bind (cat1 m current (char_at p 0)) (\<lambda>current. split_token m inq insq current (advance p))
      else if insq then
        if char_at p 0 = backslash \<and> char_at p 1 = squote then
          Option.bind (cat1 m current squote) (\<lambda>current. split_token m inq insq current (advance (drop 1 p)))
        else if char_at p 0 = squote then
          if quote_ends p then Some (Some (current, advance p)) else Some None
        else if char_at p 0 = NUL then Some None
        else Option.bind (cat1 m current (char_at p 0)) (\<lambda>current. split_token m inq insq current (advance p))
      else
        if char_at p 0 \<in> {CHR '' '', LF, CR, TAB, NUL} then Some (Some (current, advance p))
        else if char_at p 0 = dquote then split_token m True insq current (advance p)
        else if char_at p 0 = squote then split_token m inq True current (advance p)
        else Option.bind (cat1 m current (char_at p 0)) (\<lambda>current. split_token m inq insq current (advance p)))"
  by pat_completeness auto
termination
proof (relation "measure (\<lambda>(m, inq, insq, current, p). length p)", goal_cases)
  case (2 m inq insq current p)
  then show ?case using length_advance(1) [of "drop 3 p"] char_at_0 [of p] by (simp, cases p) auto
next
  case (3 m inq insq current p)
  then show ?case using length_advance(1) [of "drop 1 p"] char_at_0 [of p] by (simp, cases p) auto
next
  case (5 m inq insq current p)
  then show ?case using length_advance(1) [of "drop 1 p"] char_at_0 [of p] by (simp, cases p) auto
qed (simp_all add: length_advance(2))

declare split_token.simps [simp del]

lemma length_advance_drop: "char_at p 0 \<noteq> NUL \<Longrightarrow> 0 < k \<Longrightarrow> length (advance (drop k p)) < length p"
  using length_advance(1) [of "drop k p"] char_at_0 [of p] by (cases p) (auto simp: less_Suc_eq_le)

lemma split_token_shorter:
  "split_token m inq insq current p = Some (Some (t, r)) \<Longrightarrow>
     length r \<le> length p \<and> (char_at p 0 \<noteq> NUL \<longrightarrow> length r < length p)"
proof (induction "length p" arbitrary: inq insq current p rule: less_induct)
  case less
  have ih: "length r < length p" if "length q < length p" "split_token m a b c q = Some (Some (t, r))" for a b c q
    using less.hyps [OF that] that(1) by simp
  show ?case
  proof (cases "char_at p 0 = NUL")
    case True
    then show ?thesis using less.prems
      by (subst (asm) split_token.simps) (auto simp: advance_def split: if_splits)
  next
    case False
    note adv = length_advance(2) [OF False] length_advance_drop [OF False, of 1] length_advance_drop [OF False, of 3]
    have "length r < length p"
      using less.prems adv
      by (subst (asm) split_token.simps) (auto intro: ih split: if_splits bind_splits)
    then show ?thesis by simp
  qed
qed

text \<open>The loop over the line. Neither the tokens nor the array of tokens are tested for null pointers.\<close>

function split_args :: "malloc \<Rightarrow> sds option list \<Rightarrow> string \<Rightarrow> sds option list option ub" where
  "split_args m vector line =
     (let p = dropWhile isspace line
      in if char_at p 0 \<noteq> NUL then
           case sdsempty m of
             None \<Rightarrow> None
           | Some current \<Rightarrow>
               (case split_token m False False current p of
                  None \<Rightarrow> None
                | Some None \<Rightarrow> Some None
                | Some (Some (current, p)) \<Rightarrow>
                    if m (8 * (length vector + 1)) = None then None
                    else split_args m (vector @ [current]) p)
         else if vector = [] then Some (map_option (\<lambda>_. []) (m 8))
         else Some (Some vector))"
  by pat_completeness auto
termination
proof (relation "measure (\<lambda>(m, v, line). length line)", goal_cases)
  case (2 m vector line p current r x t q)
  then show ?case using split_token_shorter [of m False False current p t q] length_dropWhile_le [of isspace line] by auto
qed simp

declare split_args.simps [simp del]

definition sdssplitargs :: "malloc \<Rightarrow> string \<Rightarrow> (sds option list option \<times> int) ub" where
  "sdssplitargs m line = do {
     r \<leftarrow> split_args m [] (c_str line);
     Some (r, case r of None \<Rightarrow> 0 | Some v \<Rightarrow> int (length v))
   }"

section \<open>Lemmas\<close>

subsection \<open>What a string holds\<close>

definition mk_sds :: "string \<Rightarrow> string \<Rightarrow> sds" where
  "mk_sds c r = \<lparr>sds_len = int (length c), sds_free = int (length r), sds_buf = c @ NUL # r\<rparr>"

definition sds_holds :: "sds \<Rightarrow> string \<Rightarrow> bool" where
  "sds_holds s c \<longleftrightarrow> (\<exists>r. s = mk_sds c r \<and> int (length c + length r) \<le> INT_MAX)"

text \<open>A result is a string that holds \<open>c\<close>, or a null pointer because an allocation has failed.\<close>

definition sds_result :: "malloc \<Rightarrow> string \<Rightarrow> sds option ub \<Rightarrow> bool" where
  "sds_result m c res \<longleftrightarrow>
     (case res of
        None \<Rightarrow> False
      | Some None \<Rightarrow> \<exists>n. m n = None
      | Some (Some s) \<Rightarrow> sds_holds s c)"

lemma mk_sds_sel [simp]:
  "sds_len (mk_sds c r) = int (length c)" "sds_free (mk_sds c r) = int (length r)" "sds_buf (mk_sds c r) = c @ NUL # r"
  by (simp_all add: mk_sds_def)

lemma sds_holdsE:
  assumes "sds_holds s c" obtains r where "s = mk_sds c r" "int (length c + length r) \<le> INT_MAX"
  using assms by (auto simp: sds_holds_def)

lemma sds_holdsI: "s = mk_sds c r \<Longrightarrow> int (length c + length r) \<le> INT_MAX \<Longrightarrow> sds_holds s c"
  by (auto simp: sds_holds_def)

lemma sds_holds_unique: "sds_holds s c \<Longrightarrow> sds_holds s d \<Longrightarrow> c = d"
  by (auto simp: sds_holds_def mk_sds_def)

lemma sds_result_simps [simp]:
  "\<not> sds_result m c None" "sds_result m c (Some None) \<longleftrightarrow> (\<exists>n. m n = None)"
  "sds_result m c (Some (Some s)) \<longleftrightarrow> sds_holds s c"
  by (simp_all add: sds_result_def)

lemma sds_result_cases:
  assumes "sds_result m c res"
  obtains n where "res = Some None" "m n = None" | s where "res = Some (Some s)" "sds_holds s c"
  using assms by (auto simp: sds_result_def split: option.splits)

lemma INT_MAX_less [simp]: "INT_MAX < 2 ^ 64" "INT_MAX < 18446744073709551616"
  by (simp_all add: INT_MAX_def)

lemma size_t_small: "0 \<le> x \<Longrightarrow> x \<le> 2 ^ 40 \<Longrightarrow> size_t x = nat x"
  by (simp add: size_t_def)

lemma size_t_int [simp]: "int n \<le> INT_MAX \<Longrightarrow> size_t (int n) = n"
  by (simp add: size_t_def INT_MAX_def)

lemma int_of_size_small [simp]: "int n \<le> INT_MAX \<Longrightarrow> int_of_size n = int n"
  by (simp add: int_of_size_def wrap32_id INT_MIN_def)

lemma int_arith_ok: "INT_MIN \<le> x \<Longrightarrow> x \<le> INT_MAX \<Longrightarrow> int_arith x = Some x"
  by (simp add: int_arith_def)

lemma sdslen_mk [simp]: "int (length c) \<le> INT_MAX \<Longrightarrow> sdslen (mk_sds c r) = length c"
  by (simp add: sdslen_def)

lemma sdsavail_mk [simp]: "int (length r) \<le> INT_MAX \<Longrightarrow> sdsavail (mk_sds c r) = length r"
  by (simp add: sdsavail_def)

lemma poke_at: "i = length a \<Longrightarrow> length bs \<le> length b \<Longrightarrow> poke i bs (a @ b) = Some (a @ bs @ drop (length bs) b)"
  by (simp add: poke_def)

lemma poke_0: "length bs \<le> length b \<Longrightarrow> poke 0 bs b = Some (bs @ drop (length bs) b)"
  by (simp add: poke_def)

lemma peek_ok: "n \<le> length bs \<Longrightarrow> peek n bs = Some (take n bs)"
  by (simp add: peek_def)

lemma block_size: "n \<le> 2 ^ 40 \<Longrightarrow> (8 + n + 1) mod 2 ^ 64 = 9 + (n::nat)"
  by simp

lemma sds_block_ok:
  assumes "n \<le> 2 ^ 40"
  shows "(\<exists>b. sds_block m n = Some (Some b) \<and> length b = n + 1) \<or> (sds_block m n = Some None \<and> m (n + 9) = None)"
  using assms by (auto simp: sds_block_def Let_def block_size add.commute split: option.splits)

lemma sds_realloc_ok:
  assumes "n \<le> 2 ^ 40" "length old \<le> n + 1"
  shows "(\<exists>b. sds_realloc m n old = Some (Some (old @ b)) \<and> length old + length b = n + 1) \<or>
    (sds_realloc m n old = Some None \<and> m (n + 9) = None)"
proof -
  have sz: "(8 + n + 1) mod 2 ^ 64 = 9 + n" using assms(1) by (rule block_size)
  show ?thesis
  proof (cases "m (9 + n)")
    case None
    then show ?thesis by (simp only: sds_realloc_def Let_def sz) (simp add: add.commute)
  next
    case (Some f)
    then show ?thesis using assms(2) by (simp only: sds_realloc_def Let_def sz) simp
  qed
qed

subsection \<open>Creation\<close>

lemma sdsnewlen_result:
  assumes "n \<le> length p" "int n \<le> INT_MAX"
  shows "sds_result m (take n p) (sdsnewlen m (Some p) n)"
proof -
  have n: "n \<le> 2 ^ 40" using assms(2) by (simp add: INT_MAX_def)
  show ?thesis
  proof (cases "\<exists>b. sds_block m n = Some (Some b) \<and> length b = n + 1")
    case True
    then obtain b where b: "sds_block m n = Some (Some b)" "length b = n + 1" by blast
    obtain x b' where e: "take n p @ drop n b = take n p @ x # b'" "b' = []" using b(2)
      by (cases "drop n b") (auto dest!: arg_cong [of _ _ length])
    have "(if n = 0 then Some b else do { bs \<leftarrow> peek n p; poke 0 bs b }) = Some (take n p @ drop n b)"
      using assms(1) b(2) by (simp add: peek_ok poke_0)
    then show ?thesis using b(1) e assms
      by (simp add: sdsnewlen_def poke_at sds_holds_def mk_sds_def)
  next
    case False
    then have "sds_block m n = Some None" "m (n + 9) = None" using sds_block_ok [OF n, of m] by auto
    then show ?thesis by (auto simp: sdsnewlen_def)
  qed
qed

lemma sdsnewlen_null:
  assumes "int n \<le> INT_MAX"
  shows "sds_result m (replicate n NUL) (sdsnewlen m None n)"
proof -
  have n: "n \<le> 2 ^ 40" using assms by (simp add: INT_MAX_def)
  have e: "poke n [NUL] (replicate (Suc n) NUL) = Some (replicate n NUL @ [NUL])"
    using poke_at [of n "replicate n NUL" "[NUL]" "[NUL]"] by (simp add: replicate_append_same)
  show ?thesis using sds_block_ok [OF n, of m] assms e
    by (auto simp: sdsnewlen_def sds_holds_def mk_sds_def simp del: replicate.simps)
qed

lemma sdsempty_result: "sds_result m [] (sdsempty m)"
  using sdsnewlen_result [of 0 "[NUL]" m] by (simp add: sdsempty_def INT_MAX_def)

lemma strlen_c_str: "NUL \<in> set t \<Longrightarrow> strlen t = Some (length (c_str t))"
  by (simp add: strlen_def)

lemma c_str_take: "take (length (c_str t)) t = c_str t"
  unfolding c_str_def by (rule takeWhile_eq_take [symmetric])

lemma length_c_str: "length (c_str t) \<le> length t"
  by (simp add: c_str_def length_takeWhile_le)

lemma sdsnew_result: "NUL \<in> set t \<Longrightarrow> int (length (c_str t)) \<le> INT_MAX \<Longrightarrow> sds_result m (c_str t) (sdsnew m (Some t))"
  using sdsnewlen_result [of "length (c_str t)" t m] by (simp add: sdsnew_def strlen_c_str c_str_take length_c_str)

lemma sdsdup_result: "sds_holds s c \<Longrightarrow> sds_result m c (sdsdup m s)"
  using sdsnewlen_result [of "length c" "sds_buf s" m] by (auto simp: sdsdup_def elim!: sds_holdsE)

subsection \<open>Room and appending\<close>

abbreviation room_ok :: "nat \<Rightarrow> bool" where
  "room_ok n \<equiv> int n + int SDS_MAX_PREALLOC \<le> INT_MAX"

lemma sdsMakeRoomFor_result:
  assumes "sds_holds s c" "room_ok (length c + add)"
  shows "(sdsMakeRoomFor m s add = Some None \<and> (\<exists>n. m n = None)) \<or>
    (\<exists>r. sdsMakeRoomFor m s add = Some (Some (mk_sds c r)) \<and> int (length c + length r) \<le> INT_MAX \<and> add \<le> length r)"
proof -
  from assms(1) obtain r where s: "s = mk_sds c r" "int (length c + length r) \<le> INT_MAX" by (rule sds_holdsE)
  show ?thesis
  proof (cases "add \<le> length r")
    case True
    then show ?thesis using s by (auto simp: sdsMakeRoomFor_def)
  next
    case False
    define nl where "nl = (if length c + add < SDS_MAX_PREALLOC then (length c + add) * 2 else length c + add + SDS_MAX_PREALLOC)"
    have nl: "length c + add \<le> nl" "int nl \<le> INT_MAX" "nl < 2 ^ 64" "length c + add < 2 ^ 64"
      using assms(2) by (auto simp: nl_def SDS_MAX_PREALLOC_def INT_MAX_def)
    have e1: "(sdslen s + add) mod 2 ^ 64 = length c + add" using s nl(4) by simp
    have e2: "(if length c + add < SDS_MAX_PREALLOC then (length c + add) * 2 else length c + add + SDS_MAX_PREALLOC) mod 2 ^ 64 = nl"
      unfolding nl_def [symmetric] using nl(3) by (rule mod_less)
    have len: "sdslen s = length c" and avail: "\<not> add \<le> sdsavail s" using s False by auto
    have grow: "sdsMakeRoomFor m s add = do {
        newsh \<leftarrow> sds_realloc m nl (c @ NUL # r);
        case newsh of None \<Rightarrow> Some None
        | Some buf \<Rightarrow> Some (Some (s\<lparr>sds_free := wrap32 (int nl - int (length c)), sds_buf := buf\<rparr>)) }"
      unfolding sdsMakeRoomFor_def Let_def e1 e2 using len avail unfolding s(1) by simp
    have "nl \<le> 2 ^ 40" "length (c @ NUL # r) \<le> nl + 1" using nl False by (auto simp: INT_MAX_def)
    from sds_realloc_ok [OF this, of m] show ?thesis
    proof
      assume "\<exists>b. sds_realloc m nl (c @ NUL # r) = Some (Some ((c @ NUL # r) @ b)) \<and> length (c @ NUL # r) + length b = nl + 1"
      then obtain b where b: "sds_realloc m nl (c @ NUL # r) = Some (Some ((c @ NUL # r) @ b))" "length c + length r + length b = nl"
        by auto
      have w: "wrap32 (int nl - int (length c)) = int (length (r @ b))" using b(2) nl(2) by (subst wrap32_id) (auto simp: INT_MIN_def)
      have "sdsMakeRoomFor m s add = Some (Some (mk_sds c (r @ b)))"
        unfolding grow b(1) w using s(1) by (simp add: mk_sds_def)
      moreover have "int (length c + length (r @ b)) \<le> INT_MAX" "add \<le> length (r @ b)" using b(2) nl by auto
      ultimately show ?thesis by blast
    next
      assume "sds_realloc m nl (c @ NUL # r) = Some None \<and> m (nl + 9) = None"
      then show ?thesis by (auto simp: grow)
    qed
  qed
qed

lemma sdscatlen_result:
  assumes "sds_holds s c" "n \<le> length t" "room_ok (length c + n)"
  shows "sds_result m (c @ take n t) (sdscatlen m s t n)"
proof -
  have len: "sdslen s = length c" using assms(1) by (auto elim!: sds_holdsE)
  from sdsMakeRoomFor_result [OF assms(1,3), of m] show ?thesis
  proof
    assume "sdsMakeRoomFor m s n = Some None \<and> (\<exists>n. m n = None)"
    then show ?thesis by (simp add: sdscatlen_def Let_def)
  next
    assume "\<exists>r. sdsMakeRoomFor m s n = Some (Some (mk_sds c r)) \<and> int (length c + length r) \<le> INT_MAX \<and> n \<le> length r"
    then obtain r where r: "sdsMakeRoomFor m s n = Some (Some (mk_sds c r))" "int (length c + length r) \<le> INT_MAX" "n \<le> length r"
      by blast
    have w: "wrap32 (int (length r) - int n) = int (length (drop n r))" using r(2,3) by (subst wrap32_id) (auto simp: INT_MIN_def)
    have "sdscatlen m s t n = Some (Some (mk_sds (c @ take n t) (drop n r)))"
      using r assms(2) len w poke_at [of "length c + n" "c @ take n t" "[NUL]" "drop n (NUL # r)"]
      by (simp add: sdscatlen_def Let_def peek_ok poke_at Cons_nth_drop_Suc mk_sds_def min_absorb2)
    moreover have "int (length (c @ take n t) + length (drop n r)) \<le> INT_MAX" using r(2,3) assms(2) by simp
    ultimately show ?thesis by (auto simp: sds_holds_def)
  qed
qed

lemma sdscat_result:
  "sds_holds s c \<Longrightarrow> NUL \<in> set t \<Longrightarrow> room_ok (length c + length (c_str t)) \<Longrightarrow> sds_result m (c @ c_str t) (sdscat m s t)"
  using sdscatlen_result [of s c "length (c_str t)" t m] by (simp add: sdscat_def strlen_c_str c_str_take length_c_str)

lemma sdscatsds_result:
  "sds_holds s c \<Longrightarrow> sds_holds t d \<Longrightarrow> room_ok (length c + length d) \<Longrightarrow> sds_result m (c @ d) (sdscatsds m s t)"
  using sdscatlen_result [of s c "length d" "sds_buf t" m] by (auto simp: sdscatsds_def elim!: sds_holdsE [of t])

lemma sdscpylen_result:
  assumes "sds_holds s c" "n \<le> length t" "room_ok (length c + n)"
  shows "sds_result m (take n t) (sdscpylen m s t n)"
proof -
  from assms(1) obtain r where s: "s = mk_sds c r" "int (length c + length r) \<le> INT_MAX" by (rule sds_holdsE)
  define room where "room =
    (if size_t (int (length r) + int (length c)) < n then sdsMakeRoomFor m s (size_t (int n - int (length c))) else Some (Some s))"
  have tot: "int_arith (int (length r) + int (length c)) = Some (int (length r) + int (length c))"
    using s(2) by (simp add: int_arith_def INT_MIN_def)
  have rm: "(room = Some None \<and> (\<exists>n. m n = None)) \<or> (\<exists>r. room = Some (Some (mk_sds c r)) \<and> int (length c + length r) \<le> INT_MAX \<and> n \<le> length c + length r)"
  proof (cases "length r + length c < n")
    case True
    have "size_t (int n - int (length c)) = n - length c"
      using size_t_int [of "n - length c"] True assms(3) by (simp add: of_nat_diff)
    moreover have "size_t (int (length r) + int (length c)) = length r + length c"
      using size_t_int [of "length r + length c"] s(2) by simp
    ultimately show ?thesis using sdsMakeRoomFor_result [OF assms(1), of "n - length c" m] True assms(3) by (auto simp: room_def)
  next
    case False
    moreover have "size_t (int (length r) + int (length c)) = length r + length c"
      using size_t_int [of "length r + length c"] s(2) by simp
    ultimately show ?thesis using s by (auto simp: room_def)
  qed
  have eq: "sdscpylen m s t n = do {
     r \<leftarrow> room;
     case r of
       None \<Rightarrow> Some None
     | Some s \<Rightarrow> do {
         tot \<leftarrow> int_arith (sds_free s + sds_len s);
         bs \<leftarrow> peek n t;
         buf \<leftarrow> poke 0 bs (sds_buf s);
         buf \<leftarrow> poke n [NUL] buf;
         Some (Some (s\<lparr>sds_len := int_of_size n, sds_free := wrap32 (tot - int n), sds_buf := buf\<rparr>))
       }
   }"
    unfolding sdscpylen_def room_def using tot unfolding s(1) by simp
  from rm show ?thesis
  proof
    assume "room = Some None \<and> (\<exists>n. m n = None)"
    then show ?thesis by (simp add: eq)
  next
    assume "\<exists>r. room = Some (Some (mk_sds c r)) \<and> int (length c + length r) \<le> INT_MAX \<and> n \<le> length c + length r"
    then obtain q where q: "room = Some (Some (mk_sds c q))" "int (length c + length q) \<le> INT_MAX" "n \<le> length c + length q" by blast
    define rest where "rest = drop 1 (drop n (c @ NUL # q))"
    have tot': "int_arith (int (length q) + int (length c)) = Some (int (length q) + int (length c))"
      using q(2) by (simp add: int_arith_def INT_MIN_def)
    have p1: "poke 0 (take n t) (c @ NUL # q) = Some (take n t @ drop n (c @ NUL # q))"
      using q(3) assms(2) by (simp add: poke_0)
    have p2: "poke n [NUL] (take n t @ drop n (c @ NUL # q)) = Some (take n t @ NUL # rest)"
      using q(3) assms(2) by (subst poke_at) (auto simp: rest_def)
    have w: "wrap32 (int (length q) + int (length c) - int n) = int (length rest)"
      using q(2,3) by (subst wrap32_id) (auto simp: rest_def INT_MIN_def)
    have "sdscpylen m s t n = Some (Some (mk_sds (take n t) rest))"
      unfolding eq using tot' q(1) p1 p2 w assms(2,3)
      by (simp add: peek_ok mk_sds_def SDS_MAX_PREALLOC_def)
    moreover have "int (length (take n t) + length rest) \<le> INT_MAX" using q(2,3) by (simp add: rest_def)
    ultimately show ?thesis by (auto simp: sds_holds_def)
  qed
qed

lemma sdscpy_result:
  "sds_holds s c \<Longrightarrow> NUL \<in> set t \<Longrightarrow> room_ok (length c + length (c_str t)) \<Longrightarrow> sds_result m (c_str t) (sdscpy m s t)"
  using sdscpylen_result [of s c "length (c_str t)" t m] by (simp add: sdscpy_def strlen_c_str c_str_take length_c_str)

lemma sdsgrowzero_result:
  assumes "sds_holds s c" "room_ok n" "room_ok (length c)"
  shows "sds_result m (c @ replicate (n - length c) NUL) (sdsgrowzero m s n)"
proof (cases "n \<le> length c")
  case True
  then show ?thesis using assms(1,3) by (auto simp: sdsgrowzero_def Let_def elim!: sds_holdsE intro: sds_holdsI)
next
  case False
  have len: "size_t (sds_len s) = length c" using assms(1) by (auto elim!: sds_holdsE)
  have "room_ok (length c + (n - length c))" using False assms(2) by simp
  from sdsMakeRoomFor_result [OF assms(1) this, of m] show ?thesis
  proof
    assume "sdsMakeRoomFor m s (n - length c) = Some None \<and> (\<exists>n. m n = None)"
    then show ?thesis using len False by (simp add: sdsgrowzero_def Let_def)
  next
    assume "\<exists>r. sdsMakeRoomFor m s (n - length c) = Some (Some (mk_sds c r)) \<and> int (length c + length r) \<le> INT_MAX \<and> n - length c \<le> length r"
    then obtain r where r: "sdsMakeRoomFor m s (n - length c) = Some (Some (mk_sds c r))" "int (length c + length r) \<le> INT_MAX"
        "n - length c \<le> length r" by blast
    define rest where "rest = drop (n - length c) r"
    have rep: "replicate (n - length c + 1) NUL = replicate (n - length c) NUL @ [NUL]" by (simp add: replicate_append_same)
    have p: "poke (length c) (replicate (n - length c + 1) NUL) (c @ NUL # r) = Some ((c @ replicate (n - length c) NUL) @ NUL # rest)"
      unfolding rep using r(3) by (subst poke_at) (auto simp: rest_def)
    have tot: "int_arith (int (length c) + int (length r)) = Some (int (length c) + int (length r))"
      using r(2) by (simp add: int_arith_def INT_MIN_def)
    have w: "wrap32 (int (length c) + int (length r) - int n) = int (length rest)"
      using r(2,3) False by (subst wrap32_id) (auto simp: rest_def INT_MIN_def)
    have "sdsgrowzero m s n = Some (Some (mk_sds (c @ replicate (n - length c) NUL) rest))"
      using len False r(1) p tot w assms(2) by (simp add: sdsgrowzero_def Let_def mk_sds_def SDS_MAX_PREALLOC_def)
    moreover have "int (length (c @ replicate (n - length c) NUL) + length rest) \<le> INT_MAX" using r(2,3) False by (simp add: rest_def)
    ultimately show ?thesis by (auto simp: sds_holds_def)
  qed
qed

lemma sdsclear_holds: "sds_holds s c \<Longrightarrow> \<exists>s'. sdsclear s = Some s' \<and> sds_holds s' []"
proof (elim sds_holdsE)
  fix r assume s: "s = mk_sds c r" "int (length c + length r) \<le> INT_MAX"
  have "sdsclear s = Some (mk_sds [] (drop 1 (c @ NUL # r)))"
    using s by (simp add: sdsclear_def int_arith_def INT_MIN_def poke_0 mk_sds_def)
  then show ?thesis using s(2) by (auto simp: sds_holds_def)
qed

lemma c_str_until_NUL: "c_str (c @ NUL # r) = c_str c"
proof (cases "NUL \<in> set c")
  case False
  then have "c_str (c @ NUL # r) = c @ takeWhile (\<lambda>x. x \<noteq> NUL) (NUL # r)"
    unfolding c_str_def by (intro takeWhile_append2) auto
  then show ?thesis using False by (simp add: c_str_id)
qed (simp add: c_str_def takeWhile_append1 [of NUL])

lemma c_str_split: "\<exists>v. c @ NUL # r = c_str c @ NUL # v"
proof (cases "NUL \<in> set c")
  case True
  define u where "u = tl (dropWhile (\<lambda>x. x \<noteq> NUL) c)"
  have "dropWhile (\<lambda>x. x \<noteq> NUL) c = NUL # u" using True hd_dropWhile [of "\<lambda>x. x \<noteq> NUL" c]
    by (cases "dropWhile (\<lambda>x. x \<noteq> NUL) c") (auto simp: u_def)
  then have "c = c_str c @ NUL # u" using takeWhile_dropWhile_id [of "\<lambda>x. x \<noteq> NUL" c] by (simp add: c_str_def)
  then have "c @ NUL # r = c_str c @ NUL # u @ NUL # r" using append_assoc [of "c_str c" "NUL # u" "NUL # r"] by simp
  then show ?thesis by blast
next
  case False
  then show ?thesis by (simp add: c_str_id)
qed

lemma sdsupdatelen_holds: "sds_holds s c \<Longrightarrow> \<exists>s'. sdsupdatelen s = Some s' \<and> sds_holds s' (c_str c)"
proof (elim sds_holdsE)
  fix r assume s: "s = mk_sds c r" "int (length c + length r) \<le> INT_MAX"
  obtain v where v: "c @ NUL # r = c_str c @ NUL # v" using c_str_split by blast
  have len: "length c + length r = length (c_str c) + length v" using arg_cong [OF v, of length] by simp
  have n: "strlen (c @ NUL # r) = Some (length (c_str c))" by (simp add: strlen_def c_str_until_NUL)
  have "sdsupdatelen s = Some (mk_sds (c_str c) v)"
    using s len length_c_str [of c] by (simp add: sdsupdatelen_def n [unfolded v] int_arith_def INT_MIN_def mk_sds_def v Let_def)
  then show ?thesis using s(2) len by (auto simp: sds_holds_def)
qed

lemma sdsIncrLen_holds:
  assumes "sds_holds s c" "- int (length c) \<le> incr" "incr \<le> sds_free s"
  shows "\<exists>s'. sdsIncrLen s incr = Some s' \<and> sds_holds s' (take (nat (int (length c) + incr)) (sds_buf s))"
proof -
  from assms(1) obtain r where s: "s = mk_sds c r" "int (length c + length r) \<le> INT_MAX" by (rule sds_holdsE)
  define B where "B = sds_buf s"
  have Beq: "B = c @ NUL # r" using s(1) by (simp add: B_def)
  then have B: "length B = length c + length r + 1" by simp
  obtain k where k: "incr = int k - int (length c)" using assms(2) by (metis add.commute diff_add_cancel nonneg_int_cases le_add_diff_inverse2 minus_le_iff add_uminus_conv_diff diff_ge_0_iff_ge minus_minus)
  have kl: "k \<le> length c + length r" using assms(3) s(1) by (simp add: k)
  let ?s = "mk_sds (take k B) (drop (k + 1) B)"
  have p: "poke k [NUL] B = Some (take k B @ NUL # drop (k + 1) B)" using kl B by (simp add: poke_def)
  have "sdsIncrLen s incr = Some \<lparr>sds_len = int k, sds_free = int (length c + length r) - int k, sds_buf = take k B @ NUL # drop (k + 1) B\<rparr>"
    using s kl p unfolding Beq by (simp add: sdsIncrLen_def int_arith_def INT_MIN_def k mk_sds_def)
  moreover have "\<dots> = Some ?s" using B kl by (simp add: mk_sds_def)
  moreover have "sds_holds ?s (take k B)" by (rule sds_holdsI [OF refl]) (use B kl s(2) in simp)
  ultimately show ?thesis by (simp add: B_def k)
qed

lemma sdsRemoveFreeSpace_holds:
  assumes "sds_holds s c" "\<forall>n. m n \<noteq> None"
  shows "\<exists>s'. sdsRemoveFreeSpace m s = Some s' \<and> s' = mk_sds c [] \<and> sds_holds s' c"
proof -
  from assms(1) obtain r where s: "s = mk_sds c r" "int (length c + length r) \<le> INT_MAX" by (rule sds_holdsE)
  have n: "length c \<le> 2 ^ 40" using s(2) by (simp add: INT_MAX_def)
  obtain f where f: "m (9 + length c) = Some f" using assms(2) by blast
  have "sds_realloc m (length c) (c @ NUL # r) = Some (Some (c @ [NUL]))"
    unfolding sds_realloc_def Let_def block_size [OF n] f by simp
  then have "sdsRemoveFreeSpace m s = Some (mk_sds c [])"
    using s by (simp add: sdsRemoveFreeSpace_def mk_sds_def)
  then show ?thesis using s(2) by (auto simp: sds_holds_def)
qed

lemma sdsAllocSize_mk: "int (length c + length r) \<le> INT_MAX \<Longrightarrow> sdsAllocSize (mk_sds c r) = 8 + length (sds_buf (mk_sds c r))"
  by (simp add: sdsAllocSize_def size_t_def INT_MAX_def nat_eq_iff)

lemma vprintf_buf_result:
  assumes "NUL \<notin> set t" "2 \<le> n"
  shows "(vprintf_buf m t n = Some None \<and> (\<exists>k. m k = None)) \<or> (\<exists>b. vprintf_buf m t n = Some (Some (t @ NUL # b)))"
  using assms
proof (induction m t n rule: vprintf_buf.induct)
  case (1 m t n)
  show ?case
  proof (cases "m n")
    case None
    then have "vprintf_buf m t n = Some None" using 1(3) by (subst vprintf_buf.simps) simp
    then show ?thesis using None by blast
  next
    case (Some f)
    define buf where "buf = (map f [0..<n])[n - 2 := NUL]"
    define out where "out = take (n - 1) t @ [NUL]"
    have step: "vprintf_buf m t n = (if (out @ drop (length out) buf) ! (n - 2) \<noteq> NUL then vprintf_buf m t (n * 2)
        else Some (Some (out @ drop (length out) buf)))"
    proof -
      have "\<not> n < 2" using 1(3) by simp
      then show ?thesis using Some by (subst vprintf_buf.simps) (simp only: Let_def buf_def out_def option.case if_False)
    qed
    show ?thesis
    proof (cases "(out @ drop (length out) buf) ! (n - 2) = NUL")
      case True
      have "length t \<le> n - 1"
      proof (rule ccontr)
        assume "\<not> length t \<le> n - 1"
        then have "(out @ drop (length out) buf) ! (n - 2) = t ! (n - 2)" "n - 2 < length t" using 1(3) by (auto simp: out_def nth_append)
        with True have "NUL \<in> set t" by (metis nth_mem)
        with 1(2) show False by blast
      qed
      then show ?thesis using step True by (simp add: out_def)
    next
      case False
      have "(vprintf_buf m t (n * 2) = Some None \<and> (\<exists>k. m k = None)) \<or> (\<exists>b. vprintf_buf m t (n * 2) = Some (Some (t @ NUL # b)))"
        by (rule 1(1) [OF _ Some buf_def out_def refl]) (use False 1(2,3) in simp_all)
      then show ?thesis unfolding step using False by (simp only: simp_thms if_True)
    qed
  qed
qed

lemma sdscatprintf_result:
  assumes "sds_holds s c" "NUL \<notin> set t" "room_ok (length c + length t)"
  shows "sds_result m (c @ t) (sdscatprintf m s t)"
proof -
  have "(vprintf_buf m t 16 = Some None \<and> (\<exists>k. m k = None)) \<or> (\<exists>b. vprintf_buf m t 16 = Some (Some (t @ NUL # b)))"
    by (rule vprintf_buf_result [OF assms(2)]) simp
  then show ?thesis
  proof
    assume "vprintf_buf m t 16 = Some None \<and> (\<exists>k. m k = None)"
    then show ?thesis by (auto simp: sdscatprintf_def)
  next
    assume "\<exists>b. vprintf_buf m t 16 = Some (Some (t @ NUL # b))"
    then obtain b where b: "vprintf_buf m t 16 = Some (Some (t @ NUL # b))" by blast
    have e: "c_str (t @ NUL # b) = t" using assms(2) c_str_until_NUL [of t b] c_str_id [of t] by metis
    have "sds_result m (c @ t) (sdscat m s (t @ NUL # b))"
      using sdscat_result [OF assms(1), of "t @ NUL # b" m] assms(3) unfolding e by simp
    then show ?thesis by (simp add: sdscatprintf_def b)
  qed
qed

subsection \<open>Changes in place\<close>

text \<open>A shorter string at the front of its buffer.\<close>

lemma shrink_holds:
  assumes "s = mk_sds c r" "int (length c + length r) \<le> INT_MAX" "length d \<le> length c" "poke 0 d (sds_buf s) = Some b"
    "poke (length d) [NUL] b = Some b'"
  shows "sds_holds (s\<lparr>sds_free := int (length r) + (int (length c) - int (length d)), sds_len := int (length d), sds_buf := b'\<rparr>) d"
proof -
  have b: "b = d @ drop (length d) (c @ NUL # r)" using assms(1,3,4) by (simp add: poke_0)
  define rest where "rest = drop 1 (drop (length d) (c @ NUL # r))"
  have b': "b' = d @ NUL # rest" using assms(3,5) unfolding b rest_def by (subst (asm) poke_at) auto
  have "length rest = length c + length r - length d" using assms(3) by (simp add: rest_def)
  then show ?thesis using assms(1-3) by (intro sds_holdsI [of _ d rest]) (simp_all add: mk_sds_def b')
qed

lemma poke_shrink:
  assumes "length d \<le> length c"
  shows "\<exists>b b'. poke 0 d (c @ NUL # r) = Some b \<and> poke (length d) [NUL] b = Some b'"
  using assms by (simp add: poke_def)

lemma trim_ep_eq: "\<forall>i. lo < i \<and> i \<le> hi \<longrightarrow> P (b ! i) \<Longrightarrow> lo \<le> hi \<Longrightarrow> lo = 0 \<or> \<not> P (b ! lo) \<Longrightarrow> trim_ep P b hi = lo"
proof (induction hi)
  case (Suc hi)
  then show ?case by (cases "lo = Suc hi") (subst trim_ep.simps, auto)+
qed (subst trim_ep.simps, simp)

text \<open>A list is a prefix and a suffix of elements with \<open>P\<close> around a middle part that begins and ends without.\<close>

lemma trim_split:
  assumes "\<exists>x \<in> set c. \<not> P x"
  obtains pre mid post where "c = pre @ mid @ post" "mid \<noteq> []" "\<forall>x \<in> set pre. P x" "\<forall>x \<in> set post. P x"
    "\<not> P (hd mid)" "\<not> P (last mid)"
proof -
  define d where "d = dropWhile P c"
  have d: "d \<noteq> []" "\<not> P (hd d)" using assms hd_dropWhile [of P c] by (auto simp: d_def dropWhile_eq_Nil_conv)
  define e where "e = rev (dropWhile P (rev d))"
  have "dropWhile P (rev d) \<noteq> []" using d hd_in_set by (auto simp: dropWhile_eq_Nil_conv)
  then have e: "e \<noteq> []" "\<not> P (last e)" using hd_dropWhile [of P "rev d"] by (auto simp: e_def last_rev)
  have de: "d = e @ rev (takeWhile P (rev d))" by (metis e_def rev_append rev_rev_ident takeWhile_dropWhile_id)
  have "c = takeWhile P c @ e @ rev (takeWhile P (rev d))" using de by (simp add: d_def)
  moreover have "hd e = hd d" using de e(1) by (metis hd_append2)
  ultimately show thesis using that [of "takeWhile P c" e "rev (takeWhile P (rev d))"] d e by (auto dest: set_takeWhileD)
qed

lemma trim_spec: "\<lbrakk>mid \<noteq> []; \<forall>x \<in> set pre. P x; \<forall>x \<in> set post. P x; \<not> P (hd mid); \<not> P (last mid)\<rbrakk> \<Longrightarrow>
    rev (dropWhile P (rev (dropWhile P (pre @ mid @ post)))) = mid"
proof -
  assume a: "mid \<noteq> []" "\<forall>x \<in> set pre. P x" "\<forall>x \<in> set post. P x" "\<not> P (hd mid)" "\<not> P (last mid)"
  have "dropWhile P (pre @ mid @ post) = mid @ post" using a by (cases mid) simp_all
  moreover have "dropWhile P (rev (mid @ post)) = rev mid" using a by (cases mid rule: rev_cases) (auto simp: dropWhile_append)
  ultimately show ?thesis by simp
qed

definition trim_both :: "string \<Rightarrow> string \<Rightarrow> string" where
  "trim_both cset c = rev (dropWhile (in_cset cset) (rev (dropWhile (in_cset cset) c)))"

lemma sdstrim_holds:
  assumes "sds_holds s c"
  shows "\<exists>s'. sdstrim s cset = Some s' \<and> sds_holds s' (trim_both cset c)"
proof -
  from assms obtain r where s: "s = mk_sds c r" "int (length c + length r) \<le> INT_MAX" by (rule sds_holdsE)
  let ?P = "in_cset cset"
  define sp where "sp = length (takeWhile ?P c)"
  define ep where "ep = (if c = [] then - 1 else int (trim_ep ?P c (length c - 1)))"
  define len where "len = (if int sp > ep then 0 else nat (ep - int sp + 1))"
  have d: "take len (drop sp (c @ NUL # r)) = trim_both cset c \<and> len = length (trim_both cset c) \<and> len \<le> length c"
  proof (cases "\<exists>x \<in> set c. \<not> ?P x")
    case True
    then obtain pre mid post where c: "c = pre @ mid @ post" "mid \<noteq> []" "\<forall>x \<in> set pre. ?P x" "\<forall>x \<in> set post. ?P x"
        "\<not> ?P (hd mid)" "\<not> ?P (last mid)" by (rule trim_split)
    have sp: "sp = length pre" using c(2,3,5) by (cases mid) (simp_all add: sp_def c(1))
    have "trim_ep ?P c (length c - 1) = length pre + length mid - 1"
    proof (rule trim_ep_eq)
      show "\<forall>i. length pre + length mid - 1 < i \<and> i \<le> length c - 1 \<longrightarrow> ?P (c ! i)"
        using c(2,4) by (auto simp: c(1) nth_append intro!: nth_mem)
      show "length pre + length mid - 1 \<le> length c - 1" by (simp add: c(1))
      show "length pre + length mid - 1 = 0 \<or> \<not> ?P (c ! (length pre + length mid - 1))"
        using c(2,6) by (cases mid rule: rev_cases) (auto simp: c(1) nth_append)
    qed
    then have "ep = int (length pre + length mid) - 1" using c(1,2) by (cases mid) (simp_all add: ep_def)
    then have "len = length mid" using c(2) by (cases mid) (simp_all add: len_def sp)
    then show ?thesis using trim_spec [OF c(2-6)] by (simp add: trim_both_def sp c(1))
  next
    case False
    then have "trim_both cset c = []" "sp = length c" by (auto simp: trim_both_def sp_def dropWhile_eq_Nil_conv takeWhile_eq_all_conv [THEN iffD2] dest: set_dropWhileD)
    moreover have "trim_ep ?P c (length c - 1) = 0" if "c \<noteq> []"
    proof (rule trim_ep_eq)
      show "\<forall>i. 0 < i \<and> i \<le> length c - 1 \<longrightarrow> ?P (c ! i)"
        using False nth_mem [of _ c] by (metis Suc_le_eq Suc_pred' length_greater_0_conv less_Suc_eq_le that)
    qed simp_all
    ultimately show ?thesis by (auto simp: len_def ep_def)
  qed
  obtain b b' where p: "poke 0 (trim_both cset c) (c @ NUL # r) = Some b" "poke len [NUL] b = Some b'"
    using poke_shrink [of "trim_both cset c" c r] d by auto
  have w: "wrap32 (int (length r) + (int (length c) - int len)) = int (length r) + (int (length c) - int len)"
    using s(2) d by (intro wrap32_id) (auto simp: INT_MIN_def)
  have e: "take len (drop sp (sds_buf s)) = trim_both cset c" using conjunct1 [OF d] by (simp only: s(1) mk_sds_sel)
  have pk: "peek (sdslen s) (sds_buf s) = Some c" using s by (simp add: peek_ok)
  have "sdstrim s cset = do {
      buf \<leftarrow> poke 0 (take len (drop sp (sds_buf s))) (sds_buf s);
      buf \<leftarrow> poke len [NUL] buf;
      Some (s\<lparr>sds_free := wrap32 (sds_free s + (sds_len s - int len)), sds_len := int_of_size len, sds_buf := buf\<rparr>) }"
    unfolding sdstrim_def pk bind.bind_lunit Let_def sp_def len_def ep_def ..
  also have "\<dots> = Some (s\<lparr>sds_free := int (length r) + (int (length c) - int len), sds_len := int len, sds_buf := b'\<rparr>)"
    unfolding e using s d p w by (simp del: drop_append take_append)
  finally have "sdstrim s cset = Some (s\<lparr>sds_free := int (length r) + (int (length c) - int len), sds_len := int len, sds_buf := b'\<rparr>)" .
  moreover have "sds_holds (s\<lparr>sds_free := int (length r) + (int (length c) - int len), sds_len := int len, sds_buf := b'\<rparr>) (trim_both cset c)"
    using shrink_holds [OF s, of "trim_both cset c" b b'] d p s(1) by simp
  ultimately show ?thesis by blast
qed

definition range_spec :: "int \<Rightarrow> int \<Rightarrow> string \<Rightarrow> string" where
  "range_spec a b c =
     (let n = int (length c);
          a = (if a < 0 then max 0 (n + a) else a);
          b = (if b < 0 then max 0 (n + b) else b)
      in if b < a then [] else take (nat (b - a + 1)) (drop (nat a) c))"

lemma INT_MAX_pos: "0 < INT_MAX"
  by (simp add: INT_MAX_def)

lemma range_len_ok: "0 \<le> a \<Longrightarrow> b < INT_MAX \<Longrightarrow> range_len a b = Some (if b < a then 0 else b - a + 1)"
  by (simp add: range_len_def int_arith_def INT_MIN_def)

lemma sdsrange_holds:
  assumes "sds_holds s c" "INT_MIN \<le> start" "start \<le> INT_MAX" "INT_MIN \<le> stop" "stop < INT_MAX"
  shows "\<exists>s'. sdsrange s start stop = Some s' \<and> sds_holds s' (range_spec start stop c)"
proof -
  from assms(1) obtain r where s: "s = mk_sds c r" "int (length c + length r) \<le> INT_MAX" by (rule sds_holdsE)
  show ?thesis
  proof (cases "c = []")
    case True
    then show ?thesis using s assms(1) by (simp add: sdsrange_def range_spec_def Let_def)
  next
    case False
    define a where "a = range_from_end (length c) start"
    define b where "b = range_from_end (length c) stop"
    have ends: "a = (if start < 0 then max 0 (int (length c) + start) else start)" "0 \<le> a" "a \<le> INT_MAX"
      "b = (if stop < 0 then max 0 (int (length c) + stop) else stop)" "0 \<le> b" "b < INT_MAX"
      using assms(2-5) s(2) False INT_MAX_pos by (auto simp: a_def b_def range_from_end_def wrap32_id INT_MIN_def)
    have d: "range_spec start stop c = (if b < a then [] else take (nat (b - a + 1)) (drop (nat a) c))"
      by (simp add: range_spec_def Let_def ends(1,4))
    define d where "d = range_spec start stop c"
    have dd: "d = (if b < a then [] else take (nat (b - a + 1)) (drop (nat a) c))" unfolding d_def d ..
    have dl: "length d \<le> length c" by (auto simp: dd min_def)
    obtain buf buf' where p: "poke 0 d (c @ NUL # r) = Some buf" "poke (length d) [NUL] buf = Some buf'"
      using poke_shrink [OF dl, of r] by blast
    define pair where "pair =
      (if (if b < a then 0 else b - a + 1) \<noteq> 0 then
         if int (length c) \<le> a then Some (a, 0)
         else if int (length c) \<le> b then do { n \<leftarrow> range_len a (int (length c) - 1); Some (a, n) }
         else Some (a, if b < a then 0 else b - a + 1)
       else Some (0, 0))"
    obtain st where st: "pair = Some (st, int (length d))" "st = a \<or> d = []"
    proof -
      have "pair = Some (a, int (length d)) \<or> (pair = Some (0, 0) \<and> d = [])"
        using ends(2,3,5,6) s(2) by (auto simp: pair_def dd range_len_ok)
      then show thesis using that by auto
    qed
    define moved where "moved = (if st \<noteq> 0 \<and> int (length d) \<noteq> 0
      then do { bs \<leftarrow> peek (length d) (drop (nat st) (c @ NUL # r)); poke 0 bs (c @ NUL # r) } else Some (c @ NUL # r))"
    have moved: "moved = Some buf"
    proof (cases "st \<noteq> 0 \<and> d \<noteq> []")
      case True
      have "take (length d) (drop (nat a) (c @ NUL # r)) = d" using True by (auto simp: dd min_def)
      moreover have "length d \<le> length (drop (nat a) (c @ NUL # r))" by (auto simp: dd min_def)
      ultimately have "peek (length d) (drop (nat a) (c @ NUL # r)) = Some d" by (simp only: peek_def if_True)
      then show ?thesis using True st(2) p(1) by (simp add: moved_def del: drop_append)
    next
      case False
      have "poke 0 d (c @ NUL # r) = Some (c @ NUL # r)"
      proof (cases "d = []")
        case ne: False
        then have "d = take (length d) c" using False st(2) by (auto simp: dd min_def)
        then obtain e where "c = d @ e" using append_take_drop_id [of "length d" c] by metis
        then show ?thesis by (simp add: poke_0)
      qed (simp add: poke_def)
      then show ?thesis using False p(1) by (auto simp: moved_def)
    qed
    have szd: "size_t (int (length d)) = length d" using s(2) dl by (intro size_t_int) simp
    have len: "sdslen s = length c" and ne: "length c \<noteq> 0" using s False by auto
    have w: "wrap32 (int (length c)) = int (length c)" "wrap32 (int (length c) - 1) = int (length c) - 1"
      "wrap32 (int (length r) + (int (length c) - int (length d))) = int (length r) + (int (length c) - int (length d))"
      using s(2) False dl by (auto intro!: wrap32_id simp: INT_MIN_def)
    have "sdsrange s start stop = do {
        (start, newlen) \<leftarrow> pair;
        buf \<leftarrow> (if start \<noteq> 0 \<and> newlen \<noteq> 0
          then do { bs \<leftarrow> peek (size_t newlen) (drop (nat start) (c @ NUL # r)); poke 0 bs (c @ NUL # r) } else Some (c @ NUL # r));
        buf \<leftarrow> poke (size_t newlen) [NUL] buf;
        Some (s\<lparr>sds_free := wrap32 (int (length r) + (int (length c) - newlen)), sds_len := newlen, sds_buf := buf\<rparr>) }"
      unfolding sdsrange_def Let_def len a_def [symmetric] b_def [symmetric] range_len_ok [OF ends(2,6)] bind.bind_lunit w(1,2) pair_def
      using ne s(1) by (simp only: if_False mk_sds_sel)
    also have "\<dots> = Some (s\<lparr>sds_free := int (length r) + (int (length c) - int (length d)), sds_len := int (length d), sds_buf := buf'\<rparr>)"
      unfolding st(1) bind.bind_lunit case_prod_conv szd moved_def [symmetric] moved p(2) w(3) ..
    finally show ?thesis using shrink_holds [OF s dl, of buf buf'] p s(1) by (auto simp: d_def)
  qed
qed

lemma mk_sds_buf_update: "length d = length c \<Longrightarrow> mk_sds c r\<lparr>sds_buf := d @ NUL # r\<rparr> = mk_sds d r"
  by (simp add: mk_sds_def)

lemma map_sds_holds: "sds_holds s c \<Longrightarrow> \<exists>s'. map_sds f s = Some s' \<and> sds_holds s' (map f c)"
proof (elim sds_holdsE)
  fix r assume s: "s = mk_sds c r" "int (length c + length r) \<le> INT_MAX"
  have "map_sds f s = Some (mk_sds (map f c) r)" using s by (simp add: map_sds_def peek_ok poke_0 mk_sds_buf_update)
  then show ?thesis using s(2) by (auto simp: sds_holds_def)
qed

definition mapchars_spec :: "string \<Rightarrow> string \<Rightarrow> string \<Rightarrow> string" where
  "mapchars_spec from to c = map (\<lambda>x. case map_of (zip from to) x of None \<Rightarrow> x | Some y \<Rightarrow> y) c"

lemma mapchar_eq:
  "n \<le> length xs \<Longrightarrow> n \<le> length ys \<Longrightarrow>
     mapchar c n xs ys = Some (case map_of (zip (take n xs) (take n ys)) c of None \<Rightarrow> c | Some y \<Rightarrow> y)"
proof (induction n arbitrary: xs ys)
  case (Suc n)
  then show ?case by (cases xs; cases ys) auto
qed simp

lemma those_map_Some: "those (map (\<lambda>x. Some (f x)) xs) = Some (map f xs)"
  by (induction xs) simp_all

lemma sdsmapchars_holds:
  assumes "sds_holds s c" "n \<le> length from" "n \<le> length to"
  shows "\<exists>s'. sdsmapchars s from to n = Some s' \<and> sds_holds s' (mapchars_spec (take n from) (take n to) c)"
proof -
  from assms(1) obtain r where s: "s = mk_sds c r" "int (length c + length r) \<le> INT_MAX" by (rule sds_holdsE)
  have "sdsmapchars s from to n = Some (mk_sds (mapchars_spec (take n from) (take n to) c) r)"
    using s by (simp add: sdsmapchars_def peek_ok mapchar_eq [OF assms(2,3)] those_map_Some mapchars_spec_def poke_0 mk_sds_buf_update)
  then show ?thesis using s(2) by (auto simp: sds_holds_def mapchars_spec_def)
qed

lemma less_append_same: "a @ x < a @ y \<longleftrightarrow> x < (y :: string)"
  by (induction a) simp_all

lemma less_append_differ: "length a = length b \<Longrightarrow> a \<noteq> b \<Longrightarrow> a @ x < b @ y \<longleftrightarrow> a < (b :: string)"
proof (induction a b rule: list_induct2)
  case (Cons x xs y ys)
  then show ?case by (cases "x = y") simp_all
qed simp

lemma sdscmp_sign:
  assumes "sds_holds s c" "sds_holds t d"
  shows "\<exists>r. sdscmp s t = Some r \<and> (r < 0 \<longleftrightarrow> c < d) \<and> (r = 0 \<longleftrightarrow> c = d) \<and> (0 < r \<longleftrightarrow> d < c)"
proof -
  from assms obtain q u where s: "s = mk_sds c q" "int (length c + length q) \<le> INT_MAX" "t = mk_sds d u" "int (length d + length u) \<le> INT_MAX"
    by (auto elim!: sds_holdsE)
  define k where "k = (if length c < length d then length c else length d)"
  have k: "k \<le> length c" "k \<le> length d" by (auto simp: k_def)
  have w: "wrap32 (int (length c) - int (length d)) = int (length c) - int (length d)"
    using s by (intro wrap32_id) (auto simp: INT_MIN_def INT_MAX_def)
  have r: "sdscmp s t = Some (if memcmp (take k c) (take k d) = 0 then int (length c) - int (length d) else memcmp (take k c) (take k d))"
    using s k w by (simp add: sdscmp_def Let_def k_def [symmetric] peek_ok)
  show ?thesis
  proof (cases "take k c = take k d")
    case True
    have "\<exists>z x y. c = z @ x \<and> d = z @ y \<and> (x = [] \<or> y = [])"
    proof (intro exI conjI)
      show "c = take k c @ drop k c" by simp
      show "d = take k c @ drop k d" using append_take_drop_id [of k d] by (simp only: True)
      show "drop k c = [] \<or> drop k d = []" by (auto simp: k_def)
    qed
    then obtain z x y where cd: "c = z @ x" "d = z @ y" "x = [] \<or> y = []" by blast
    have "memcmp (take k c) (take k d) = 0" unfolding True by (simp add: memcmp_def)
    then have cmp: "sdscmp s t = Some (int (length x) - int (length y))" unfolding r unfolding cd(1,2) by simp
    have ord: "c < d \<longleftrightarrow> x < y" "d < c \<longleftrightarrow> y < x" "c = d \<longleftrightarrow> x = y"
      unfolding cd(1,2) by (simp_all only: less_append_same same_append_eq)
    have "(int (length x) - int (length y) < 0 \<longleftrightarrow> x < y) \<and> (int (length x) - int (length y) = 0 \<longleftrightarrow> x = y) \<and>
        (0 < int (length x) - int (length y) \<longleftrightarrow> y < x)"
      using cd(3) by (cases x; cases y) auto
    then show ?thesis unfolding cmp ord by blast
  next
    case False
    have ord: "c < d \<longleftrightarrow> take k c < take k d" "d < c \<longleftrightarrow> take k d < take k c"
      using less_append_differ [of "take k c" "take k d" "drop k c" "drop k d"] less_append_differ [of "take k d" "take k c" "drop k d" "drop k c"] False k
      by simp_all
    consider "take k c < take k d" | "take k d < take k c" using False by (meson linorder_neqE)
    then show ?thesis
    proof cases
      case 1
      then have "memcmp (take k c) (take k d) = - 1" by (simp add: memcmp_def)
      moreover have "c < d" using 1 ord by blast
      ultimately show ?thesis using r by (simp add: order_less_not_sym) 
    next
      case 2
      then have "memcmp (take k c) (take k d) = 1" using order_less_not_sym [OF 2] by (simp only: memcmp_def if_True if_False)
      moreover have "d < c" using 2 ord by blast
      ultimately show ?thesis using r by (simp add: order_less_not_sym)
    qed
  qed
qed

subsection \<open>Numbers\<close>

lemma ll_digits_eq: "ll_digits v p = dec_nat v @ p"
proof (induction v p rule: ll_digits.induct)
  case (1 v p)
  show ?case
  proof (cases "v div 10 \<noteq> 0")
    case True
    have "ll_digits v p = ll_digits (v div 10) (mk_byte (48 + v mod 10) # p)" using True by (subst ll_digits.simps) (simp add: Let_def)
    also have "\<dots> = dec_nat (v div 10) @ mk_byte (48 + v mod 10) # p" using 1 [OF refl True] by simp
    also have "\<dots> = dec_nat v @ p" using True by (subst (2) dec_nat.simps) auto
    finally show ?thesis .
  next
    case False
    then have "v < 10" by simp
    then show ?thesis by (subst ll_digits.simps, subst dec_nat.simps) (simp add: Let_def)
  qed
qed

lemma sdsfromlonglong_result:
  assumes "is_int64 v" "v \<noteq> INT64_MIN"
  shows "sds_result m (dec_int v) (sdsfromlonglong m v)"
proof -
  have p: "(if v < 0 then CHR ''-'' # ll_digits (nat \<bar>v\<bar>) [] else ll_digits (nat \<bar>v\<bar>) []) = dec_int v"
    by (simp add: ll_digits_eq dec_int_def)
  have "length (dec_int v) \<le> 20" using assms(1) by (rule length_dec_int)
  moreover have "\<not> (v < 0 \<and> - v > INT64_MAX)" using assms by (auto simp: is_int64_def INT64_MIN_def INT64_MAX_def)
  ultimately have "sdsfromlonglong m v = sdsnewlen m (Some (dec_int v)) (length (dec_int v))"
    unfolding sdsfromlonglong_def Let_def p by auto
  then show ?thesis using sdsnewlen_result [of "length (dec_int v)" "dec_int v" m] \<open>length (dec_int v) \<le> 20\<close> by (simp add: INT_MAX_def)
qed

subsection \<open>Splitting and joining\<close>

definition occurs :: "string \<Rightarrow> string \<Rightarrow> bool" where
  "occurs sp c \<longleftrightarrow> (\<exists>u v. c = u @ sp @ v)"

text \<open>What the loop keeps: the bytes before \<open>start\<close> are the tokens with their separators, and no separator begins between \<open>start\<close> and \<open>j\<close>.\<close>

definition split_inv :: "string \<Rightarrow> string \<Rightarrow> int \<Rightarrow> int \<Rightarrow> sds list \<Rightarrow> int \<Rightarrow> bool" where
  "split_inv w sp slots start toks j \<longleftrightarrow>
     (\<exists>cs. list_all2 sds_holds toks cs \<and> concat (map (\<lambda>c. c @ sp) cs) = take (nat start) w \<and> (\<forall>c \<in> set cs. \<not> occurs sp c)) \<and>
     0 \<le> start \<and> start \<le> j \<and> j \<le> int (length w) \<and> int (length toks) \<le> start \<and>
     (\<forall>i. start \<le> int i \<and> int i < j \<longrightarrow> take (length sp) (drop i w) \<noteq> sp) \<and>
     int (length toks) < slots \<and> 5 \<le> slots"

lemma take_window: "i + k \<le> n \<Longrightarrow> take k (drop i (take n s)) = take k (drop i s)"
  by (simp add: drop_take min_def)

lemma occurs_window:
  assumes "occurs sp (take k (drop a w))" "sp \<noteq> []"
  shows "\<exists>i. a \<le> i \<and> i + length sp \<le> a + k \<and> i + length sp \<le> length w \<and> take (length sp) (drop i w) = sp"
proof -
  obtain u v where uv: "take k (drop a w) = u @ sp @ v" using assms(1) by (auto simp: occurs_def)
  have len: "length u + length sp + length v = min (length w - a) k" using arg_cong [OF uv, of length] by simp
  have "take (length sp) (drop (length u) (take k (drop a w))) = sp" by (simp add: uv)
  then have "take (length sp) (drop (a + length u) w) = sp" using len by (simp add: drop_take min_def add.commute split: if_splits)
  moreover have "a + length u + length sp \<le> a + k" "a + length u + length sp \<le> length w"
  proof -
    have "0 < length sp" "length u + length sp \<le> length w - a" "length u + length sp \<le> k" using assms(2) len by auto
    then show "a + length u + length sp \<le> a + k" "a + length u + length sp \<le> length w" by linarith+
  qed
  ultimately show ?thesis by (intro exI [of _ "a + length u"]) auto
qed

lemma split_match_ok:
  assumes "j + int (length sp) \<le> int (length w)" "0 \<le> j" "sp = take (nat seplen) sep" "nat seplen \<le> length sep" "1 \<le> seplen"
    "w = take n s"
  shows "split_match s j sep seplen = Some (take (length sp) (drop (nat j) w) = sp)"
proof -
  have l: "length sp = nat seplen" using assms(3,4) by simp
  have w: "length w \<le> length s" "length w \<le> n" using assms(6) by auto
  have jn: "nat j + nat seplen \<le> length w" using assms(1,2,5) l by linarith
  then have a: "peek (nat seplen) (drop (nat j) s) = Some (take (nat seplen) (drop (nat j) w))"
    unfolding assms(6) using take_window [of "nat j" "nat seplen" n s] w by (auto simp: peek_def assms(6))
  have b: "peek (nat seplen) sep = Some sp" using assms(3,4) by (simp add: peek_def)
  have "hd (take (nat seplen) (drop (nat j) w)) = hd sp \<longleftrightarrow> take (nat seplen) (drop (nat j) w) = sp" if "seplen = 1"
  proof -
    have "length (take (nat seplen) (drop (nat j) w)) = 1" "length sp = 1" using that assms(1,2) l by auto
    then show ?thesis by (metis One_nat_def length_0_conv length_Suc_conv list.sel(1))
  qed
  then show ?thesis by (auto simp: split_match_def a b l)
qed

lemma split_room_ok:
  assumes "split_inv w sp slots start toks j" "2 * int (length w) + 2 \<le> INT_MAX"
  shows "(\<exists>slots'. split_room m slots (length toks) = Some (Some slots') \<and> split_inv w sp slots' start toks j \<and> int (length toks) + 2 \<le> slots') \<or>
    (split_room m slots (length toks) = Some None \<and> (\<exists>k. m k = None))"
proof (cases "slots < int (length toks) + 2")
  case True
  have "int_arith (slots * 2) = Some (slots * 2)" using assms True by (auto simp: int_arith_def split_inv_def INT_MIN_def)
  then show ?thesis using True assms(1) by (cases "m (size_t (8 * (slots * 2)))") (auto simp: split_room_def split_inv_def)
qed (use assms(1) in \<open>auto simp: split_room_def\<close>)

lemma split_add_ok:
  assumes "split_inv w sp slots start toks j" "w = take n s" "int (length w) \<le> INT_MAX"
  shows "(\<exists>t. split_add m s start j slots toks = Some (Some (toks @ [t])) \<and> sds_holds t (take (nat (j - start)) (drop (nat start) w))) \<or>
    (split_add m s start j slots toks = Some None \<and> (\<exists>k. m k = None))"
proof -
  have b: "0 \<le> start" "start \<le> j" "j \<le> int (length w)" "int (length toks) < slots" using assms(1) by (auto simp: split_inv_def)
  have sz: "size_t (j - start) = nat (j - start)" using b assms(3) size_t_int [of "nat (j - start)"] by simp
  have "take (nat (j - start)) (drop (nat start) s) = take (nat (j - start)) (drop (nat start) w)"
    unfolding assms(2) using b assms(2) by (intro take_window [symmetric]) auto
  moreover have "nat (j - start) \<le> length (drop (nat start) s)" using b assms(2) by auto
  ultimately have "sds_result m (take (nat (j - start)) (drop (nat start) w)) (sdsnewlen m (Some (drop (nat start) s)) (size_t (j - start)))"
    using sdsnewlen_result [of "nat (j - start)" "drop (nat start) s" m] b assms(3) by (simp add: sz)
  then show ?thesis using b(4) by (elim sds_result_cases) (auto simp: split_add_def)
qed

lemma split_inv_skip:
  assumes "split_inv w sp slots start toks j" "take (length sp) (drop (nat j) w) \<noteq> sp" "j < int (length w)"
  shows "split_inv w sp slots start toks (j + 1)"
proof -
  have "take (length sp) (drop i w) \<noteq> sp" if "start \<le> int i" "int i < j + 1" for i
    using assms(1,2) that by (cases "int i = j") (auto simp: split_inv_def)
  then show ?thesis using assms(1,3) by (auto simp: split_inv_def)
qed

lemma piece_free:
  assumes "split_inv w sp slots start toks j" "sp \<noteq> []" "j = e \<or> (j \<le> e \<and> e \<le> int (length w) \<and> e < j + int (length sp))"
  shows "\<not> occurs sp (take (nat (e - start)) (drop (nat start) w))"
proof
  assume "occurs sp (take (nat (e - start)) (drop (nat start) w))"
  then obtain i where i: "nat start \<le> i" "i + length sp \<le> nat start + nat (e - start)" "take (length sp) (drop i w) = sp"
    using occurs_window [OF _ assms(2)] by blast
  have b: "0 \<le> start" "start \<le> j" using assms(1) by (auto simp: split_inv_def)
  have "nat start + nat (e - start) = nat e" using b assms(3) by auto
  moreover have "0 < length sp" using assms(2) by simp
  ultimately have "start \<le> int i" "int i < j" using i b assms(3) by linarith+
  then show False using assms(1) i(3) by (auto simp: split_inv_def)
qed

lemma split_inv_add:
  assumes "split_inv w sp slots start toks j" "take (length sp) (drop (nat j) w) = sp" "sp \<noteq> []" "int (length toks) + 2 \<le> slots"
    "sds_holds t (take (nat (j - start)) (drop (nat start) w))"
  shows "split_inv w sp slots (j + int (length sp)) (toks @ [t]) (j + int (length sp))"
proof -
  let ?c = "take (nat (j - start)) (drop (nat start) w)"
  obtain cs where cs: "list_all2 sds_holds toks cs" "concat (map (\<lambda>c. c @ sp) cs) = take (nat start) w" "\<forall>c \<in> set cs. \<not> occurs sp c"
    and b: "0 \<le> start" "start \<le> j" "j \<le> int (length w)" "int (length toks) \<le> start"
      "int (length toks) < slots" "5 \<le> slots"
    using assms(1) by (auto simp: split_inv_def)
  have "take (nat (j + int (length sp))) w = take (nat start) w @ ?c @ sp"
  proof -
    have n: "nat (j + int (length sp)) = nat start + (nat (j - start) + length sp)" "nat j = nat start + nat (j - start)" using b by auto
    show ?thesis unfolding n(1) take_add using assms(2) unfolding n(2) by (simp add: drop_drop add.commute)
  qed
  moreover have "nat j + length sp \<le> length w"
  proof -
    have "min (length w - nat j) (length sp) = length sp" using arg_cong [OF assms(2), of length] by simp
    moreover have "0 < length sp" using assms(3) by simp
    ultimately show ?thesis by linarith
  qed
  moreover have "1 + int (length toks) \<le> j + int (length sp)"
  proof -
    have "0 < length sp" using assms(3) by simp
    then show ?thesis using b by linarith
  qed
  moreover have "\<not> occurs sp ?c" using piece_free [OF assms(1,3), of j] by simp
  ultimately show ?thesis using cs b assms(4,5)
    by (auto simp: split_inv_def intro!: exI [of _ "cs @ [?c]"] list_all2_appendI)
qed

lemma split_loop_ok:
  assumes "w = take n s" "sp = take (nat seplen) sep" "nat seplen \<le> length sep" "1 \<le> seplen" "2 * int (length w) + 2 \<le> INT_MAX"
    "split_inv w sp slots start toks j"
  shows "(\<exists>slots' start' toks' j'. split_loop m s (int (length w)) sep seplen slots start toks j = Some (Some (slots', start', toks')) \<and>
      split_inv w sp slots' start' toks' j' \<and> int (length w) < j' + seplen) \<or>
    (split_loop m s (int (length w)) sep seplen slots start toks j = Some None \<and> (\<exists>k. m k = None))"
  using assms(6)
proof (induction "nat (int (length w) - j)" arbitrary: slots start toks j rule: less_induct)
  case less
  have l: "int (length sp) = seplen" "sp \<noteq> []" using assms(2-4) by auto
  let ?len = "int (length w)"
  show ?case
  proof (cases "j < ?len - (seplen - 1)")
    case False
    then have "split_loop m s ?len sep seplen slots start toks j = Some (Some (slots, start, toks))"
      using assms(4) by (subst split_loop.simps) simp
    then show ?thesis using less.prems False by auto
  next
    case True
    have j: "0 \<le> j" "j + int (length sp) \<le> ?len" "j < ?len" using less.prems True l assms(4) by (auto simp: split_inv_def)
    note match = split_match_ok [OF j(2,1) assms(2,3,4,1)]
    from split_room_ok [OF less.prems assms(5), of m] show ?thesis
    proof
      assume "split_room m slots (length toks) = Some None \<and> (\<exists>k. m k = None)"
      then show ?thesis using True assms(4) by (subst (1 2) split_loop.simps) simp
    next
      assume "\<exists>slots'. split_room m slots (length toks) = Some (Some slots') \<and> split_inv w sp slots' start toks j \<and> int (length toks) + 2 \<le> slots'"
      then obtain sl where sl: "split_room m slots (length toks) = Some (Some sl)" "split_inv w sp sl start toks j" "int (length toks) + 2 \<le> sl"
        by blast
      show ?thesis
      proof (cases "take (length sp) (drop (nat j) w) = sp")
        case False
        have "split_loop m s ?len sep seplen slots start toks j = split_loop m s ?len sep seplen sl start toks (j + 1)"
          using True assms(4) sl(1) match False by (subst split_loop.simps) simp
        moreover have "nat (?len - (j + 1)) < nat (?len - j)" using j by linarith
        ultimately show ?thesis using less.hyps [OF _ split_inv_skip [OF sl(2) False j(3)]] by simp
      next
        case eq: True
        have "?len \<le> INT_MAX" using assms(5) by linarith
        from split_add_ok [OF sl(2) assms(1) this, of m] show ?thesis
        proof (elim disjE)
          assume "split_add m s start j sl toks = Some None \<and> (\<exists>k. m k = None)"
          then show ?thesis using True assms(4) sl(1) match eq by (subst (1 2) split_loop.simps) simp
        next
          assume "\<exists>t. split_add m s start j sl toks = Some (Some (toks @ [t])) \<and> sds_holds t (take (nat (j - start)) (drop (nat start) w))"
          then obtain t where t: "split_add m s start j sl toks = Some (Some (toks @ [t]))" "sds_holds t (take (nat (j - start)) (drop (nat start) w))"
            by blast
          have "split_loop m s ?len sep seplen slots start toks j = split_loop m s ?len sep seplen sl (j + seplen) (toks @ [t]) (j + seplen)"
            using True assms(4) sl(1) match eq t(1) by (subst split_loop.simps) simp
          moreover have "nat (?len - (j + seplen)) < nat (?len - j)" using j assms(4) by linarith
          ultimately show ?thesis using less.hyps [OF _ split_inv_add [OF sl(2) eq l(2) sl(3) t(2), unfolded l(1)]] by simp
        qed
      qed
    qed
  qed
qed

fun join_with :: "string \<Rightarrow> string list \<Rightarrow> string" where
  "join_with sp [] = []"
| "join_with sp [c] = c"
| "join_with sp (c # cs) = c @ sp @ join_with sp cs"

lemma join_with_snoc: "join_with sp (cs @ [c]) = concat (map (\<lambda>c. c @ sp) cs) @ c"
proof (induction cs)
  case (Cons x cs)
  then show ?case by (cases "cs @ [c]") auto
qed simp

lemma join_with_Cons: "cs \<noteq> [] \<Longrightarrow> join_with sp (c # cs) = c @ sp @ join_with sp cs"
  by (cases cs) simp_all

lemma split_start: "split_inv w sp 5 0 [] 0"
  by (simp add: split_inv_def)

lemma sdssplitlen_ok:
  assumes "len = int n" "n \<le> length s" "0 < n" "1 \<le> seplen" "nat seplen \<le> length sep" "2 * len + 2 \<le> INT_MAX"
  shows "(\<exists>toks cs. sdssplitlen m s len sep seplen count = Some (Some toks, int (length toks)) \<and> list_all2 sds_holds toks cs \<and>
      join_with (take (nat seplen) sep) cs = take n s \<and> (\<forall>c \<in> set cs. \<not> occurs (take (nat seplen) sep) c)) \<or>
    (\<exists>k. sdssplitlen m s len sep seplen count = Some (None, k)) \<and> (\<exists>k. m k = None)"
proof -
  define w where "w = take n s"
  define sp where "sp = take (nat seplen) sep"
  have w: "len = int (length w)" "w \<noteq> []" using assms(1-3) by (auto simp: w_def)
  have l: "int (length sp) = seplen" "sp \<noteq> []" using assms(4,5) by (auto simp: sp_def)
  show ?thesis
  proof (cases "m (8 * 5)")
    case None
    then show ?thesis using assms(1,4) by (auto simp: sdssplitlen_def)
  next
    case (Some f)
    have eq: "sdssplitlen m s len sep seplen count = do {
            r \<leftarrow> split_loop m s len sep seplen 5 0 [] 0;
            case r of
              None \<Rightarrow> Some (None, 0)
            | Some (slots, start, tokens) \<Rightarrow> do {
                r \<leftarrow> split_add m s start len slots tokens;
                case r of
                  None \<Rightarrow> Some (None, 0)
                | Some tokens \<Rightarrow> Some (Some tokens, int (length tokens))
              }
          }"
    proof -
      have "\<not> (seplen < 1 \<or> len < 0)" "len \<noteq> 0" using assms(1,3,4) by auto
      then show ?thesis unfolding sdssplitlen_def Some option.case by (simp only: if_False)
    qed
    have "2 * int (length w) + 2 \<le> INT_MAX" using assms(6) w(1) by simp
    from split_loop_ok [OF w_def sp_def assms(5,4) this split_start, of m] show ?thesis
    proof
      assume l: "split_loop m s (int (length w)) sep seplen 5 0 [] 0 = Some None \<and> (\<exists>k. m k = None)"
      then have "sdssplitlen m s len sep seplen count = Some (None, 0)" unfolding eq using w(1) by simp
      with l show ?thesis by blast
    next
      assume "\<exists>slots' start' toks' j'. split_loop m s (int (length w)) sep seplen 5 0 [] 0 = Some (Some (slots', start', toks')) \<and>
        split_inv w sp slots' start' toks' j' \<and> int (length w) < j' + seplen"
      then obtain sl st toks j where lp: "split_loop m s len sep seplen 5 0 [] 0 = Some (Some (sl, st, toks))"
        and inv: "split_inv w sp sl st toks j" and j: "int (length w) < j + seplen" using w(1) by auto
      let ?c = "take (nat (len - st)) (drop (nat st) w)"
      have b: "0 \<le> st" "st \<le> j" "j \<le> len" using inv w(1) by (auto simp: split_inv_def)
      have free: "\<not> occurs sp ?c" using piece_free [OF inv l(2), of len] b j l(1) w(1) by auto
      have c: "?c = drop (nat st) w" using b w(1) by simp
      obtain cs where cs: "list_all2 sds_holds toks cs" "concat (map (\<lambda>c. c @ sp) cs) = take (nat st) w" "\<forall>c \<in> set cs. \<not> occurs sp c"
        using inv by (auto simp: split_inv_def)
      have slots: "int (length toks) < sl" using inv by (simp add: split_inv_def)
      have sz: "size_t (len - st) = nat (len - st)" using b assms(6) size_t_int [of "nat (len - st)"] by simp
      have "take (nat (len - st)) (drop (nat st) s) = ?c" unfolding w_def using b assms(1) by (intro take_window [symmetric]) auto
      moreover have "nat (len - st) \<le> length (drop (nat st) s)" using b assms(1,2) by auto
      ultimately have "sds_result m ?c (sdsnewlen m (Some (drop (nat st) s)) (size_t (len - st)))"
        using sdsnewlen_result [of "nat (len - st)" "drop (nat st) s" m] b assms(6) by (simp add: sz)
      then show ?thesis
      proof (cases rule: sds_result_cases)
        case 1
        then have "split_add m s st len sl toks = Some None" using slots by (simp add: split_add_def)
        then show ?thesis using 1 by (auto simp: eq lp)
      next
        case (2 t)
        then have "sdssplitlen m s len sep seplen count = Some (Some (toks @ [t]), int (length (toks @ [t])))"
          using slots by (simp add: eq lp split_add_def)
        moreover have "list_all2 sds_holds (toks @ [t]) (cs @ [?c])" using cs(1) 2(2) by (simp add: list_all2_appendI)
        moreover have "join_with sp (cs @ [?c]) = take n s" using cs(2) c by (simp add: join_with_snoc w_def [symmetric])
        moreover have "\<forall>c \<in> set (cs @ [?c]). \<not> occurs sp c" using cs(3) free by simp
        ultimately show ?thesis unfolding sp_def by blast
      qed
    qed
  qed
qed

subsection \<open>Quoted arguments\<close>

definition repr_char :: "char \<Rightarrow> string" where
  "repr_char c =
     (if c = backslash \<or> c = dquote then [backslash, c]
      else if c = LF then [backslash, CHR ''n''] else if c = CR then [backslash, CHR ''r'']
      else if c = TAB then [backslash, CHR ''t''] else if c = BEL then [backslash, CHR ''a'']
      else if c = BS then [backslash, CHR ''b''] else if isprint c then [c]
      else [backslash, CHR ''x'', hex_digits ! (byte_val c div 16), hex_digits ! (byte_val c mod 16)])"

definition quoted :: "string \<Rightarrow> string" where
  "quoted bs = dquote # concat (map repr_char bs) @ [dquote]"

lemma hex_digit_props:
  "k < 16 \<Longrightarrow> is_hex_digit (hex_digits ! k) \<and> hex_digit_to_int (hex_digits ! k) = k \<and> hex_digits ! k \<noteq> NUL"
proof -
  have "list_all (\<lambda>k. is_hex_digit (hex_digits ! k) \<and> hex_digit_to_int (hex_digits ! k) = k \<and> hex_digits ! k \<noteq> NUL) [0..<16]"
    by code_simp
  then show "k < 16 \<Longrightarrow> ?thesis" by (simp add: list_all_iff)
qed

lemma isprint_not_NUL: "isprint c \<Longrightarrow> c \<noteq> NUL"
  by (auto simp: isprint_def byte_val_def)

lemma repr_char_no_NUL: "NUL \<notin> set (repr_char c)"
  using hex_digit_props [of "byte_val c div 16"] hex_digit_props [of "byte_val c mod 16"] byte_val_less [of c] isprint_not_NUL [of c]
  by (auto simp: repr_char_def less_mult_imp_div_less)

lemma char_at_Cons [simp]: "char_at (x # p) 0 = x" "char_at (x # y # p) 1 = y" "char_at (x # y # p) (Suc 0) = y"
    "char_at (x # y # z # p) 2 = z" "char_at (x # y # z # u # p) 3 = u"
  by (simp_all add: char_at_def numeral_2_eq_2 numeral_3_eq_3)

lemma advance_Cons [simp]: "x \<noteq> NUL \<Longrightarrow> advance (x # p) = p"
  by (simp add: advance_def char_at_def)

text \<open>In quotes, the text of a byte is read as that byte.\<close>

lemma split_repr_char:
  assumes "cat1 m (Some s) b = Some (Some s1)"
  shows "split_token m True False (Some s) (repr_char b @ p) = split_token m True False (Some s1) p"
proof -
  define h l where hl: "h = hex_digits ! (byte_val b div 16)" "l = hex_digits ! (byte_val b mod 16)"
  have H: "is_hex_digit h" "hex_digit_to_int h = byte_val b div 16" "h \<noteq> NUL" "is_hex_digit l" "hex_digit_to_int l = byte_val b mod 16" "l \<noteq> NUL"
    using hex_digit_props [of "byte_val b div 16"] hex_digit_props [of "byte_val b mod 16"] byte_val_less [of b]
    by (simp_all add: hl less_mult_imp_div_less)
  have esc: "split_token m True False (Some s) (backslash # y # p) = split_token m True False (Some s1) p"
    if "unescape y = b" "y \<noteq> CHR ''x''" "y \<noteq> NUL" for y
    using that assms by (subst split_token.simps) simp
  consider (quote) "b = backslash \<or> b = dquote" | (named) "b \<in> {LF, CR, TAB, BEL, BS}"
    | (plain) "b \<notin> {backslash, dquote, LF, CR, TAB, BEL, BS}" "isprint b" | (hex) "b \<notin> {backslash, dquote, LF, CR, TAB, BEL, BS}" "\<not> isprint b"
    by auto
  then show ?thesis
  proof cases
    case quote
    then show ?thesis using esc [of b] by (auto simp: repr_char_def unescape_def)
  next
    case named
    then show ?thesis using esc [of "CHR ''n''"] esc [of "CHR ''r''"] esc [of "CHR ''t''"] esc [of "CHR ''a''"] esc [of "CHR ''b''"]
      by (auto simp: repr_char_def unescape_def)
  next
    case plain
    then have "repr_char b = [b]" "b \<noteq> NUL" using isprint_not_NUL by (auto simp: repr_char_def)
    then show ?thesis using plain(1) assms by (subst split_token.simps) simp
  next
    case hex
    have "repr_char b = [backslash, CHR ''x'', h, l]" using hex by (auto simp: repr_char_def hl)
    moreover have "mk_byte (byte_val b div 16 * 16 + byte_val b mod 16) = b" by (simp only: div_mult_mod_eq mk_byte_val)
    ultimately show ?thesis using H assms by (subst split_token.simps) simp
  qed
qed

lemma split_args_space: "isspace x \<Longrightarrow> split_args m v (x # p) = split_args m v p"
  by (subst (1 2) split_args.simps) simp

text \<open>A memory that always has room.\<close>

locale enough_memory =
  fixes m :: malloc
  assumes never_null: "m n \<noteq> None"
begin

lemma result_holds: "sds_result m c res \<Longrightarrow> \<exists>s. res = Some (Some s) \<and> sds_holds s c"
  by (auto elim!: sds_result_cases simp: never_null)

lemma catlen_total: "sds_holds s c \<Longrightarrow> n \<le> length t \<Longrightarrow> room_ok (length c + n) \<Longrightarrow> \<exists>s'. sdscatlen m s t n = Some (Some s') \<and> sds_holds s' (c @ take n t)"
  by (rule result_holds) (rule sdscatlen_result)

lemma join_loop_total:
  assumes "\<And>s c a x. sds_holds s c \<Longrightarrow> rel a x \<Longrightarrow> room_ok (length c + length x) \<Longrightarrow> \<exists>s'. cat s a = Some (Some s') \<and> sds_holds s' (c @ x)"
    "list_all2 rel as xs" "n \<le> length sep" "sds_holds s c" "room_ok (length c + length (join_with (take n sep) xs))"
  shows "\<exists>s'. join_loop m cat sep n (Some s) as = Some (Some s') \<and> sds_holds s' (c @ join_with (take n sep) xs)"
  using assms(2,4,5)
proof (induction as xs arbitrary: s c rule: list_all2_induct)
  case (Cons a as x xs)
  show ?case
  proof (cases "as = []")
    case True
    then have "xs = []" using Cons.hyps by simp
    then show ?thesis using True assms(1) [OF Cons.prems(1) Cons.hyps(1)] Cons.prems(2) by auto
  next
    case False
    then have ne: "xs \<noteq> []" using Cons.hyps by auto
    let ?sp = "take n sep"
    have room: "room_ok (length c + length x)" "room_ok (length (c @ x) + n)" "room_ok (length ((c @ x) @ ?sp) + length (join_with ?sp xs))"
      using Cons.prems(2) assms(3) by (simp_all add: join_with_Cons [OF ne])
    obtain s1 where s1: "cat s a = Some (Some s1)" "sds_holds s1 (c @ x)" using assms(1) [OF Cons.prems(1) Cons.hyps(1) room(1)] by blast
    obtain s2 where s2: "sdscatlen m s1 sep n = Some (Some s2)" "sds_holds s2 ((c @ x) @ ?sp)"
      using catlen_total [OF s1(2) assms(3) room(2)] by blast
    from Cons.IH [OF s2(2) room(3)] show ?thesis using False s1(1) s2(1) by (simp add: join_with_Cons [OF ne])
  qed
qed simp

lemma joinsds_total:
  assumes "list_all2 sds_holds av xs" "argc = int (length av)" "n \<le> length sep" "room_ok (length (join_with (take n sep) xs))"
  shows "\<exists>s. sdsjoinsds m av argc sep n = Some (Some s) \<and> sds_holds s (join_with (take n sep) xs)"
proof -
  obtain e where e: "sdsempty m = Some (Some e)" "sds_holds e []" using result_holds [OF sdsempty_result] by blast
  have cat: "\<exists>s'. sdscatsds m s a = Some (Some s') \<and> sds_holds s' (c @ x)"
    if "sds_holds s c" "sds_holds a x" "room_ok (length c + length x)" for s c a x
    using result_holds [OF sdscatsds_result [OF that]] .
  have "array_elems av argc = Some av" using assms(2) by (simp add: array_elems_def)
  then show ?thesis using join_loop_total [of sds_holds "sdscatsds m", OF cat assms(1,3) e(2)] assms(4) e(1) by (auto simp: sdsjoinsds_def)
qed

lemma catprintf_total: "sds_holds s c \<Longrightarrow> NUL \<notin> set t \<Longrightarrow> room_ok (length c + length t) \<Longrightarrow> \<exists>s'. sdscatprintf m s t = Some (Some s') \<and> sds_holds s' (c @ t)"
  by (rule result_holds) (rule sdscatprintf_result)

lemma catrepr_char_total:
  assumes "sds_holds s c" "room_ok (length c + length (repr_char x))"
  shows "\<exists>s'. catrepr_char m s x = Some (Some s') \<and> sds_holds s' (c @ repr_char x)"
proof -
  have two: "\<exists>s'. sdscatlen m s [backslash, y, NUL] 2 = Some (Some s') \<and> sds_holds s' (c @ [backslash, y])" if "repr_char x = [backslash, y]" for y
    using catlen_total [OF assms(1), of 2 "[backslash, y, NUL]"] assms(2) that by (simp add: numeral_2_eq_2)
  have pr: "\<exists>s'. sdscatprintf m s (repr_char x) = Some (Some s') \<and> sds_holds s' (c @ repr_char x)"
    by (rule catprintf_total [OF assms(1) repr_char_no_NUL assms(2)])
  show ?thesis
  proof (cases "x \<in> {LF, CR, TAB, BEL, BS}")
    case True
    then show ?thesis using two by (auto simp: catrepr_char_def repr_char_def)
  next
    case False
    then have "catrepr_char m s x = sdscatprintf m s (repr_char x)" by (auto simp: catrepr_char_def repr_char_def)
    then show ?thesis using pr by simp
  qed
qed

lemma catrepr_loop_total:
  "sds_holds s c \<Longrightarrow> room_ok (length c + length (concat (map repr_char bs))) \<Longrightarrow>
     \<exists>s'. catrepr_loop m s bs = Some s' \<and> sds_holds s' (c @ concat (map repr_char bs))"
proof (induction bs arbitrary: s c)
  case (Cons b bs)
  obtain s1 where s1: "catrepr_char m s b = Some (Some s1)" "sds_holds s1 (c @ repr_char b)"
    using catrepr_char_total [OF Cons.prems(1), of b] Cons.prems(2) by auto
  show ?case using Cons.IH [OF s1(2)] Cons.prems(2) s1(1) by simp
qed simp

lemma catrepr_total:
  assumes "sds_holds s c" "n \<le> length p" "room_ok (length c + length (quoted (take n p)))"
  shows "\<exists>s'. sdscatrepr m s p n = Some (Some s') \<and> sds_holds s' (c @ quoted (take n p))"
proof -
  let ?body = "concat (map repr_char (take n p))"
  have room: "room_ok (length c + 1)" "room_ok (length (c @ [dquote]) + length ?body)" "room_ok (length (c @ dquote # ?body) + 1)"
    using assms(3) by (simp_all add: quoted_def)
  obtain s1 where s1: "sdscatlen m s [dquote, NUL] 1 = Some (Some s1)" "sds_holds s1 (c @ [dquote])"
    using catlen_total [OF assms(1) _ room(1), of "[dquote, NUL]"] by auto
  obtain s2 where s2: "catrepr_loop m s1 (take n p) = Some s2" "sds_holds s2 (c @ dquote # ?body)"
    using catrepr_loop_total [OF s1(2) room(2)] by auto
  obtain s3 where s3: "sdscatlen m s2 [dquote, NUL] 1 = Some (Some s3)" "sds_holds s3 ((c @ dquote # ?body) @ [dquote])"
    using catlen_total [OF s2(2) _ room(3), of "[dquote, NUL]"] by auto
  show ?thesis using s1(1) s2(1) s3 assms(2) by (simp add: sdscatrepr_def peek_ok quoted_def)
qed

lemma cat1_total: "sds_holds s c \<Longrightarrow> room_ok (length c + 1) \<Longrightarrow> \<exists>s'. cat1 m (Some s) x = Some (Some s') \<and> sds_holds s' (c @ [x])"
  using catlen_total [of s c 1 "[x]"] by (simp add: cat1_def)

lemma split_quoted:
  assumes "quote_ends (dquote # rest)" "sds_holds s c" "room_ok (length c + length bs)"
  shows "\<exists>s'. split_token m True False (Some s) (concat (map repr_char bs) @ dquote # rest) = Some (Some (Some s', rest)) \<and> sds_holds s' (c @ bs)"
  using assms(2,3)
proof (induction bs arbitrary: s c)
  case Nil
  have "split_token m True False (Some s) (dquote # rest) = Some (Some (Some s, rest))"
    using assms(1) by (subst split_token.simps) (simp add: char_at_def advance_def)
  then show ?case using Nil by simp
next
  case (Cons b bs)
  have room: "room_ok (length c + 1)" "room_ok (length (c @ [b]) + length bs)" using Cons.prems(2) by simp_all
  obtain s1 where s1: "cat1 m (Some s) b = Some (Some s1)" "sds_holds s1 (c @ [b])" using cat1_total [OF Cons.prems(1) room(1)] by blast
  have "split_token m True False (Some s) (repr_char b @ concat (map repr_char bs) @ dquote # rest) =
    split_token m True False (Some s1) (concat (map repr_char bs) @ dquote # rest)"
    by (rule split_repr_char [OF s1(1)])
  then show ?case using Cons.IH [OF s1(2) room(2)] by simp
qed

lemma split_args_quoted:
  "\<forall>a \<in> set as. room_ok (length a) \<Longrightarrow>
     \<exists>toks. split_args m v (join_with '' '' (map quoted as)) = (if v = [] \<and> as = [] then Some (Some []) else Some (Some (v @ toks))) \<and>
       list_all2 (\<lambda>t a. \<exists>s. t = Some s \<and> sds_holds s a) toks as"
proof (induction as arbitrary: v)
  case Nil
  obtain f where "m 8 = Some f" using never_null by blast
  then show ?case by (subst split_args.simps) (auto simp: char_at_def)
next
  case (Cons a as)
  define rest where "rest = (if as = [] then [] else CHR '' '' # join_with '' '' (map quoted as))"
  have line: "join_with '' '' (map quoted (a # as)) = dquote # concat (map repr_char a) @ dquote # rest"
    by (cases as) (simp_all add: rest_def quoted_def)
  have ends: "quote_ends (dquote # rest)"
    by (simp add: rest_def quote_ends_def char_at_def isspace_def byte_val_def)
  obtain e where e: "sdsempty m = Some (Some e)" "sds_holds e []" using result_holds [OF sdsempty_result] by blast
  obtain t where t: "split_token m True False (Some e) (concat (map repr_char a) @ dquote # rest) = Some (Some (Some t, rest))" "sds_holds t a"
    using split_quoted [OF ends e(2), of a] Cons.prems by auto
  have tok: "split_token m False False (Some e) (dquote # concat (map repr_char a) @ dquote # rest) = Some (Some (Some t, rest))"
    by (subst split_token.simps) (simp add: t(1))
  have ns: "\<not> isspace dquote" by (simp add: isspace_def byte_val_def)
  have "split_args m v (join_with '' '' (map quoted (a # as))) = split_args m (v @ [Some t]) rest"
    unfolding line by (subst split_args.simps) (simp add: ns e(1) tok never_null)
  also have "\<dots> = split_args m (v @ [Some t]) (join_with '' '' (map quoted as))"
    by (cases "as = []") (auto simp: rest_def split_args_space isspace_def byte_val_def)
  finally show ?case using Cons.IH [of "v @ [Some t]"] Cons.prems t(2) by fastforce
qed

end

text \<open>Every memory that never fails is of this form.\<close>

interpretation ram: enough_memory "\<lambda>n. Some (g n)" for g
  by unfold_locales simp

lemma quoted_in_line: "a \<in> set as \<Longrightarrow> length (quoted a) \<le> length (join_with sp (map quoted as))"
proof (induction as)
  case (Cons x as)
  then show ?case by (cases as) auto
qed simp

lemma length_repr_char: "1 \<le> length (repr_char c)"
  by (simp add: repr_char_def)

lemma length_quoted: "length a \<le> length (quoted a)"
proof -
  have "length a \<le> length (concat (map repr_char a))"
  proof (induction a)
    case (Cons c a)
    then show ?case using length_repr_char [of c] by simp
  qed simp
  then show ?thesis by (simp add: quoted_def)
qed

lemma quoted_no_NUL: "NUL \<notin> set (quoted a)"
  using repr_char_no_NUL by (auto simp: quoted_def)

lemma line_no_NUL: "NUL \<notin> set (join_with '' '' (map quoted as))"
proof (induction as)
  case (Cons x as)
  then show ?case using quoted_no_NUL [of x] by (cases as) auto
qed simp

subsection \<open>Sequences of operations\<close>

datatype sds_op =
    Op_catlen string nat | Op_catprintf string | Op_cpylen string nat | Op_growzero nat | Op_MakeRoomFor nat | Op_dup
  | Op_clear | Op_updatelen | Op_trim string | Op_range int int | Op_tolower | Op_toupper | Op_mapchars string string nat

primrec sds_apply :: "malloc \<Rightarrow> sds_op \<Rightarrow> sds \<Rightarrow> sds option ub" where
  "sds_apply m (Op_catlen t n) s = sdscatlen m s t n"
| "sds_apply m (Op_catprintf t) s = sdscatprintf m s t"
| "sds_apply m (Op_cpylen t n) s = sdscpylen m s t n"
| "sds_apply m (Op_growzero n) s = sdsgrowzero m s n"
| "sds_apply m (Op_MakeRoomFor n) s = sdsMakeRoomFor m s n"
| "sds_apply m Op_dup s = sdsdup m s"
| "sds_apply m Op_clear s = map_option Some (sdsclear s)"
| "sds_apply m Op_updatelen s = map_option Some (sdsupdatelen s)"
| "sds_apply m (Op_trim cset) s = map_option Some (sdstrim s cset)"
| "sds_apply m (Op_range a b) s = map_option Some (sdsrange s a b)"
| "sds_apply m Op_tolower s = map_option Some (sdstolower s)"
| "sds_apply m Op_toupper s = map_option Some (sdstoupper s)"
| "sds_apply m (Op_mapchars from to n) s = map_option Some (sdsmapchars s from to n)"

primrec op_spec :: "sds_op \<Rightarrow> string \<Rightarrow> string" where
  "op_spec (Op_catlen t n) c = c @ take n t"
| "op_spec (Op_catprintf t) c = c @ t"
| "op_spec (Op_cpylen t n) c = take n t"
| "op_spec (Op_growzero n) c = c @ replicate (n - length c) NUL"
| "op_spec (Op_MakeRoomFor n) c = c"
| "op_spec Op_dup c = c"
| "op_spec Op_clear c = []"
| "op_spec Op_updatelen c = c_str c"
| "op_spec (Op_trim cset) c = trim_both cset c"
| "op_spec (Op_range a b) c = range_spec a b c"
| "op_spec Op_tolower c = map tolower c"
| "op_spec Op_toupper c = map toupper c"
| "op_spec (Op_mapchars from to n) c = mapchars_spec (take n from) (take n to) c"

text \<open>The arguments can be read, and the sizes stay below the range of an \<open>int\<close> by the room that is added.\<close>

primrec op_fits :: "sds_op \<Rightarrow> string \<Rightarrow> bool" where
  "op_fits (Op_catlen t n) c \<longleftrightarrow> n \<le> length t \<and> room_ok (length c + n)"
| "op_fits (Op_catprintf t) c \<longleftrightarrow> NUL \<notin> set t \<and> room_ok (length c + length t)"
| "op_fits (Op_cpylen t n) c \<longleftrightarrow> n \<le> length t \<and> room_ok (length c + n)"
| "op_fits (Op_growzero n) c \<longleftrightarrow> room_ok n \<and> room_ok (length c)"
| "op_fits (Op_MakeRoomFor n) c \<longleftrightarrow> room_ok (length c + n)"
| "op_fits Op_dup c \<longleftrightarrow> True"
| "op_fits Op_clear c \<longleftrightarrow> True"
| "op_fits Op_updatelen c \<longleftrightarrow> True"
| "op_fits (Op_trim cset) c \<longleftrightarrow> True"
| "op_fits (Op_range a b) c \<longleftrightarrow> INT_MIN \<le> a \<and> a \<le> INT_MAX \<and> INT_MIN \<le> b \<and> b < INT_MAX"
| "op_fits Op_tolower c \<longleftrightarrow> True"
| "op_fits Op_toupper c \<longleftrightarrow> True"
| "op_fits (Op_mapchars from to n) c \<longleftrightarrow> n \<le> length from \<and> n \<le> length to"

primrec sds_run :: "malloc \<Rightarrow> sds_op list \<Rightarrow> sds \<Rightarrow> sds option ub" where
  "sds_run m [] s = Some (Some s)"
| "sds_run m (op # ops) s = do {
     r \<leftarrow> sds_apply m op s;
     case r of None \<Rightarrow> Some None | Some s \<Rightarrow> sds_run m ops s
   }"

primrec ops_fit :: "sds_op list \<Rightarrow> string \<Rightarrow> bool" where
  "ops_fit [] c \<longleftrightarrow> True"
| "ops_fit (op # ops) c \<longleftrightarrow> op_fits op c \<and> ops_fit ops (op_spec op c)"

lemma MakeRoom_result: "sds_holds s c \<Longrightarrow> room_ok (length c + n) \<Longrightarrow> sds_result m c (sdsMakeRoomFor m s n)"
  using sdsMakeRoomFor_result [of s c n m] by (auto simp: sds_holds_def)

lemma in_place: "\<exists>s'. r = Some s' \<and> sds_holds s' c \<Longrightarrow> sds_result m c (map_option Some r)"
  by auto

lemmas op_results = sdscatlen_result sdscatprintf_result sdscpylen_result sdsgrowzero_result MakeRoom_result sdsdup_result
  in_place [OF sdsclear_holds] in_place [OF sdsupdatelen_holds] in_place [OF sdstrim_holds] in_place [OF sdsrange_holds]
  in_place [OF map_sds_holds] in_place [OF sdsmapchars_holds]

lemma sds_apply_result: "sds_holds s c \<Longrightarrow> op_fits op c \<Longrightarrow> sds_result m (op_spec op c) (sds_apply m op s)"
  by (cases op) (simp_all add: op_results sdstolower_def sdstoupper_def)

section \<open>Properties\<close>



text \<open>
  C23: \<open>sdssplitlen\<close> and \<open>sdsjoinsds\<close> are inverse to each other. Splitting a string that is not empty gives
  tokens in which the separator does not occur and whose join is the string again, or a null pointer when
  an allocation has failed.
\<close>

theorem sds_split_join:
  assumes "len = int n" "n \<le> length s" "0 < n" "1 \<le> seplen" "nat seplen \<le> length sep" "2 * len + 2 \<le> INT_MAX"
  shows "(\<exists>toks. sdssplitlen m s len sep seplen count = Some (Some toks, int (length toks)) \<and>
      (\<forall>t \<in> set toks. \<exists>c. sds_holds t c \<and> \<not> occurs (take (nat seplen) sep) c) \<and>
      (\<forall>g. \<exists>j. sdsjoinsds (\<lambda>n. Some (g n)) toks (int (length toks)) sep (nat seplen) = Some (Some j) \<and> sds_holds j (take n s))) \<or>
    (\<exists>k. sdssplitlen m s len sep seplen count = Some (None, k)) \<and> (\<exists>k. m k = None)"
  using sdssplitlen_ok [OF assms, of m count]
proof (elim disjE)
  assume "\<exists>toks cs. sdssplitlen m s len sep seplen count = Some (Some toks, int (length toks)) \<and> list_all2 sds_holds toks cs \<and>
    join_with (take (nat seplen) sep) cs = take n s \<and> (\<forall>c \<in> set cs. \<not> occurs (take (nat seplen) sep) c)"
  then obtain toks cs where t: "sdssplitlen m s len sep seplen count = Some (Some toks, int (length toks))" "list_all2 sds_holds toks cs"
      "join_with (take (nat seplen) sep) cs = take n s" "\<forall>c \<in> set cs. \<not> occurs (take (nat seplen) sep) c" by blast
  have "room_ok (length (take n s))" using assms(1,2,6) by (simp add: SDS_MAX_PREALLOC_def INT_MAX_def)
  then have "\<exists>j. sdsjoinsds (\<lambda>n. Some (g n)) toks (int (length toks)) sep (nat seplen) = Some (Some j) \<and> sds_holds j (take n s)" for g
    using ram.joinsds_total [OF t(2) refl assms(5), of g] t(3) by simp
  moreover have "\<exists>c. sds_holds x c \<and> \<not> occurs (take (nat seplen) sep) c" if "x \<in> set toks" for x
    using t(2,4) that by (metis in_set_conv_nth list_all2_conv_all_nth)
  ultimately show ?thesis using t(1) by blast
qed blast

theorem sds_split_join_witness:
  "\<exists>toks. sdssplitlen (\<lambda>n. Some (\<lambda>i. NUL)) ''a--b-'' 5 ''--'' 2 0 = Some (Some toks, int (length toks)) \<and>
     (\<forall>g. \<exists>j. sdsjoinsds (\<lambda>n. Some (g n)) toks (int (length toks)) ''--'' 2 = Some (Some j) \<and> sds_holds j ''a--b-'')"
  using sds_split_join [of 5 5 "''a--b-''" 2 "''--''" "\<lambda>n. Some (\<lambda>i. NUL)" 0] by (auto simp: INT_MAX_def)

text \<open>
  C16: \<open>sdssplitargs\<close> reads back what \<open>sdscatrepr\<close> writes. When any byte strings are written by \<open>sdscatrepr\<close>
  and joined with blanks by \<open>sdsjoinsds\<close>, \<open>sdssplitargs\<close> splits the line into exactly these strings.
\<close>

theorem sds_args_roundtrip:
  assumes "room_ok (length (join_with '' '' (map quoted args)))" "m = (\<lambda>n. Some (g n))"
  shows "\<exists>e reprs line toks. sdsempty m = Some (Some e) \<and>
    list_all2 (\<lambda>q a. sdscatrepr m e a (length a) = Some (Some q)) reprs args \<and>
    sdsjoinsds m reprs (int (length reprs)) [CHR '' '', NUL] 1 = Some (Some line) \<and>
    sdssplitargs m (sds_buf line) = Some (Some toks, int (length args)) \<and>
    list_all2 (\<lambda>t a. \<exists>s. t = Some s \<and> sds_holds s a) toks args"
proof -
  obtain e where e: "sdsempty m = Some (Some e)" "sds_holds e []" using ram.result_holds [OF sdsempty_result] unfolding assms(2) by blast
  have room: "room_ok (length (quoted a))" "room_ok (length a)" if "a \<in> set args" for a
    using assms(1) quoted_in_line [OF that, of "'' ''"] length_quoted [of a] by linarith+
  have "\<forall>a \<in> set args. \<exists>s. sdscatrepr m e a (length a) = Some (Some s) \<and> sds_holds s (quoted a)"
    using ram.catrepr_total [OF e(2) order.refl] room(1) unfolding assms(2) by simp
  from bchoice [OF this] obtain q where q: "\<forall>a \<in> set args. sdscatrepr m e a (length a) = Some (Some (q a)) \<and> sds_holds (q a) (quoted a)" by blast
  have reprs: "list_all2 (\<lambda>s a. sdscatrepr m e a (length a) = Some (Some s)) (map q args) args" "list_all2 sds_holds (map q args) (map quoted args)"
    using q by (auto simp: list_all2_conv_all_nth)
  obtain line where line: "sdsjoinsds m (map q args) (int (length (map q args))) [CHR '' '', NUL] 1 = Some (Some line)"
      "sds_holds line (join_with '' '' (map quoted args))"
    using ram.joinsds_total [OF reprs(2) refl, of 1 "[CHR '' '', NUL]"] assms by auto
  obtain r where r: "sds_buf line = join_with '' '' (map quoted args) @ NUL # r" using line(2) by (auto elim!: sds_holdsE)
  have "c_str (sds_buf line) = join_with '' '' (map quoted args)" unfolding r c_str_until_NUL by (rule c_str_id [OF line_no_NUL])
  moreover obtain toks where toks: "split_args m [] (join_with '' '' (map quoted args)) = Some (Some toks)"
      "list_all2 (\<lambda>t a. \<exists>s. t = Some s \<and> sds_holds s a) toks args"
    using ram.split_args_quoted [of args g "[]"] room(2) unfolding assms(2) by (auto split: if_splits)
  ultimately have "sdssplitargs m (sds_buf line) = Some (Some toks, int (length args))"
    by (auto simp: sdssplitargs_def dest: list_all2_lengthD)
  then show ?thesis using e(1) reprs(1) line(1) toks(2) by blast
qed

theorem sds_args_roundtrip_witness:
  "\<exists>e reprs line toks. sdsempty (\<lambda>n. Some (\<lambda>i. NUL)) = Some (Some e) \<and>
     list_all2 (\<lambda>q a. sdscatrepr (\<lambda>n. Some (\<lambda>i. NUL)) e a (length a) = Some (Some q)) reprs [''a b'', [NUL, dquote]] \<and>
     sdsjoinsds (\<lambda>n. Some (\<lambda>i. NUL)) reprs (int (length reprs)) [CHR '' '', NUL] 1 = Some (Some line) \<and>
     sdssplitargs (\<lambda>n. Some (\<lambda>i. NUL)) (sds_buf line) = Some (Some toks, 2) \<and>
     list_all2 (\<lambda>t a. \<exists>s. t = Some s \<and> sds_holds s a) toks [''a b'', [NUL, dquote]]"
proof -
  have "length (join_with '' '' (map quoted [''a b'', [NUL, dquote]])) = 14" by code_simp
  then have "room_ok (length (join_with '' '' (map quoted [''a b'', [NUL, dquote]])))" by (simp only: SDS_MAX_PREALLOC_def INT_MAX_def) simp
  from sds_args_roundtrip [OF this refl, of "\<lambda>n i. NUL"] show ?thesis by simp
qed

text \<open>
  C24: \<open>sdsfromlonglong\<close> writes the decimal digits of every value but the least one, for which the negation
  overflows, and reading them gives the value back. Its buffer of 32 bytes is large enough.
\<close>

theorem sds_number_roundtrip:
  assumes "is_int64 v"
  shows "if v = INT64_MIN then sdsfromlonglong m v = None
    else sds_result m (dec_int v) (sdsfromlonglong m v) \<and> str_to_int64 (dec_int v) = v"
  using sdsfromlonglong_result [OF assms] str_to_int64_dec_int [OF assms]
  by (simp add: sdsfromlonglong_def INT64_MIN_def INT64_MAX_def)

theorem sds_number_roundtrip_witness:
  "(\<exists>s. sdsfromlonglong (\<lambda>n. Some (\<lambda>i. NUL)) (- 42) = Some (Some s) \<and> sds_holds s ''-42'') \<and>
   sdsfromlonglong (\<lambda>n. Some (\<lambda>i. NUL)) INT64_MIN = None"
proof -
  have "is_int64 (- 42)" "is_int64 INT64_MIN" "- 42 \<noteq> INT64_MIN" by (simp_all add: is_int64_def INT64_MIN_def INT64_MAX_def)
  moreover have "dec_int (- 42) = ''-42''" by code_simp
  ultimately show ?thesis
    using sds_number_roundtrip [of "- 42" "\<lambda>n. Some (\<lambda>i. NUL)"] sds_number_roundtrip [of INT64_MIN "\<lambda>n. Some (\<lambda>i. NUL)"]
    by (auto elim!: sds_result_cases)
qed

end
