(* ===== verification/Spec2Isabelle.thy ===== *)
theory Spec2Isabelle
  imports Xhc_Main Xhc_Sds
begin

text \<open>
  xhttpcache: a key/value cache with an HTTP front end, an HTTP back end for administration and a
  server of the Redis protocol, all over one RocksDB database.

  \<^bold>\<open>The program and its model.\<close> Paths are relative to \<open>src/\<close>. One theory models one part of the program,
  with a record for each class, a datatype for each enumeration and one function for each operation, in
  the order of the source. The parts build on each other as the theories do.

  \<^item> \<open>Xhc_Prelude\<close>: bytes, machine integers, decimal text, ordered maps, and the interfaces \<open>codec\<close> and
    \<open>stream_consumer\<close> that several parts share.
  \<^item> \<open>Xhc_Util\<close> (\<open>common/util.cpp\<close>): byte order of scores, numbers as text, tokens, base64, the password
    text, the date of a header.
  \<^item> \<open>Xhc_Sds\<close> (\<open>common/sds.cpp\<close>): the dynamic strings that hold the arguments of a Redis command: header
    and block, splitting, joining, quoting.
  \<^item> \<open>Xhc_SortedSet\<close> (\<open>common/sorted_set.h\<close>, \<open>.cpp\<close>): the scored set of the expiry manager and the byte
    decoder of database keys. Locale \<open>score_queue\<close>.
  \<^item> \<open>Xhc_Murmur\<close> (\<open>common/MurmurHash2.cpp\<close>): the hash functions on 32- and 64-bit words.
  \<^item> \<open>Xhc_Etag\<close> (\<open>src/xEtagManager.cpp\<close>): the least-recently-used cache of entity tags. Locale \<open>lru_cache\<close>.
  \<^item> \<open>Xhc_Store\<close>: the calls of RocksDB as a record of functions, and what the code relies on as the locales
    \<open>rocksdb\<close>, \<open>rocksdb_scan\<close> and \<open>rocksdb_reliable\<close>, each an extension of the one before.
  \<^item> \<open>Xhc_DataBase\<close> (\<open>src/xDataBase.cpp\<close>): values and sorted sets as rows of the store.
  \<^item> \<open>Xhc_Expire\<close> (\<open>src/xExpireManager.cpp\<close>): the queue of expiry times and the turns of its thread.
  \<^item> \<open>Xhc_RedisLib\<close> (\<open>common/xRedisServerLib.cpp\<close>): the parser of the Redis protocol, its replies, the
    command table and the connections.
  \<^item> \<open>Xhc_RedisServer\<close> (\<open>src/xRedisServer.cpp\<close>): the commands, over the database and the expiry manager.
  \<^item> \<open>Xhc_IniFile\<close> (\<open>common/xIniFile.cpp\<close>) and \<open>Xhc_Config\<close> (\<open>src/xConfig.cpp\<close>): the configuration file and
    the settings read from it.
  \<^item> \<open>Xhc_Multipart\<close> (\<open>common/Field.cpp\<close>, \<open>common/Parser.cpp\<close>): the parser of uploaded forms. The file
    system is a record of functions.
  \<^item> \<open>Xhc_Http\<close> (\<open>common/xevHtpdBase.cpp\<close>, \<open>gzcompress\<close> of \<open>common/util.cpp\<close>): requests, replies, content
    types and compression. The calls of zlib are a record, what the code relies on is the locale \<open>zlib\<close>.
  \<^item> \<open>Xhc_Frontend\<close> (\<open>src/xevHtpdFrontend.cpp\<close>): the server that delivers values, with the conditional
    headers. Locale \<open>http_env\<close>, the join of \<open>rocksdb_reliable\<close> and \<open>zlib\<close>.
  \<^item> \<open>Xhc_Json\<close> and \<open>Xhc_JsonReader\<close> (\<open>common/jsoncpp.cpp\<close>): JSON values, the compact writer, the reader.
  \<^item> \<open>Xhc_Backend\<close> (\<open>src/xevHtpdBackend.cpp\<close>): the server that stores, deletes and lists values behind a
    password.
  \<^item> \<open>Xhc_Main\<close> (\<open>src/xHttpCache.cpp\<close>): the start of the process. This theory holds the properties that
    span the servers.

  \<^bold>\<open>State and effects.\<close> A member function takes the record of its object and returns it updated. What the
  operating system and the libraries decide (the time, the bytes that arrive, the result of \<open>malloc\<close>, the
  rows of the store, an uninitialised field) is an argument. A result of type \<open>'a ub\<close> is \<^const>\<open>None\<close> where the
  C++ code has undefined behaviour, fails an assertion or lets an exception escape; errors the code handles
  are values. What is written to the log is left out.

  \<^bold>\<open>What is shown.\<close> The database refines two finite maps, for every store that satisfies the laws of RocksDB
  (\<open>database_refines_maps\<close>); scans and the load of expiry times return exactly the rows they should; the
  key of a score row decodes to what was encoded and sorts by score. The Redis server refines a
  specification with a map of values, a map of times and a clock, whatever the order of commands, clock
  ticks and turns of the expiry thread (\<open>redis_server_refines\<close>), and does so from the bytes of a
  connection however they are cut into pieces (\<open>redis_end_to_end\<close>). Keys are there until their time and
  gone after it. What the back end stores is what the front end delivers, through forms and compression
  (\<open>upload_then_download\<close>), and what the Redis server stores is delivered as well
  (\<open>servers_share_database\<close>); nobody without the password changes anything. The encodings have their round
  trips: multipart forms, JSON documents, configuration files, quoted arguments, split and joined strings,
  database keys. The tag cache and the sorted set refine their abstract counterparts. Every parser is total
  or its undefined inputs are characterised. Where the code does something it should not, the property says
  so and the model has it: an expiry time outlives a plain \<open>set\<close>, an empty argument stops a connection, a
  long command name makes a reply read past its buffer, a long password lets everyone in.

  \<^bold>\<open>Loops and bounds.\<close> Loops are recursive functions with a measure: the bytes left, the arguments missing,
  the distance to a limit. The JSON reader is mutually recursive on fuel; \<open>2 * length document + 1\<close> is proved
  to be enough for every document. \<open>Flushall_loop\<close>, \<open>gz_feed\<close> and \<open>gz_finish\<close> depend on a library for their
  end and are partial functions, proved to return under the laws of the library. Sizes of buffers are
  assumed to be below 2 GB where the code keeps them in an \<open>int\<close>; each property says so.

  \<^bold>\<open>Not modelled.\<close>
  \<^item> \<open>common/xLog.cpp\<close>, \<open>common/xLock.h\<close>, \<open>common/xTimerCount.h\<close>: log lines, mutexes and a stop watch; no
    operation reads what they do.
  \<^item> Threads and event loops (\<open>Run\<close>, \<open>Dispatch\<close> of the servers, \<open>StartTTL\<close>, \<open>BindPort\<close>): they hand
    control to libevent and libevhtp. The callbacks they lead to are modelled, as atomic steps in any order;
    races between threads on the shared set of expiry times are not.
  \<^item> \<open>daemonize\<close>, \<open>guard\<close> and the signal handlers: process control by \<open>fork\<close> and \<open>wait\<close>.
  \<^item> \<open>HttpDebug\<close>, \<open>Debug\<close>, \<open>version\<close>: they only write to the log. \<open>GetValueV\<close> of \<open>CIniFile\<close>: it only hands
    a value to \<open>vsscanf\<close>.
  \<^item> The parts of \<open>common/jsoncpp.cpp\<close> the program does not call: comparison, iteration and paths of values,
    comments, the styled writers, the second reader, the text of doubles.
  \<^item> \<open>include/\<close>: the headers of RocksDB, libevhtp and onigposix, whose code is not part of the repository.
  \<^item> Release of memory.
\<close>

section \<open>Redis arguments\<close>

text \<open>
  The model of the Redis library keeps an argument as its bytes; the code keeps it in a dynamic string. The
  string \<open>sdsnewlen\<close> makes of the same pointer and length holds these bytes.
\<close>

lemma ParaseData_sds:
  assumes "ParaseData ptr c = Some (p, c')" "p \<noteq> 0" "int (length ptr) \<le> INT_MAX"
  shows "\<exists>ret len av. argv c = Some av \<and> argv c' = Some (av @ [take len (drop ret ptr)]) \<and>
    sds_result m (take len (drop ret ptr)) (sdsnewlen m (Some (drop ret ptr)) len)"
proof -
  from assms(1,2) obtain ret len av where a: "argv c = Some av" "argv c' = Some (av @ [take (nat len) (drop ret ptr)])"
      "0 \<le> len" "len + 2 \<le> int (length (drop ret ptr))"
    by (auto simp: ParaseData_def split: if_splits bind_splits)
  have n: "nat len \<le> length (drop ret ptr)" "int (nat len) \<le> INT_MAX" using a(3,4) assms(3) by auto
  show ?thesis using a(1,2) sdsnewlen_result [OF n] by blast
qed

section \<open>Properties of the whole program\<close>

text \<open>
  C20: the program starts into the state the other properties assume. When both loads of the settings
  succeed or fail without a fault, the settings of the tag cache are positive and RocksDB opens the two
  databases, \<open>main\<close> reaches its sleep with the shared database open and its tag cache empty and not
  recording, the Redis server fresh on that database, each HTTP server bound to its own address, and the
  routes of both in place when the library accepts them. The back end never uses SSL, whatever its
  settings say: its files are given to the front end.
\<close>

theorem process_start:
  assumes "xConfig_Load (cnf (config_file_arg args)) (config_file_arg args) c0 = Some (ok1, c1)"
    "xConfig_Load (cnf (config_file_arg args)) (config_file_arg args) c1 = Some (ok2, c)"
    "etag_settings_ok (frontend c)" "\<And>opts dir. rocks_Open opts dir = (S_OK, Some (vol dir))"
  shows "\<exists>p. main ops rocks_Open set_front_cb set_back_cb o0 ttl0 us ms cnf args c0 = Some p \<and> settings p = c \<and>
    dbp (main_db p) = Some (vol (db_base_dir (xConfig.db c))) \<and> front_ready (frontend c) (main_db p) \<and>
    dbp (sys_db p) = Some (vol ''./xdb'') \<and> \<not> bEtag (sys_db p) \<and>
    xRedisServer_Init ops (main_db p) us ms = (redis_cmds p, redis_server p) \<and>
    bound (front_http p) = [(fe_ip (frontend c), fe_port (frontend c), 1024)] \<and>
    bound (back_http p) = [(be_ip (backend c), be_port (backend c), 1024)] \<and>
    \<not> usessl (back_http p) \<and> ssl_inits (back_http p) = [] \<and>
    ((\<forall>q. set_back_cb q) \<longrightarrow> back_cbs p = backend_paths \<and> back_gencb p = Some REST_cb) \<and>
    ((\<forall>q. set_front_cb q) \<longrightarrow> last (front_cbs p) = (''/*'', GetCallback_cb))"
  unfolding main_def Let_def assms(1) bind.bind_lunit prod.case
  by (rule xhttpcache_ok [OF assms(2,3), of rocks_Open vol]) (rule assms(4))

definition blank_config :: xConfig where
  "blank_config = \<lparr>xConfig.app = \<lparr>log_filename = [], log_filesize = 0, log_level = [], run_daemonize = 0, run_guard = 0, cfg_debug = 0,
       redis_ip = [], redis_port = 0, redis_passwd = []\<rparr>,
     frontend = page_cfg, backend = back_cfg ''admin'' ''pw'', db = sysdb_config 0\<rparr>"

theorem process_start_witness:
  "\<exists>p. main mem_ops (\<lambda>_ _. (S_OK, Some [])) (\<lambda>_. True) (\<lambda>_. True) (options mem_db) 0 5 1000 (\<lambda>_. None) [''xhttpcache''] blank_config = Some p \<and>
    dbp (main_db p) = Some [] \<and> \<not> usessl (back_http p) \<and> back_gencb p = Some REST_cb"
proof -
  have load: "xConfig_Load None f blank_config = Some (False, blank_config)" for f
    by (simp add: xConfig_Load_def ReadFile_def)
  have "etag_settings_ok (frontend blank_config)" by (simp add: etag_settings_ok_def blank_config_def page_cfg_def)
  from process_start [where cnf = "\<lambda>_. None" and args = "[''xhttpcache'']" and rocks_Open = "\<lambda>_ _. (S_OK, Some [])" and vol = "\<lambda>_. []",
      OF load load this refl, of mem_ops "\<lambda>_. True" "\<lambda>_. True" "options mem_db" 0 5 1000]
  show ?thesis by blast
qed

text \<open>
  C17: the three servers work on one database. A value set with the Redis command \<open>set\<close> is answered with
  \<open>OK\<close> and served by the front end for the path of the key, compressed or not, to a client that does not
  claim to have it; when a request with the password then deletes the path through the back end, it is
  answered with 202 and the Redis command \<open>get\<close> gives the null reply.
\<close>

theorem servers_share_database:
  assumes "http_env ops contents it_all it_rest zo gunzip zs" "dbp (xdb sv) = Some d" "front_ready fcfg (xdb sv)" "length val < 2 ^ 31"
    "path_key get = Some key" "req_method get = htp_method_GET" "fresh_request get" "tag_header_ok fcfg get"
    "validators_ok fcfg get (clock_stamp sv)" "\<not> client_current fcfg get (clock_stamp sv)"
    "CheckAuth cfg del" "path_key del = Some key" "key \<noteq> []" "\<not> wants_sysdb del" "req_method del = htp_method_DELETE" "fresh_request del"
  shows "\<exists>sv1 get' x2 hdrs body del' x3 hdrs'.
    run_cmd (fst (xRedisServer_Init ops x0 us ms)) [''set'', key, val] sv = Some (sv1, rok) \<and>
    GetCallback ops zo fcfg ts0 get (xdb sv1) = Some (get', x2) \<and>
    replies get' = [(EVHTP_RES_OK, hdrs, body)] \<and> decoded gunzip hdrs body = Some val \<and>
    RESTCallback ops fo fs cfg ts0 now del (x2, y) = Some (del', x3, y) \<and> replies del' = [(EVHTP_RES_ACCEPTED, hdrs', ''OK'')] \<and>
    run_cmd (fst (xRedisServer_Init ops x0 us ms)) [''get'', key] (sv1\<lparr>xdb := x3\<rparr>) = Some (sv1\<lparr>xdb := x3\<rparr>, rnull)"
proof -
  have rel: "rocksdb_reliable ops contents it_all it_rest" using assms(1) by (simp add: http_env_def)
  have tbl: "fst (xRedisServer_Init ops x0 us ms) = server_table ops" by (simp add: xRedisServer_Init_def)
  have off: "\<not> bEtag (xdb sv)" using assms(3) by (simp add: front_ready_def)
  obtain d1 where d1: "run_cmd (server_table ops) [''set'', key, val] sv = Some (sv\<lparr>xdb := (xdb sv)\<lparr>dbp := Some d1\<rparr>\<rparr>, rok)"
      "contents d1 = (contents d)(key_kv key \<mapsto> stamped (clock_stamp sv) val)"
    using rocksdb_reliable.redis_set [OF rel assms(2) off] by blast
  let ?x = "(xdb sv)\<lparr>dbp := Some d1\<rparr>"
  have x: "dbp ?x = Some d1" "front_ready fcfg ?x" "contents d1 (key_kv key) = Some (stamped (clock_stamp sv) val)"
    using assms(3) d1(2) by simp_all
  from http_env.GetCallbackPro_value [OF assms(1) x(1,2) assms(8,6,7) x(3) assms(9,4), of ts0] assms(10)
  obtain get' x2 hdrs body where get: "GetCallback ops zo fcfg ts0 get ?x = Some (get', x2)" "dbp x2 = Some d1"
      "replies get' = [(EVHTP_RES_OK, hdrs, body)]" "decoded gunzip hdrs body = Some val"
    by (auto simp: GetCallback_def assms(5))
  obtain del' d3 hdrs' where del: "RESTCallback ops fo fs cfg ts0 now del (x2, y) = Some (del', x2\<lparr>dbp := Some d3\<rparr>, y)"
      "replies del' = [(EVHTP_RES_ACCEPTED, hdrs', ''OK'')]" "contents d3 = (contents d1)(key_kv key := None)"
    using rocksdb_reliable.REST_delete [OF rel get(2) assms(11-16), of fo fs ts0 now y] by blast
  have "run_cmd (server_table ops) [''get'', key] (sv\<lparr>xdb := x2\<lparr>dbp := Some d3\<rparr>\<rparr>) = Some (sv\<lparr>xdb := x2\<lparr>dbp := Some d3\<rparr>\<rparr>, rnull)"
    using rocksdb_reliable.redis_get_null [OF rel, of "sv\<lparr>xdb := x2\<lparr>dbp := Some d3\<rparr>\<rparr>" d3 key] del(3) by simp
  then show ?thesis unfolding tbl using d1(1) get(1,3,4) del(1,2)
    by (intro exI [of _ "sv\<lparr>xdb := ?x\<rparr>"] exI [of _ get'] exI [of _ x2] exI [of _ hdrs] exI [of _ body] exI [of _ del']
        exI [of _ "x2\<lparr>dbp := Some d3\<rparr>"] exI [of _ hdrs'] conjI) simp_all
qed

definition delete_request :: "string \<Rightarrow> evhtp_request" where
  "delete_request full = (get_request full [])\<lparr>req_method := htp_method_DELETE\<rparr>"

theorem servers_share_database_witness:
  "\<exists>sv1 get' x2 hdrs body del' x3 hdrs'.
    run_cmd (fst (xRedisServer_Init mem_ops mem_db 0 1000)) [''set'', ''a.css'', ''b{}''] (snd (xRedisServer_Init mem_ops mem_db 0 1000)) =
      Some (sv1, rok) \<and>
    GetCallback mem_ops stored_ops page_cfg 0 (get_request ''/a.css'' []) (xdb sv1) = Some (get', x2) \<and>
    replies get' = [(EVHTP_RES_OK, hdrs, body)] \<and> decoded Some hdrs body = Some ''b{}'' \<and>
    RESTCallback mem_ops undefined () (back_cfg [] (replicate 100 (CHR ''x''))) 0 7 (delete_request ''/a.css'') (x2, page_db) = Some (del', x3, page_db) \<and>
    replies del' = [(EVHTP_RES_ACCEPTED, hdrs', ''OK'')] \<and>
    run_cmd (fst (xRedisServer_Init mem_ops mem_db 0 1000)) [''get'', ''a.css''] (sv1\<lparr>xdb := x3\<rparr>) = Some (sv1\<lparr>xdb := x3\<rparr>, rnull)"
proof (rule servers_share_database [OF http_mem.http_env_axioms, where d = "[]"])
  show "dbp (xdb (snd (xRedisServer_Init mem_ops mem_db 0 1000))) = Some []"
    "front_ready page_cfg (xdb (snd (xRedisServer_Init mem_ops mem_db 0 1000)))"
    by (simp_all add: xRedisServer_Init_def mem_db_def front_ready_def page_cfg_def)
  show "path_key (get_request ''/a.css'' []) = Some ''a.css''" "req_method (get_request ''/a.css'' []) = htp_method_GET"
    "fresh_request (get_request ''/a.css'' [])" "tag_header_ok page_cfg (get_request ''/a.css'' [])"
    "validators_ok page_cfg (get_request ''/a.css'' []) (clock_stamp (snd (xRedisServer_Init mem_ops mem_db 0 1000)))"
    "\<not> client_current page_cfg (get_request ''/a.css'' []) (clock_stamp (snd (xRedisServer_Init mem_ops mem_db 0 1000)))"
    by (simp_all add: get_request_def path_key_def c_str_def fresh_request_def tag_header_ok_def page_cfg_def validators_ok_def
        client_current_def)
  show "CheckAuth (back_cfg [] (replicate 100 (CHR ''x''))) (delete_request ''/a.css'')"
    using encode_pass_too_long [of "[]" "replicate 100 (CHR ''x'')"] by (simp add: CheckAuth_def back_cfg_def)
  show "path_key (delete_request ''/a.css'') = Some ''a.css''" "fresh_request (delete_request ''/a.css'')" "''a.css'' \<noteq> []"
    "\<not> wants_sysdb (delete_request ''/a.css'')" "req_method (delete_request ''/a.css'') = htp_method_DELETE"
    by (simp_all add: delete_request_def get_request_def path_key_def c_str_def fresh_request_def wants_sysdb_def uri_arg_find_def)
qed simp

end
